(* ===== verification/Prelude.thy ===== *)
theory Prelude
  imports Main "HOL-Library.Word" "HOL-Library.Monad_Syntax" "HOL-Library.Multiset"
begin

text \<open>
  Shared vocabulary of the development: C arrays with checked indices, reachable states of a
  transition system, scheduled executions of threads, and two interfaces that several programs of
  the repository implement or use (an inductive invariant of a transition system and a bounded
  stack). An operation of the C code that would be undefined behaviour (an index out of range, a
  null or dangling pointer) has no result: the model returns \<open>None\<close>, so a theorem
  that an operation yields \<open>Some\<close> is also a memory-safety theorem.
\<close>

named_theorems state_simps \<open>definitions of state accessors and helper operations\<close>
named_theorems pc_simps \<open>definitions of program-counter regions\<close>

section \<open>C arrays\<close>

definition arr_get :: "'a list \<Rightarrow> int \<Rightarrow> 'a option" where
  "arr_get xs i = (if 0 \<le> i \<and> i < int (length xs) then Some (xs ! nat i) else None)"

definition arr_set :: "'a list \<Rightarrow> int \<Rightarrow> 'a \<Rightarrow> 'a list option" where
  "arr_set xs i v = (if 0 \<le> i \<and> i < int (length xs) then Some (xs[nat i := v]) else None)"

lemma arr_get_in [simp]: "0 \<le> i \<Longrightarrow> i < int (length xs) \<Longrightarrow> arr_get xs i = Some (xs ! nat i)"
  by (simp add: arr_get_def)

lemma arr_set_in [simp]: "0 \<le> i \<Longrightarrow> i < int (length xs) \<Longrightarrow> arr_set xs i v = Some (xs[nat i := v])"
  by (simp add: arr_set_def)

lemma arr_get_out [simp]: "i < 0 \<or> int (length xs) \<le> i \<Longrightarrow> arr_get xs i = None"
  by (auto simp: arr_get_def)

lemma arr_set_out [simp]: "i < 0 \<or> int (length xs) \<le> i \<Longrightarrow> arr_set xs i v = None"
  by (auto simp: arr_set_def)

lemma arr_set_SomeD: "arr_set xs i v = Some ys \<Longrightarrow> 0 \<le> i \<and> i < int (length xs) \<and> ys = xs[nat i := v]"
  by (auto simp: arr_set_def split: if_splits)

text \<open>An array as a function that is 0 outside it.\<close>

definition view :: "'a::zero list \<Rightarrow> int \<Rightarrow> 'a" where
  "view xs i = (case arr_get xs i of Some v \<Rightarrow> v | None \<Rightarrow> 0)"

lemma view_get: "arr_get xs i = Some v \<Longrightarrow> view xs i = v"
  by (simp add: view_def)

lemma view_set: "arr_set xs i v = Some ys \<Longrightarrow> view ys = (view xs)(i := v)"
  by (auto dest!: arr_set_SomeD simp: view_def fun_eq_iff arr_get_def nth_list_update split: if_splits)

lemma view_replicate: "view (replicate k 0) = (\<lambda>_. 0)"
  by (auto simp: view_def arr_get_def fun_eq_iff)

section \<open>Output\<close>

text \<open>The conversion \<open>%d\<close>.\<close>

fun dec_nat :: "nat \<Rightarrow> string" where
  "dec_nat n = (if n < 10 then [char_of (48 + n)] else dec_nat (n div 10) @ [char_of (48 + n mod 10)])"

declare dec_nat.simps [simp del]

definition dec_int :: "int \<Rightarrow> string" where
  "dec_int i = (if i < 0 then ''-'' @ dec_nat (nat (- i)) else dec_nat (nat i))"

section \<open>Counting\<close>

text \<open>The number of threads in a list that satisfy a predicate, and its change when one thread moves.\<close>

definition count_if :: "('a \<Rightarrow> bool) \<Rightarrow> 'a list \<Rightarrow> nat" where
  "count_if P xs = length (filter P xs)"

lemma count_if_append [simp]: "count_if P (xs @ ys) = count_if P xs + count_if P ys"
  by (simp add: count_if_def)

lemma count_if_simps [simp]: "count_if P [] = 0" "count_if P (x # xs) = of_bool (P x) + count_if P xs"
  by (simp_all add: count_if_def)

lemma count_if_update:
  "k < length xs \<Longrightarrow> count_if P (xs[k := x]) + of_bool (P (xs ! k)) = count_if P xs + of_bool (P x)"
proof (induction xs arbitrary: k)
  case (Cons y ys)
  then show ?case by (cases k) auto
qed simp

lemma count_if_pos: "k < length xs \<Longrightarrow> P (xs ! k) \<Longrightarrow> 0 < count_if P xs"
  by (auto simp: count_if_def filter_empty_conv)

lemma count_if_two:
  assumes "i < length xs" "j < length xs" "i \<noteq> j" "P (xs ! i)" "P (xs ! j)"
  shows "2 \<le> count_if P xs"
proof -
  have "{i, j} \<subseteq> {k. k < length xs \<and> P (xs ! k)}" using assms by auto
  then have "card {i, j} \<le> card {k. k < length xs \<and> P (xs ! k)}" by (intro card_mono) auto
  with assms(3) show ?thesis by (simp add: count_if_def length_filter_conv_card)
qed

section \<open>Loops\<close>

text \<open>The loop that runs a fallible body for each element of a list.\<close>

fun each :: "('a \<Rightarrow> 's \<Rightarrow> 's option) \<Rightarrow> 'a list \<Rightarrow> 's \<Rightarrow> 's option" where
  "each f [] s = Some s"
| "each f (x # xs) s = Option.bind (f x s) (each f xs)"

lemma each_append: "each f (xs @ ys) s = Option.bind (each f xs s) (each f ys)"
  by (induction xs arbitrary: s) (auto simp: bind_assoc cong: Option.bind_cong)

text \<open>The interface between operations on a detailed state and partial operations on an abstract one: whatever the
  abstract operation allows, the detailed one does. It carries over to series of operations.\<close>

locale op_refinement =
  fixes exec :: "'op \<Rightarrow> 's \<Rightarrow> 's option"
    and spec :: "'op \<Rightarrow> 'a \<Rightarrow> 'a option"
    and rep :: "'s \<Rightarrow> 'a \<Rightarrow> bool"
  assumes exec_ok: "rep s a \<Longrightarrow> spec op a = Some a' \<Longrightarrow> \<exists>s'. exec op s = Some s' \<and> rep s' a'"
begin

lemma each_refines: "rep s a \<Longrightarrow> each spec ops a = Some a' \<Longrightarrow> \<exists>s'. each exec ops s = Some s' \<and> rep s' a'"
proof (induction ops arbitrary: s a)
  case Nil
  then show ?case by simp
next
  case (Cons op ops)
  then obtain b where b: "spec op a = Some b" "each spec ops b = Some a'" by (auto simp: bind_eq_Some_conv)
  from exec_ok [OF Cons.prems(1) b(1)] obtain t where t: "exec op s = Some t" "rep t b" by blast
  from Cons.IH [OF t(2) b(2)] t(1) show ?case by auto
qed

end

section \<open>Sums over threads\<close>

lemma fun_upd_eq_iff: "f(a := x) = f(a := y) \<longleftrightarrow> x = y"
  by (metis fun_upd_same)

text \<open>A program with a fixed set of threads is counted by sums over them; a step changes one summand.\<close>

lemma sum_upd:
  fixes g :: "'t \<Rightarrow> 'l \<Rightarrow> 'b::comm_monoid_add"
  assumes "finite A" "a \<in> A"
  shows "(\<Sum>t \<in> A. g t ((h(a := x)) t)) + g a (h a) = (\<Sum>t \<in> A. g t (h t)) + g a x"
proof -
  have "(\<Sum>t \<in> A - {a}. g t ((h(a := x)) t)) = (\<Sum>t \<in> A - {a}. g t (h t))"
    by (rule sum.cong) auto
  with sum.remove [OF assms, of "\<lambda>t. g t ((h(a := x)) t)"] sum.remove [OF assms, of "\<lambda>t. g t (h t)"]
  show ?thesis by (simp add: ac_simps)
qed

lemma sum_upd_le:
  fixes g :: "'t \<Rightarrow> 'l \<Rightarrow> nat"
  assumes "finite A" "a \<in> A"
  shows "g a (h a) \<le> (\<Sum>t \<in> A. g t (h t))"
  using assms by (simp add: sum.remove)

lemma sum_two_le:
  fixes g :: "'t \<Rightarrow> nat"
  assumes "finite A" "a \<in> A" "b \<in> A" "a \<noteq> b"
  shows "g a + g b \<le> (\<Sum>t \<in> A. g t)"
proof -
  have "(\<Sum>t \<in> {a, b}. g t) \<le> (\<Sum>t \<in> A. g t)"
    using assms by (intro sum_mono2) auto
  with assms(4) show ?thesis by simp
qed

section \<open>Transition systems\<close>

text \<open>States reachable from an initial state, for any step relation.\<close>

inductive reachable :: "('s \<Rightarrow> bool) \<Rightarrow> ('s \<Rightarrow> 's \<Rightarrow> bool) \<Rightarrow> 's \<Rightarrow> bool"
  for start :: "'s \<Rightarrow> bool" and step :: "'s \<Rightarrow> 's \<Rightarrow> bool" where
  reach_start: "start s \<Longrightarrow> reachable start step s"
| reach_step: "reachable start step s \<Longrightarrow> step s s' \<Longrightarrow> reachable start step s'"

text \<open>
  A program of several threads is a function that takes the moving thread (and whatever the
  environment supplies to it) and the state; \<open>None\<close> means that the thread cannot move. A
  schedule is a list of such moves.
\<close>

definition moves :: "('t \<Rightarrow> 's \<Rightarrow> 's option) \<Rightarrow> 's \<Rightarrow> 's \<Rightarrow> bool" where
  "moves f s s' \<longleftrightarrow> (\<exists>t. f t s = Some s')"

fun run_schedule :: "('t \<Rightarrow> 's \<Rightarrow> 's option) \<Rightarrow> 't list \<Rightarrow> 's \<Rightarrow> 's option" where
  "run_schedule f [] s = Some s"
| "run_schedule f (t # ts) s = (case f t s of None \<Rightarrow> None | Some s' \<Rightarrow> run_schedule f ts s')"

lemma run_schedule_append:
  "run_schedule f (ts @ us) s = Option.bind (run_schedule f ts s) (run_schedule f us)"
  by (induction ts arbitrary: s) (auto split: option.splits)

lemma run_schedule_reachable:
  "reachable start (moves f) s \<Longrightarrow> run_schedule f ts s = Some s' \<Longrightarrow> reachable start (moves f) s'"
proof (induction ts arbitrary: s)
  case Nil
  then show ?case by simp
next
  case (Cons t ts)
  then obtain u where u: "f t s = Some u" "run_schedule f ts u = Some s'"
    by (auto split: option.splits)
  from u(1) have "moves f s u" by (auto simp: moves_def)
  with Cons.prems(1) have "reachable start (moves f) u" by (rule reach_step)
  then show ?case using u(2) by (rule Cons.IH)
qed

text \<open>The interface between a program and its safety argument: an invariant that the start states
  satisfy and every step keeps holds in every reachable state.\<close>

locale inductive_invariant =
  fixes start :: "'s \<Rightarrow> bool"
    and step :: "'s \<Rightarrow> 's \<Rightarrow> bool"
    and inv :: "'s \<Rightarrow> bool"
  assumes inv_start: "start s \<Longrightarrow> inv s"
    and inv_step: "step s s' \<Longrightarrow> inv s \<Longrightarrow> inv s'"
begin

lemma reachable_inv: "reachable start step s \<Longrightarrow> inv s"
proof (induction rule: reachable.induct)
  case (reach_start s)
  then show ?case by (rule inv_start)
next
  case (reach_step s s')
  then show ?case by (blast intro: inv_step)
qed

lemma reachable_stepD: "reachable start step s \<Longrightarrow> step s s' \<Longrightarrow> inv s'"
  by (blast intro: reachable_inv reach_step)

end

text \<open>An invariant together with a measure that every step decreases bounds the length of every
  execution.\<close>

locale terminating_system = inductive_invariant +
  fixes rank :: "'a \<Rightarrow> nat"
  assumes rank_step: "step s s' \<Longrightarrow> inv s \<Longrightarrow> rank s' < rank s"
begin

lemma relpowp_rank: "(step ^^ n) s s' \<Longrightarrow> inv s \<Longrightarrow> inv s' \<and> rank s' + n \<le> rank s"
proof (induction n arbitrary: s')
  case 0
  then show ?case by simp
next
  case (Suc n)
  then obtain u where "(step ^^ n) s u" "step u s'" by auto
  with Suc.IH Suc.prems(2) have "inv u" "rank u + n \<le> rank s" by auto
  moreover from \<open>step u s'\<close> this(1) have "inv s'" "rank s' < rank u"
    by (auto intro: inv_step rank_step)
  ultimately show ?case by simp
qed

lemma bounded_executions: "start s \<Longrightarrow> (step ^^ n) s s' \<Longrightarrow> n \<le> rank s"
  using relpowp_rank [of n s s'] inv_start [of s] by simp

text \<open>So from every state some execution comes to a state with no further step.\<close>

lemma runs_to_end: "inv s \<Longrightarrow> \<exists>n s'. (step ^^ n) s s' \<and> inv s' \<and> (\<nexists>s''. step s' s'')"
proof (induction "rank s" arbitrary: s rule: less_induct)
  case less
  show ?case
  proof (cases "\<exists>u. step s u")
    case True
    then obtain u where u: "step s u" by blast
    with less obtain n s' where "(step ^^ n) u s'" "inv s'" "\<nexists>s''. step s' s''"
      by (meson inv_step rank_step)
    moreover from u this(1) have "(step ^^ Suc n) s s'" by (rule relpowp_Suc_I2)
    ultimately show ?thesis by blast
  next
    case False
    with less.prems have "(step ^^ 0) s s \<and> inv s \<and> (\<nexists>s''. step s s'')" by simp
    then show ?thesis by blast
  qed
qed

end

section \<open>Bounded stacks\<close>

text \<open>
  Two programs of the repository keep a stack in an array with an index: the character device of
  \<open>hw1\<close> and the shared buffer of the producer and consumer of \<open>hw2\<close>. The interface:
  the contents as a list, newest first; a push below the capacity and a pop of a non-empty stack
  succeed, without an access out of range, and act on the contents as on a list.
\<close>

fun push_all :: "('v \<Rightarrow> 's \<Rightarrow> 's option) \<Rightarrow> 'v list \<Rightarrow> 's \<Rightarrow> 's option" where
  "push_all push [] s = Some s"
| "push_all push (v # vs) s = Option.bind (push v s) (push_all push vs)"

fun pop_all :: "('s \<Rightarrow> ('v \<times> 's) option) \<Rightarrow> nat \<Rightarrow> 's \<Rightarrow> ('v list \<times> 's) option" where
  "pop_all pop 0 s = Some ([], s)"
| "pop_all pop (Suc n) s =
     Option.bind (pop s) (\<lambda>(v, s'). map_option (apfst (Cons v)) (pop_all pop n s'))"

locale bounded_stack =
  fixes cap :: nat
    and invar :: "'s \<Rightarrow> bool"
    and items :: "'s \<Rightarrow> 'v list"
    and push :: "'v \<Rightarrow> 's \<Rightarrow> 's option"
    and pop :: "'s \<Rightarrow> ('v \<times> 's) option"
  assumes items_cap: "invar s \<Longrightarrow> length (items s) \<le> cap"
    and push_ok: "invar s \<Longrightarrow> length (items s) < cap \<Longrightarrow>
      \<exists>s'. push v s = Some s' \<and> invar s' \<and> items s' = v # items s"
    and pop_ok: "invar s \<Longrightarrow> items s = v # vs \<Longrightarrow>
      \<exists>s'. pop s = Some (v, s') \<and> invar s' \<and> items s' = vs"
begin

lemma push_pop:
  assumes "invar s" "length (items s) < cap"
  shows "\<exists>s' s''. push v s = Some s' \<and> pop s' = Some (v, s'') \<and> invar s'' \<and> items s'' = items s"
proof -
  from push_ok [OF assms] obtain s' where s': "push v s = Some s'" "invar s'" "items s' = v # items s"
    by blast
  from pop_ok [OF s'(2,3)] s'(1) show ?thesis by blast
qed

lemma push_all_items:
  "invar s \<Longrightarrow> length (items s) + length vs \<le> cap \<Longrightarrow>
   \<exists>s'. push_all push vs s = Some s' \<and> invar s' \<and> items s' = rev vs @ items s"
proof (induction vs arbitrary: s)
  case Nil
  then show ?case by simp
next
  case (Cons v vs)
  then have "length (items s) < cap" by simp
  from push_ok [OF Cons.prems(1) this] obtain s' where
    s': "push v s = Some s'" "invar s'" "items s' = v # items s" by blast
  with Cons.IH [of s'] Cons.prems(2) show ?case by auto
qed

lemma pop_all_items:
  "invar s \<Longrightarrow> n \<le> length (items s) \<Longrightarrow>
   \<exists>s'. pop_all pop n s = Some (take n (items s), s') \<and> invar s' \<and> items s' = drop n (items s)"
proof (induction n arbitrary: s)
  case 0
  then show ?case by simp
next
  case (Suc n)
  then obtain v vs where vs: "items s = v # vs" by (cases "items s") auto
  from pop_ok [OF Suc.prems(1) vs] obtain s' where
    s': "pop s = Some (v, s')" "invar s'" "items s' = vs" by blast
  with Suc.IH [of s'] Suc.prems(2) vs show ?case by auto
qed

text \<open>Last in, first out: what is popped is what was pushed, reversed, and the rest is untouched.\<close>

lemma lifo:
  assumes "invar s" "length (items s) + length vs \<le> cap"
  shows "\<exists>s' s''. push_all push vs s = Some s' \<and> pop_all pop (length vs) s' = Some (rev vs, s'')
    \<and> invar s'' \<and> items s'' = items s"
proof -
  from push_all_items [OF assms] obtain s' where
    s': "push_all push vs s = Some s'" "invar s'" "items s' = rev vs @ items s" by blast
  with pop_all_items [of s' "length vs"] show ?thesis by auto
qed

end

section \<open>Servers\<close>

text \<open>
  A device that serves requests one after the other: every request returns, with the result that the abstract
  operation prescribes, and leaves a state that represents the new abstract state, as long as there is
  room for it (a counter of the device may be limited).
\<close>

fun serve_all :: "('r \<Rightarrow> 's \<Rightarrow> ('o \<times> 's) option) \<Rightarrow> 'r list \<Rightarrow> 's \<Rightarrow> ('o list \<times> 's) option" where
  "serve_all serve [] s = Some ([], s)"
| "serve_all serve (r # rs) s =
     Option.bind (serve r s) (\<lambda>(out, s'). map_option (apfst (Cons out)) (serve_all serve rs s'))"

fun spec_all :: "('r \<Rightarrow> 'a \<Rightarrow> 'o \<times> 'a) \<Rightarrow> 'r list \<Rightarrow> 'a \<Rightarrow> 'o list \<times> 'a" where
  "spec_all spec [] a = ([], a)"
| "spec_all spec (r # rs) a = apfst (Cons (fst (spec r a))) (spec_all spec rs (snd (spec r a)))"

locale served_requests =
  fixes serve :: "'r \<Rightarrow> 's \<Rightarrow> ('o \<times> 's) option"
    and spec :: "'r \<Rightarrow> 'a \<Rightarrow> 'o \<times> 'a"
    and rep :: "'s \<Rightarrow> 'a \<Rightarrow> bool"
    and room :: "nat \<Rightarrow> 'a \<Rightarrow> bool"
  assumes serve_ok: "rep s a \<Longrightarrow> room (Suc n) a \<Longrightarrow> \<exists>s'. serve r s = Some (fst (spec r a), s') \<and> rep s' (snd (spec r a))"
    and room_ok: "room (Suc n) a \<Longrightarrow> room n (snd (spec r a))"
begin

lemma serve_all_ok:
  "rep s a \<Longrightarrow> room (length rs) a \<Longrightarrow>
   \<exists>s'. serve_all serve rs s = Some (fst (spec_all spec rs a), s') \<and> rep s' (snd (spec_all spec rs a))"
proof (induction rs arbitrary: s a)
  case Nil
  then show ?case by simp
next
  case (Cons r rs)
  then have room: "room (Suc (length rs)) a" by simp
  from serve_ok [OF Cons.prems(1) room, of r] obtain s1 where
    s1: "serve r s = Some (fst (spec r a), s1)" "rep s1 (snd (spec r a))" by blast
  from Cons.IH [OF s1(2) room_ok [OF room]] s1(1) show ?case by auto
qed

end

end
