(* ===== verification/Hw1Driver.thy ===== *)
theory Hw1Driver
  imports Prelude
begin

text \<open>
  The character device of \<open>src/hw1/hw1_driver.c\<close>: a stack of at most 256 integers in a static
  array, protected by one kernel mutex, reached through \<open>read\<close> (pop), \<open>write\<close> (push) and
  \<open>ioctl\<close> (clean), and its three user programs \<open>provider.c\<close>, \<open>consumer.c\<close> and \<open>cleaner.c\<close>.
  The driver refines a bounded stack, every operation stays inside the array and releases the
  mutex, and with the values the provider writes the consumer's reading of the result is exact.
\<close>

section \<open>State\<close>

datatype command = PUSH | POP | CLEAN

record hw1_state =
  stack :: "int list"
  stackpointer :: int
  my_mutex :: bool  \<comment> \<open>True while the mutex is held\<close>

definition stack_error :: int where
  "stack_error = 0x7fffffff"

definition hw1_boot :: hw1_state where
  "hw1_boot = \<lparr>stack = replicate 257 0, stackpointer = -1, my_mutex = False\<rparr>"

definition stack_empty :: "hw1_state \<Rightarrow> bool" where
  "stack_empty s = (if stackpointer s = -1 then True else False)"

definition stack_size :: "hw1_state \<Rightarrow> int" where
  "stack_size s = stackpointer s + 1"

definition stack_full :: "hw1_state \<Rightarrow> bool" where
  "stack_full s = (if stackpointer s = 255 then True else False)"

section \<open>Operations\<close>

text \<open>
  The result is an \<open>int option\<close>: the \<open>CLEAN\<close> branch returns the variable \<open>r\<close> that nothing has
  assigned, an indeterminate value, which is \<open>None\<close> here.
\<close>

definition modifyStack :: "command \<Rightarrow> int \<Rightarrow> hw1_state \<Rightarrow> (int option \<times> hw1_state) option" where
  "modifyStack type v s =
     (case type of
        PUSH \<Rightarrow>
          if \<not> stack_full s then do {
            let s1 = s\<lparr>stackpointer := stackpointer s + 1\<rparr>;
            a \<leftarrow> arr_set (stack s1) (stackpointer s1) v;
            let s2 = s1\<lparr>stack := a\<rparr>;
            Some (Some (stack_size s2), s2)
          } else Some (Some stack_error, s)
      | POP \<Rightarrow>
          if \<not> stack_empty s then do {
            r \<leftarrow> arr_get (stack s) (stackpointer s);
            Some (Some r, s\<lparr>stackpointer := stackpointer s - 1\<rparr>)
          } else Some (Some stack_error, s)
      | CLEAN \<Rightarrow> Some (None, s\<lparr>stackpointer := -1\<rparr>))"

text \<open>A lock that is already held blocks the caller: no result.\<close>

definition mutex_lock :: "hw1_state \<Rightarrow> hw1_state option" where
  "mutex_lock s = (if my_mutex s then None else Some (s\<lparr>my_mutex := True\<rparr>))"

definition mutex_unlock :: "hw1_state \<Rightarrow> hw1_state" where
  "mutex_unlock s = s\<lparr>my_mutex := False\<rparr>"

definition stack_push :: "int \<Rightarrow> hw1_state \<Rightarrow> (int option \<times> hw1_state) option" where
  "stack_push v s = do {
     s1 \<leftarrow> mutex_lock s;
     (r, s2) \<leftarrow> modifyStack PUSH v s1;
     Some (r, mutex_unlock s2)
   }"

definition stack_pop :: "hw1_state \<Rightarrow> (int option \<times> hw1_state) option" where
  "stack_pop s = do {
     s1 \<leftarrow> mutex_lock s;
     (r, s2) \<leftarrow> modifyStack POP 0 s1;
     Some (r, mutex_unlock s2)
   }"

definition hw1_read :: "hw1_state \<Rightarrow> (int option \<times> hw1_state) option" where
  "hw1_read s = do {
     (k, s1) \<leftarrow> stack_pop s;
     Some (if k = Some stack_error then Some (-1) else k, s1)
   }"

text \<open>The byte written is a C \<open>char\<close>, read as a signed 8-bit value.\<close>

definition hw1_write :: "8 word list \<Rightarrow> hw1_state \<Rightarrow> (int option \<times> hw1_state) option" where
  "hw1_write buffer s = do {
     b \<leftarrow> arr_get buffer 0;
     stack_push (sint b) s
   }"

definition hw1_ioctl :: "32 word \<Rightarrow> hw1_state \<Rightarrow> (int option \<times> hw1_state) option" where
  "hw1_ioctl cmd s =
     (if cmd = 0 then do {
        s1 \<leftarrow> mutex_lock s;
        (r, s2) \<leftarrow> modifyStack CLEAN 0 s1;
        Some (Some 0, mutex_unlock s2)
      } else Some (Some 0, s))"

text \<open>Loading and unloading: the calls into the kernel, in order. The result of
  \<open>register_chrdev_region\<close> is stored and never looked at.\<close>

datatype kernel_call =
    MutexInit
  | RegisterChrdevRegion nat nat string
  | CdevInit
  | CdevAdd nat nat
  | CdevDel

definition HW1_DRIVER_MAJOR_NUMBER :: nat where
  "HW1_DRIVER_MAJOR_NUMBER = 250"

definition hw1_init :: "hw1_state \<Rightarrow> kernel_call list \<times> int \<times> hw1_state" where
  "hw1_init s =
     ([MutexInit,
       RegisterChrdevRegion HW1_DRIVER_MAJOR_NUMBER 1 ''JUSTICERAINSFROMABOVE'',
       CdevInit,
       CdevAdd HW1_DRIVER_MAJOR_NUMBER 128], 0, s\<lparr>my_mutex := False\<rparr>)"

definition hw1_exit :: "hw1_state \<Rightarrow> kernel_call list \<times> hw1_state" where
  "hw1_exit s = ([CdevDel], s)"

section \<open>User programs\<close>

text \<open>One iteration of each endless loop. \<open>rnd\<close> is the value \<open>rand()\<close> returns and \<open>now\<close> the
  value \<open>time(0)\<close> returns, both non-negative. The kernel hands the driver's result to the program
  unchanged when it is not a negative error number.\<close>

datatype message =
    ProviderFull
  | ProviderPushed int int
  | ConsumerEmpty
  | ConsumerPopped int
  | CleanerClean

definition provider_value :: "nat \<Rightarrow> nat \<Rightarrow> int" where
  "provider_value rnd now =
     (let r = 60000 + int rnd mod 250000; p = int now mod r in p mod 127)"

definition provider_iteration :: "nat \<Rightarrow> nat \<Rightarrow> hw1_state \<Rightarrow> (message option \<times> hw1_state) option" where
  "provider_iteration rnd now s = do {
     let p = provider_value rnd now;
     let buf = (replicate 20 0)[0 := word_of_int p];
     (r, s1) \<leftarrow> hw1_write buf s;
     Some (map_option (\<lambda>k. if k = stack_error then ProviderFull else ProviderPushed p k) r, s1)
   }"

definition consumer_iteration :: "hw1_state \<Rightarrow> (message option \<times> hw1_state) option" where
  "consumer_iteration s = do {
     (r, s1) \<leftarrow> hw1_read s;
     Some (map_option (\<lambda>f. if f = -1 then ConsumerEmpty else ConsumerPopped f) r, s1)
   }"

definition cleaner_iteration :: "nat \<Rightarrow> hw1_state \<Rightarrow> (message option \<times> hw1_state) option" where
  "cleaner_iteration rnd s =
     (if 1 + rnd mod 5 = 2 then do {
        (r, s1) \<leftarrow> hw1_ioctl 0 s;
        Some (Some CleanerClean, s1)
      } else Some (None, s))"

section \<open>Invariant and abstraction\<close>

definition hw1_inv :: "hw1_state \<Rightarrow> bool" where
  "hw1_inv s \<longleftrightarrow> length (stack s) = 257 \<and> -1 \<le> stackpointer s \<and> stackpointer s \<le> 255"

definition hw1_idle :: "hw1_state \<Rightarrow> bool" where
  "hw1_idle s \<longleftrightarrow> hw1_inv s \<and> \<not> my_mutex s"

definition stack_items :: "hw1_state \<Rightarrow> int list" where
  "stack_items s = rev (take (nat (stackpointer s + 1)) (stack s))"

lemmas hw1_defs [state_simps] = hw1_inv_def hw1_idle_def stack_empty_def stack_size_def
  stack_full_def mutex_lock_def mutex_unlock_def modifyStack_def

lemma length_stack_items: "hw1_inv s \<Longrightarrow> length (stack_items s) = nat (stackpointer s + 1)"
  by (auto simp: stack_items_def hw1_inv_def)

lemma stack_items_empty: "hw1_inv s \<Longrightarrow> stack_items s = [] \<longleftrightarrow> stackpointer s = -1"
  using length_stack_items [of s] by (auto simp: hw1_inv_def)

lemma stack_items_full: "hw1_inv s \<Longrightarrow> length (stack_items s) < 256 \<longleftrightarrow> stackpointer s \<noteq> 255"
  using length_stack_items [of s] by (auto simp: hw1_inv_def)

lemma take_Suc_update: "n < length xs \<Longrightarrow> rev (take (Suc n) (xs[n := v])) = v # rev (take n xs)"
  by (simp add: take_Suc_conv_app_nth)

lemma stack_items_mutex [simp]: "stack_items (s\<lparr>my_mutex := b\<rparr>) = stack_items s"
  by (simp add: stack_items_def)

lemma stack_push_ok:
  assumes "hw1_idle s" "length (stack_items s) < 256"
  shows "\<exists>s'. stack_push v s = Some (Some (int (length (stack_items s')) ), s') \<and> hw1_idle s'
    \<and> stack_items s' = v # stack_items s \<and> set (stack s') \<subseteq> insert v (set (stack s))"
proof -
  let ?n = "nat (stackpointer s + 1)"
  let ?s' = "s\<lparr>stackpointer := stackpointer s + 1, stack := (stack s)[?n := v], my_mutex := False\<rparr>"
  from assms have inv: "hw1_inv s" "\<not> my_mutex s" by (auto simp: hw1_idle_def)
  with assms have sp: "stackpointer s \<noteq> 255" by (simp add: stack_items_full)
  from inv(1) sp have idle: "hw1_idle ?s'" by (auto simp: hw1_inv_def hw1_idle_def)
  have "nat (stackpointer s + 1 + 1) = Suc ?n" using inv(1) by (auto simp: hw1_inv_def)
  then have items: "stack_items ?s' = v # stack_items s"
    using inv(1) sp take_Suc_update [of ?n "stack s" v] by (auto simp: hw1_inv_def stack_items_def)
  have "stack_push v s = Some (Some (stackpointer s + 2), ?s')"
    using inv sp by (auto simp: stack_push_def state_simps)
  moreover have "int (length (stack_items ?s')) = stackpointer s + 2"
    using length_stack_items [of ?s'] idle inv(1) by (auto simp: hw1_idle_def hw1_inv_def)
  ultimately show ?thesis using idle items
    by (intro exI [of _ ?s']) (auto dest: set_update_subset_insert [THEN subsetD])
qed

lemma stack_push_full:
  "hw1_idle s \<Longrightarrow> length (stack_items s) = 256 \<Longrightarrow> stack_push v s = Some (Some stack_error, s)"
  using stack_items_full [of s] by (auto simp: stack_push_def state_simps)

lemma stack_pop_ok:
  assumes "hw1_idle s" "stack_items s = v # vs"
  shows "\<exists>s'. stack_pop s = Some (Some v, s') \<and> hw1_idle s' \<and> stack_items s' = vs \<and> stack s' = stack s"
proof -
  let ?s' = "s\<lparr>stackpointer := stackpointer s - 1, my_mutex := False\<rparr>"
  from assms have inv: "hw1_inv s" "\<not> my_mutex s" by (auto simp: hw1_idle_def)
  with assms(2) have sp: "stackpointer s \<noteq> -1" using stack_items_empty [of s] by auto
  define k where "k = nat (stackpointer s)"
  with inv(1) sp have k: "k < length (stack s)" "stackpointer s = int k" by (auto simp: hw1_inv_def)
  then have "nat (stackpointer s + 1) = Suc k" by auto
  then have items: "v = stack s ! k" "vs = stack_items ?s'"
    using assms(2) k by (auto simp: stack_items_def take_Suc_conv_app_nth)
  have "hw1_idle ?s'" using inv(1) sp by (auto simp: hw1_inv_def hw1_idle_def)
  moreover have "stack_pop s = Some (Some v, ?s')"
    using inv sp k items(1) by (auto simp: stack_pop_def state_simps)
  ultimately show ?thesis using items(2) by auto
qed

lemma stack_pop_empty: "hw1_idle s \<Longrightarrow> stack_items s = [] \<Longrightarrow> stack_pop s = Some (Some stack_error, s)"
  using stack_items_empty [of s] by (auto simp: stack_pop_def state_simps)

text \<open>The driver's push and pop, as the bounded-stack interface has them.\<close>

definition hw1_push_op :: "int \<Rightarrow> hw1_state \<Rightarrow> hw1_state option" where
  "hw1_push_op v s = map_option snd (stack_push v s)"

definition hw1_pop_op :: "hw1_state \<Rightarrow> (int \<times> hw1_state) option" where
  "hw1_pop_op s = do {
     (r, s1) \<leftarrow> stack_pop s;
     v \<leftarrow> r;
     Some (v, s1)
   }"

interpretation hw1: bounded_stack 256 hw1_idle stack_items hw1_push_op hw1_pop_op
proof unfold_locales
  fix s v vs
  show "length (stack_items s) \<le> 256" if "hw1_idle s"
    using that length_stack_items [of s] by (auto simp: hw1_idle_def hw1_inv_def)
  show "\<exists>s'. hw1_push_op v s = Some s' \<and> hw1_idle s' \<and> stack_items s' = v # stack_items s"
    if "hw1_idle s" "length (stack_items s) < 256"
    using stack_push_ok [OF that, of v] by (auto simp: hw1_push_op_def)
  show "\<exists>s'. hw1_pop_op s = Some (v, s') \<and> hw1_idle s' \<and> stack_items s' = vs"
    if "hw1_idle s" "stack_items s = v # vs"
    using stack_pop_ok [OF that] by (auto simp: hw1_pop_op_def)
qed

section \<open>The device as a stack of bytes\<close>

text \<open>A sequence of requests to the open device and the abstract answer: a list of at most 256
  values, newest first.\<close>

datatype request = Read | Write "8 word list" | Ioctl "32 word"

fun hw1_request :: "request \<Rightarrow> hw1_state \<Rightarrow> (int option \<times> hw1_state) option" where
  "hw1_request Read s = hw1_read s"
| "hw1_request (Write buffer) s = hw1_write buffer s"
| "hw1_request (Ioctl cmd) s = hw1_ioctl cmd s"

fun hw1_requests :: "request list \<Rightarrow> hw1_state \<Rightarrow> (int option list \<times> hw1_state) option" where
  "hw1_requests [] s = Some ([], s)"
| "hw1_requests (q # qs) s = do {
     (r, s1) \<leftarrow> hw1_request q s;
     (rs, s2) \<leftarrow> hw1_requests qs s1;
     Some (r # rs, s2)
   }"

fun spec_request :: "request \<Rightarrow> int list \<Rightarrow> int \<times> int list" where
  "spec_request Read [] = (-1, [])"
| "spec_request Read (v # vs) = (v, vs)"
| "spec_request (Write buffer) vs =
     (if length vs < 256 then (int (length vs) + 1, sint (hd buffer) # vs) else (0x7fffffff, vs))"
| "spec_request (Ioctl cmd) vs = (0, if cmd = 0 then [] else vs)"

fun spec_requests :: "request list \<Rightarrow> int list \<Rightarrow> int list \<times> int list" where
  "spec_requests [] vs = ([], vs)"
| "spec_requests (q # qs) vs =
     (let (r, vs1) = spec_request q vs; (rs, vs2) = spec_requests qs vs1 in (r # rs, vs2))"

fun well_formed :: "request \<Rightarrow> bool" where
  "well_formed (Write buffer) = (buffer \<noteq> [])"
| "well_formed _ = True"

definition hw1_bytes :: "hw1_state \<Rightarrow> bool" where
  "hw1_bytes s \<longleftrightarrow> hw1_idle s \<and> (\<forall>v \<in> set (stack s). -128 \<le> v \<and> v \<le> 127)"

lemma hw1_bytes_boot: "hw1_bytes hw1_boot"
  by (simp add: hw1_bytes_def hw1_boot_def hw1_idle_def hw1_inv_def)

lemma sint_byte: "-128 \<le> sint (b :: 8 word) \<and> sint b \<le> 127"
  using sint_range_size [of b] by (simp add: size_word.rep_eq)

lemma hw1_write_eq: "buffer \<noteq> [] \<Longrightarrow> hw1_write buffer s = stack_push (sint (hd buffer)) s"
  by (simp add: hw1_write_def hd_conv_nth)

lemma set_stack_items: "set (stack_items s) \<subseteq> set (stack s)"
  by (auto simp: stack_items_def dest: in_set_takeD)

lemma hw1_request_refines:
  assumes "hw1_bytes s" "well_formed q"
  shows "\<exists>s'. hw1_request q s = Some (Some (fst (spec_request q (stack_items s))), s')
    \<and> hw1_bytes s' \<and> stack_items s' = snd (spec_request q (stack_items s))"
proof (cases q)
  case Read
  show ?thesis
  proof (cases "stack_items s")
    case Nil
    with Read assms show ?thesis
      by (auto simp: hw1_read_def hw1_bytes_def stack_pop_empty)
  next
    case (Cons v vs)
    with assms obtain s' where "stack_pop s = Some (Some v, s')" "hw1_idle s'" "stack_items s' = vs"
      "stack s' = stack s" using stack_pop_ok [of s v vs] by (auto simp: hw1_bytes_def)
    moreover from Cons set_stack_items [of s] assms(1) have "v \<le> 127" by (auto simp: hw1_bytes_def)
    ultimately show ?thesis using Read Cons assms
      by (auto simp: hw1_read_def hw1_bytes_def stack_error_def)
  qed
next
  case (Write buffer)
  show ?thesis
  proof (cases "length (stack_items s) < 256")
    case True
    with assms stack_push_ok [of s "sint (hd buffer)"] obtain s' where
      "stack_push (sint (hd buffer)) s = Some (Some (int (length (stack_items s'))), s')"
      "hw1_idle s'" "stack_items s' = sint (hd buffer) # stack_items s"
      "set (stack s') \<subseteq> insert (sint (hd buffer)) (set (stack s))" by (auto simp: hw1_bytes_def)
    with Write True assms sint_byte [of "hd buffer"] show ?thesis
      by (auto simp: hw1_write_eq hw1_bytes_def)
  next
    case False
    with assms hw1.items_cap [of s] have "length (stack_items s) = 256" by (auto simp: hw1_bytes_def)
    with Write assms show ?thesis
      by (auto simp: hw1_write_eq hw1_bytes_def stack_push_full stack_error_def)
  qed
next
  case (Ioctl cmd)
  with assms show ?thesis
    by (auto simp: hw1_ioctl_def hw1_bytes_def stack_items_def state_simps)
qed

text \<open>C4. The driver refines a bounded stack of signed bytes: any sequence of read, write and
  ioctl requests on an idle device returns, without an access out of the array and without
  blocking, exactly the results of the list model (a pop yields the newest value or -1, a push the
  new size or 0x7fffffff when 256 values are held, an ioctl 0), and leaves the device idle with the
  contents of the list model.\<close>

theorem hw1_requests_refine:
  assumes "hw1_bytes s" "list_all well_formed qs"
  shows "\<exists>s'. hw1_requests qs s = Some (map Some (fst (spec_requests qs (stack_items s))), s')
    \<and> hw1_bytes s' \<and> stack_items s' = snd (spec_requests qs (stack_items s))"
  using assms
proof (induction qs arbitrary: s)
  case Nil
  then show ?case by simp
next
  case (Cons q qs)
  then obtain s1 where s1: "hw1_request q s = Some (Some (fst (spec_request q (stack_items s))), s1)"
    "hw1_bytes s1" "stack_items s1 = snd (spec_request q (stack_items s))"
    using hw1_request_refines [of s q] by auto
  from Cons.IH [OF s1(2)] Cons.prems(2) s1 show ?case
    by (auto simp: Let_def split: prod.splits)
qed

theorem hw1_requests_refine_witness:
  "hw1_bytes hw1_boot \<and> list_all well_formed [Write [5], Write [255], Read, Read, Read] \<and>
   (\<exists>s'. hw1_requests [Write [5], Write [255], Read, Read, Read] hw1_boot
      = Some ([Some 1, Some 2, Some (-1), Some 5, Some (-1)], s') \<and> stack_items s' = [])"
proof -
  let ?qs = "[Write [5], Write [255], Read, Read, Read]"
  have wf: "list_all well_formed ?qs" by simp
  have empty: "stack_items hw1_boot = []" by (simp add: stack_items_def hw1_boot_def)
  show ?thesis
    using hw1_requests_refine [OF hw1_bytes_boot wf] hw1_bytes_boot wf
    by (auto simp: empty simp del: hw1_requests.simps)
qed

text \<open>Last in, first out: pushing a list of values that fits and popping as many gives the list
  reversed, with the earlier contents of the device untouched.\<close>

lemma hw1_lifo:
  assumes "hw1_idle s" "length (stack_items s) + length vs \<le> 256"
  shows "\<exists>s' s''. push_all hw1_push_op vs s = Some s' \<and> pop_all hw1_pop_op (length vs) s' = Some (rev vs, s'')
    \<and> hw1_idle s'' \<and> stack_items s'' = stack_items s"
  using assms by (rule hw1.lifo)

theorem hw1_lifo_witness:
  "\<exists>s' s''. push_all hw1_push_op [1, 2, 3] hw1_boot = Some s'
    \<and> pop_all hw1_pop_op (length [1, 2, 3 :: int]) s' = Some (rev [1, 2, 3], s'')
    \<and> hw1_idle s'' \<and> stack_items s'' = stack_items hw1_boot"
  by (rule hw1_lifo) (simp_all add: hw1_boot_def state_simps stack_items_def)

section \<open>Provider, consumer and cleaner together\<close>

datatype client = Provider nat nat | Consumer | Cleaner nat

fun client_iteration :: "client \<Rightarrow> hw1_state \<Rightarrow> (message option \<times> hw1_state) option" where
  "client_iteration (Provider rnd now) s = provider_iteration rnd now s"
| "client_iteration Consumer s = consumer_iteration s"
| "client_iteration (Cleaner rnd) s = cleaner_iteration rnd s"

fun clients_run :: "client list \<Rightarrow> hw1_state \<Rightarrow> hw1_state option" where
  "clients_run [] s = Some s"
| "clients_run (c # cs) s = do {
     (m, s1) \<leftarrow> client_iteration c s;
     clients_run cs s1
   }"

lemma provider_value_range: "0 \<le> provider_value rnd now \<and> provider_value rnd now \<le> 126"
proof -
  have "provider_value rnd now < 127"
    unfolding provider_value_def Let_def by (rule pos_mod_bound) simp
  moreover have "0 \<le> provider_value rnd now"
    by (simp add: provider_value_def Let_def)
  ultimately show ?thesis by simp
qed

lemma sint_provider_value: "sint (word_of_int (provider_value rnd now) :: 8 word) = provider_value rnd now"
  using provider_value_range [of rnd now] by (simp add: int_word_sint)

definition provided :: "hw1_state \<Rightarrow> bool" where
  "provided s \<longleftrightarrow> hw1_bytes s \<and> (\<forall>v \<in> set (stack_items s). 0 \<le> v \<and> v \<le> 126)"

lemma client_iteration_provided:
  assumes "provided s"
  shows "\<exists>m s'. client_iteration c s = Some (m, s') \<and> provided s'"
proof (cases c)
  case (Provider rnd now)
  let ?buf = "(replicate 20 0)[0 := word_of_int (provider_value rnd now)] :: 8 word list"
  have hd: "hd ?buf = word_of_int (provider_value rnd now)" by (simp add: numeral_eq_Suc)
  have "?buf \<noteq> []" by simp
  with assms hw1_request_refines [of s "Write ?buf"] obtain s' where
    "hw1_write ?buf s = Some (Some (fst (spec_request (Write ?buf) (stack_items s))), s')"
    "hw1_bytes s'" "stack_items s' = snd (spec_request (Write ?buf) (stack_items s))"
    by (auto simp: provided_def)
  with Provider assms provider_value_range [of rnd now] show ?thesis
    by (auto simp: provider_iteration_def provided_def Let_def hd sint_provider_value)
next
  case Consumer
  with assms hw1_request_refines [of s Read] obtain r s' where
    "hw1_read s = Some (Some r, s')" "hw1_bytes s'" "stack_items s' = snd (spec_request Read (stack_items s))"
    by (auto simp: provided_def)
  with Consumer assms show ?thesis
    by (cases "stack_items s") (auto simp: consumer_iteration_def provided_def)
next
  case (Cleaner rnd)
  with assms hw1_request_refines [of s "Ioctl 0"] show ?thesis
    by (auto simp: cleaner_iteration_def provided_def)
qed

lemma clients_run_provided: "provided s \<Longrightarrow> \<exists>s'. clients_run cs s = Some s' \<and> provided s'"
proof (induction cs arbitrary: s)
  case Nil
  then show ?case by simp
next
  case (Cons c cs)
  from client_iteration_provided [OF Cons.prems, of c] obtain m s1 where
    "client_iteration c s = Some (m, s1)" "provided s1" by blast
  with Cons.IH show ?case by auto
qed

text \<open>The programs themselves: the device is opened first, a descriptor that is not positive ends the program with -1 (so does
  the valid descriptor 0), and the loop has no end; the lists hold the numbers drawn in the turns so far. The result is the exit status, if
  the program has ended, with the messages and the state of the device.\<close>

fun turns :: "client list \<Rightarrow> hw1_state \<Rightarrow> (message option list \<times> hw1_state) option" where
  "turns [] s = Some ([], s)"
| "turns (c # cs) s = do {
     (m, s) \<leftarrow> client_iteration c s;
     (ms, s) \<leftarrow> turns cs s;
     Some (m # ms, s)
   }"

definition opened :: "int \<Rightarrow> client list \<Rightarrow> hw1_state \<Rightarrow> (int option \<times> message option list \<times> hw1_state) option" where
  "opened fd cs s = (if fd \<le> 0 then Some (Some (- 1), [], s) else map_option (\<lambda>(ms, s). (None, ms, s)) (turns cs s))"

definition provider_main :: "int \<Rightarrow> (nat \<times> nat) list \<Rightarrow> hw1_state \<Rightarrow> (int option \<times> message option list \<times> hw1_state) option" where
  "provider_main fd draws s = opened fd (List.map (\<lambda>(rnd, now). Provider rnd now) draws) s"

definition consumer_main :: "int \<Rightarrow> nat list \<Rightarrow> hw1_state \<Rightarrow> (int option \<times> message option list \<times> hw1_state) option" where
  "consumer_main fd draws s = opened fd (List.map (\<lambda>rnd. Consumer) draws) s"

definition cleaner_main :: "int \<Rightarrow> nat list \<Rightarrow> hw1_state \<Rightarrow> (int option \<times> message option list \<times> hw1_state) option" where
  "cleaner_main fd draws s = opened fd (List.map Cleaner draws) s"

lemma turns_provided: "provided s \<Longrightarrow> \<exists>ms s'. turns cs s = Some (ms, s') \<and> length ms = length cs \<and> provided s'"
proof (induction cs arbitrary: s)
  case (Cons c cs)
  from client_iteration_provided [OF Cons.prems, of c] obtain m s1 where s1: "client_iteration c s = Some (m, s1)" "provided s1" by blast
  from Cons.IH [OF this(2)] obtain ms s' where "turns cs s1 = Some (ms, s')" "length ms = length cs" "provided s'" by blast
  with s1(1) show ?case by simp
qed simp

text \<open>With the device open each program keeps running, whatever it draws.\<close>

lemma clients_keep_running:
  assumes "provided s" "0 < fd"
  shows "\<exists>ms s'. provider_main fd draws s = Some (None, ms, s') \<and> length ms = length draws \<and> provided s'"
    "\<exists>ms s'. consumer_main fd rnds s = Some (None, ms, s') \<and> length ms = length rnds \<and> provided s'"
    "\<exists>ms s'. cleaner_main fd rnds s = Some (None, ms, s') \<and> length ms = length rnds \<and> provided s'"
  using turns_provided [OF assms(1), of "List.map (\<lambda>(rnd, now). Provider rnd now) draws"]
    turns_provided [OF assms(1), of "List.map (\<lambda>rnd. Consumer) rnds"] turns_provided [OF assms(1), of "List.map Cleaner rnds"] assms(2)
  by (auto simp: provider_main_def consumer_main_def cleaner_main_def opened_def)

text \<open>C40. With these three programs the overloaded result of read is unambiguous: whatever the order
  of their iterations after loading the driver, no iteration faults or blocks, the consumer reports
  an empty stack exactly when the stack is empty, and otherwise reports the newest value, a number
  from 0 to 126 that the provider wrote.\<close>

theorem consumer_reads_exactly:
  "\<exists>s. clients_run cs hw1_boot = Some s \<and>
     (case stack_items s of
        [] \<Rightarrow> \<exists>s'. consumer_iteration s = Some (Some ConsumerEmpty, s') \<and> stack_items s' = []
      | v # vs \<Rightarrow> 0 \<le> v \<and> v \<le> 126 \<and>
          (\<exists>s'. consumer_iteration s = Some (Some (ConsumerPopped v), s') \<and> stack_items s' = vs))"
proof -
  have "provided hw1_boot"
    using hw1_bytes_boot by (simp add: provided_def stack_items_def hw1_boot_def)
  then obtain s where s: "clients_run cs hw1_boot = Some s" "provided s"
    using clients_run_provided by blast
  with hw1_request_refines [of s Read] show ?thesis
    by (cases "stack_items s") (auto simp: consumer_iteration_def provided_def)
qed

end
