(* ===== verification/Mysemaphore.thy ===== *)
theory Mysemaphore
  imports Prelude
begin

text \<open>
  The kernel semaphores of \<open>src/project3/mysemaphore.c\<close>: ten static semaphores, five system calls.
  A waiter lives on the stack of the sleeping thread; the semaphore's wait list holds pointers to
  such waiters, here the numbers of their threads. A system call either returns a number or puts
  its caller to sleep inside the endless loop of the down operation; a fault (a null list head, an
  indeterminate priority) has no result. The code a call runs under the semaphore's spin lock is
  one step, as are the checks in front of it.

  \<open>list_sort\<close> is code of the kernel that the repository does not hold: it is a parameter, and
  \<open>stable_sorter\<close> states what its documentation promises.
\<close>

section \<open>State\<close>

abbreviation (input) FIFO :: int where "FIFO \<equiv> 0"
abbreviation (input) OS :: int where "OS \<equiv> 1"
abbreviation (input) USER :: int where "USER \<equiv> 2"
abbreviation (input) ACTIVE :: int where "ACTIVE \<equiv> 0x10"
abbreviation (input) INACTIVE :: int where "INACTIVE \<equiv> 0x11"

definition MAX_SEMAPHORE :: int where
  "MAX_SEMAPHORE = 10"

definition MAX_PRIORITY :: int where
  "MAX_PRIORITY = 100"

type_synonym tid = nat

text \<open>The static array is zeroed: neither \<open>ACTIVE\<close> nor \<open>INACTIVE\<close>, and a list head of null
  pointers, which is \<open>None\<close>.\<close>

record mysemaphore =
  mode :: int
  count :: "32 word"
  state :: int
  wait_list :: "tid list option"

text \<open>\<open>priority\<close> is \<open>None\<close> while nothing has assigned it.\<close>

record mysemaphore_waiter =
  task :: tid
  priority :: "int option"
  up :: int

record kernel =
  sem_set :: "int \<Rightarrow> mysemaphore"
  frames :: "tid \<Rightarrow> mysemaphore_waiter option"  \<comment> \<open>the waiter on the stack of a sleeping thread\<close>
  runnable :: "tid \<Rightarrow> bool"
  prio :: "tid \<Rightarrow> int"

definition kernel_boot :: "(tid \<Rightarrow> int) \<Rightarrow> kernel" where
  "kernel_boot p =
     \<lparr>sem_set = (\<lambda>_. \<lparr>mode = 0, count = 0, state = 0, wait_list = None\<rparr>),
      frames = (\<lambda>_. None), runnable = (\<lambda>_. True), prio = p\<rparr>"

datatype outcome = Return int | Sleep

definition upd_sem :: "int \<Rightarrow> (mysemaphore \<Rightarrow> mysemaphore) \<Rightarrow> kernel \<Rightarrow> kernel" where
  "upd_sem i f k = k\<lparr>sem_set := (sem_set k)(i := f (sem_set k i))\<rparr>"

section \<open>System calls\<close>

definition sys_mysema_init :: "int \<Rightarrow> int \<Rightarrow> int \<Rightarrow> kernel \<Rightarrow> (outcome \<times> kernel) option" where
  "sys_mysema_init sema_id start_value md k =
     (if 0 > sema_id \<or> sema_id \<ge> MAX_SEMAPHORE then Some (Return (-1), k)
      else if state (sem_set k sema_id) = ACTIVE then Some (Return (-1), k)
      else if start_value < 0 then Some (Return (-1), k)
      else Some (Return 0, upd_sem sema_id (\<lambda>s. s\<lparr>mode := md, count := word_of_int start_value,
             state := ACTIVE, wait_list := Some []\<rparr>) k))"

text \<open>Entering the wait: \<open>list_add_tail\<close> follows the null pointers of a list head that was never
  initialised. The thread then sleeps.\<close>

definition enqueue_waiter :: "tid \<Rightarrow> int option \<Rightarrow> int \<Rightarrow> kernel \<Rightarrow> (outcome \<times> kernel) option" where
  "enqueue_waiter current pr sema_id k = do {
     ws \<leftarrow> wait_list (sem_set k sema_id);
     Some (Sleep, (upd_sem sema_id (\<lambda>s. s\<lparr>wait_list := Some (ws @ [current])\<rparr>) k)
       \<lparr>frames := (frames k)(current := Some \<lparr>task = current, priority = pr, up = 0\<rparr>),
        runnable := (runnable k)(current := False)\<rparr>)
   }"

function sys_mysema_down_userprio :: "tid \<Rightarrow> int \<Rightarrow> int \<Rightarrow> kernel \<Rightarrow> (outcome \<times> kernel) option"
  and sys_mysema_down :: "tid \<Rightarrow> int \<Rightarrow> kernel \<Rightarrow> (outcome \<times> kernel) option" where
  "sys_mysema_down_userprio current sema_id pri k =
     (if 0 > sema_id \<or> sema_id \<ge> MAX_SEMAPHORE then Some (Return (-1), k)
      else if state (sem_set k sema_id) = INACTIVE then Some (Return (-1), k)
      else if mode (sem_set k sema_id) = OS \<or> mode (sem_set k sema_id) = FIFO
           then sys_mysema_down current sema_id k
      else let target_priority =
             (if pri < 0 then 0 else if pri > MAX_PRIORITY then MAX_PRIORITY else pri)
           in if count (sem_set k sema_id) > 0
              then Some (Return 0, upd_sem sema_id (\<lambda>s. s\<lparr>count := count s - 1\<rparr>) k)
              else enqueue_waiter current (Some target_priority) sema_id k)"
| "sys_mysema_down current sema_id k =
     (if 0 > sema_id \<or> sema_id \<ge> MAX_SEMAPHORE then Some (Return (-1), k)
      else if state (sem_set k sema_id) = INACTIVE then Some (Return (-1), k)
      else if mode (sem_set k sema_id) = USER
           then sys_mysema_down_userprio current sema_id MAX_PRIORITY k
      else if count (sem_set k sema_id) > 0
           then Some (Return 0, upd_sem sema_id (\<lambda>s. s\<lparr>count := count s - 1\<rparr>) k)
           else enqueue_waiter current None sema_id k)"
  by pat_completeness auto
termination
  by (relation "measure (\<lambda>x. case x of
        Inl (t, i, p, k) \<Rightarrow> if mode (sem_set k i) = USER then 0 else 1
      | Inr (t, i, k) \<Rightarrow> if mode (sem_set k i) = USER then 1 else 0)") auto

declare sys_mysema_down_userprio.simps [simp del] sys_mysema_down.simps [simp del]

text \<open>A thread that \<open>schedule_timeout\<close> returns to looks at its own waiter and leaves the loop once
  an up operation has marked it; the waiter disappears with the stack frame.\<close>

definition down_resume :: "tid \<Rightarrow> kernel \<Rightarrow> (outcome \<times> kernel) option" where
  "down_resume current k = do {
     w \<leftarrow> frames k current;
     if up w = 1 then Some (Return 0, k\<lparr>frames := (frames k)(current := None)\<rparr>)
     else Some (Sleep, k\<lparr>runnable := (runnable k)(current := False)\<rparr>)
   }"

definition cmp3 :: "int \<Rightarrow> int \<Rightarrow> int" where
  "cmp3 priorityA priorityB = (if priorityA < priorityB then -1 else if priorityA > priorityB then 1 else 0)"

definition OS_mode_cmp :: "kernel \<Rightarrow> tid \<Rightarrow> tid \<Rightarrow> int" where
  "OS_mode_cmp k a b = cmp3 (prio k a) (prio k b)"

text \<open>The user priority of a waiting thread; the caller makes sure that it is assigned.\<close>

definition user_priority :: "kernel \<Rightarrow> tid \<Rightarrow> int option" where
  "user_priority k t = Option.bind (frames k t) priority"

definition user_key :: "kernel \<Rightarrow> tid \<Rightarrow> int" where
  "user_key k t = (case user_priority k t of None \<Rightarrow> 0 | Some p \<Rightarrow> p)"

definition USER_mode_cmp :: "kernel \<Rightarrow> tid \<Rightarrow> tid \<Rightarrow> int" where
  "USER_mode_cmp k a b = cmp3 (user_key k a) (user_key k b)"

type_synonym sorter = "(tid \<Rightarrow> tid \<Rightarrow> int) \<Rightarrow> tid list \<Rightarrow> tid list"

text \<open>The wait list as the three modes leave it before its first entry is woken; an invalid mode
  is \<open>Inl\<close> of the error number, and comparing an unassigned priority has no result.\<close>

definition order_waiters :: "sorter \<Rightarrow> kernel \<Rightarrow> int \<Rightarrow> tid list \<Rightarrow> (int + tid list) option" where
  "order_waiters list_sort k md ws =
     (if md = OS then Some (Inr (list_sort (OS_mode_cmp k) ws))
      else if md = USER then
        (if list_all (\<lambda>t. user_priority k t \<noteq> None) ws
         then Some (Inr (list_sort (USER_mode_cmp k) ws)) else None)
      else if md = FIFO then Some (Inr ws)
      else Some (Inl (-1)))"

definition wake_waiter :: "tid \<Rightarrow> kernel \<Rightarrow> kernel" where
  "wake_waiter t k = k\<lparr>frames := (frames k)(t := map_option (\<lambda>w. w\<lparr>up := 1\<rparr>) (frames k t)),
     runnable := (runnable k)(t := True)\<rparr>"

definition sys_mysema_up :: "sorter \<Rightarrow> int \<Rightarrow> kernel \<Rightarrow> (outcome \<times> kernel) option" where
  "sys_mysema_up list_sort sema_id k =
     (if 0 > sema_id \<or> sema_id \<ge> MAX_SEMAPHORE then Some (Return (-1), k)
      else if state (sem_set k sema_id) = INACTIVE then Some (Return (-1), k)
      else if wait_list (sem_set k sema_id) = Some []
           then Some (Return 0, upd_sem sema_id (\<lambda>s. s\<lparr>count := count s + 1\<rparr>) k)
      else case wait_list (sem_set k sema_id) of
             None \<Rightarrow> (if mode (sem_set k sema_id) \<in> {OS, USER, FIFO} then None else Some (Return (-1), k))
           | Some ws \<Rightarrow> do {
               r \<leftarrow> order_waiters list_sort k (mode (sem_set k sema_id)) ws;
               case r of
                 Inl e \<Rightarrow> Some (Return e, k)
               | Inr ws' \<Rightarrow> do {
                   t \<leftarrow> arr_get ws' 0;
                   Some (Return 0, wake_waiter t
                     (upd_sem sema_id (\<lambda>s. s\<lparr>wait_list := Some (tl ws')\<rparr>) k))
                 }
             })"

definition sys_mysema_release :: "int \<Rightarrow> kernel \<Rightarrow> (outcome \<times> kernel) option" where
  "sys_mysema_release sema_id k =
     (if 0 > sema_id \<or> sema_id \<ge> MAX_SEMAPHORE then Some (Return (-1), k)
      else if state (sem_set k sema_id) = INACTIVE then Some (Return (-1), k)
      else if wait_list (sem_set k sema_id) \<noteq> Some [] then Some (Return (-1), k)
      else Some (Return 0, upd_sem sema_id (\<lambda>s. s\<lparr>state := INACTIVE\<rparr>) k))"

section \<open>What the kernel's sort promises\<close>

text \<open>\<open>list_sort\<close> is a stable sort: where the comparison orders the elements by a key, the result
  is the stable sort by that key.\<close>

definition stable_sorter :: "sorter \<Rightarrow> bool" where
  "stable_sorter list_sort \<longleftrightarrow>
     (\<forall>cmp (key :: tid \<Rightarrow> int) ws. (\<forall>a b. cmp a b > 0 \<longleftrightarrow> key a > key b) \<longrightarrow> list_sort cmp ws = sort_key key ws)"

text \<open>An instance: insertion by the comparison function.\<close>

fun insert_cmp :: "('a \<Rightarrow> 'a \<Rightarrow> int) \<Rightarrow> 'a \<Rightarrow> 'a list \<Rightarrow> 'a list" where
  "insert_cmp cmp x [] = [x]"
| "insert_cmp cmp x (y # ys) = (if cmp x y > 0 then y # insert_cmp cmp x ys else x # y # ys)"

definition insertion_list_sort :: "('a \<Rightarrow> 'a \<Rightarrow> int) \<Rightarrow> 'a list \<Rightarrow> 'a list" where
  "insertion_list_sort cmp xs = foldr (insert_cmp cmp) xs []"

lemma insert_cmp_insort_key:
  "(\<And>a b. cmp a b > 0 \<longleftrightarrow> key a > key b) \<Longrightarrow> insert_cmp cmp x ys = insort_key key x ys"
  for key :: "'a \<Rightarrow> int"
  by (induction ys) auto

lemma insertion_list_sort_stable: "stable_sorter insertion_list_sort"
proof -
  have "insertion_list_sort cmp ws = sort_key key ws"
    if "\<And>a b. cmp a b > 0 \<longleftrightarrow> key a > key b" for cmp and key :: "tid \<Rightarrow> int" and ws
    using insert_cmp_insort_key [of cmp key, OF that]
    by (induction ws) (auto simp: insertion_list_sort_def sort_key_def)
  then show ?thesis by (auto simp: stable_sorter_def)
qed

lemma stable_sorter_OS: "stable_sorter f \<Longrightarrow> f (OS_mode_cmp k) ws = sort_key (prio k) ws"
  unfolding stable_sorter_def OS_mode_cmp_def cmp3_def by auto

lemma stable_sorter_USER: "stable_sorter f \<Longrightarrow> f (USER_mode_cmp k) ws = sort_key (user_key k) ws"
  unfolding stable_sorter_def USER_mode_cmp_def cmp3_def by auto

section \<open>Well-formed kernels\<close>

definition waiters :: "kernel \<Rightarrow> int \<Rightarrow> tid list" where
  "waiters k i = (case wait_list (sem_set k i) of None \<Rightarrow> [] | Some ws \<Rightarrow> ws)"

definition waiter_ok :: "kernel \<Rightarrow> int \<Rightarrow> tid \<Rightarrow> bool" where
  "waiter_ok k i t \<longleftrightarrow> (\<exists>w. frames k t = Some w \<and> task w = t \<and> up w = 0 \<and> \<not> runnable k t \<and>
     (mode (sem_set k i) = USER \<longrightarrow> (\<exists>p. priority w = Some p \<and> 0 \<le> p \<and> p \<le> MAX_PRIORITY)))"

text \<open>A semaphore is in one of its states, an initialised one has a proper wait list, threads wait
  only at an active semaphore whose count is zero, and every listed thread really sleeps there.\<close>

definition sem_wf :: "kernel \<Rightarrow> int \<Rightarrow> bool" where
  "sem_wf k i \<longleftrightarrow>
     state (sem_set k i) \<in> {0, ACTIVE, INACTIVE} \<and>
     (wait_list (sem_set k i) = None \<longleftrightarrow> state (sem_set k i) = 0) \<and>
     (waiters k i \<noteq> [] \<longrightarrow> count (sem_set k i) = 0 \<and> state (sem_set k i) = ACTIVE) \<and>
     distinct (waiters k i) \<and> (\<forall>t \<in> set (waiters k i). waiter_ok k i t)"

text \<open>No thread waits at two semaphores, and no sleeper is lost: a thread inside the down loop is
  on some wait list or has been marked and made runnable.\<close>

definition kernel_wf :: "kernel \<Rightarrow> bool" where
  "kernel_wf k \<longleftrightarrow> (\<forall>i. sem_wf k i) \<and>
     (\<forall>i j t. t \<in> set (waiters k i) \<and> t \<in> set (waiters k j) \<longrightarrow> i = j) \<and>
     (\<forall>t w. frames k t = Some w \<longrightarrow> up w = 1 \<and> runnable k t \<or> (\<exists>i. t \<in> set (waiters k i)))"

lemma waiters_Some [simp]: "wait_list (sem_set k i) = Some ws \<Longrightarrow> waiters k i = ws"
  by (simp add: waiters_def)

lemma upd_sem_simps [simp]:
  "sem_set (upd_sem i f k) j = (if j = i then f (sem_set k i) else sem_set k j)"
  "frames (upd_sem i f k) = frames k" "runnable (upd_sem i f k) = runnable k"
  "prio (upd_sem i f k) = prio k"
  by (simp_all add: upd_sem_def)

lemma wake_waiter_simps [simp]:
  "sem_set (wake_waiter t k) = sem_set k" "prio (wake_waiter t k) = prio k"
  "frames (wake_waiter t k) = (frames k)(t := map_option (\<lambda>w. w\<lparr>up := 1\<rparr>) (frames k t))"
  "runnable (wake_waiter t k) = (runnable k)(t := True)"
  by (simp_all add: wake_waiter_def)

lemma kernel_wf_sem: "kernel_wf k \<Longrightarrow> sem_wf k i"
  by (simp add: kernel_wf_def)

lemma kernel_wf_unique: "kernel_wf k \<Longrightarrow> t \<in> set (waiters k i) \<Longrightarrow> t \<in> set (waiters k j) \<Longrightarrow> i = j"
  unfolding kernel_wf_def by blast

lemma kernel_wf_sleeper:
  "kernel_wf k \<Longrightarrow> frames k t = Some w \<Longrightarrow> up w = 1 \<and> runnable k t \<or> (\<exists>i. t \<in> set (waiters k i))"
  by (simp add: kernel_wf_def)

lemma kernel_wfI:
  assumes "\<And>i. sem_wf k i"
    and "\<And>i j t. t \<in> set (waiters k i) \<Longrightarrow> t \<in> set (waiters k j) \<Longrightarrow> i = j"
    and "\<And>t w. frames k t = Some w \<Longrightarrow> up w = 1 \<and> runnable k t \<or> (\<exists>i. t \<in> set (waiters k i))"
  shows "kernel_wf k"
  using assms unfolding kernel_wf_def by blast

lemma kernel_wf_boot: "kernel_wf (kernel_boot p)"
  by (simp add: kernel_wf_def sem_wf_def kernel_boot_def waiters_def)

text \<open>The changes the system calls make, one preservation lemma each: rewriting a semaphore nobody
  waits at, joining a wait list, waking a waiter, leaving the down loop.\<close>

lemma kernel_wf_upd:
  assumes wf: "kernel_wf k" and empty: "waiters k i = []" "waiters (upd_sem i f k) i = []"
    and st: "state (f (sem_set k i)) \<in> {0, ACTIVE, INACTIVE}"
    and wl: "wait_list (f (sem_set k i)) = None \<longleftrightarrow> state (f (sem_set k i)) = 0"
  shows "kernel_wf (upd_sem i f k)"
proof -
  have same: "waiters (upd_sem i f k) j = waiters k j" for j
    using empty by (cases "j = i") (simp_all add: waiters_def)
  have ok: "waiter_ok (upd_sem i f k) j t = waiter_ok k j t" if "j \<noteq> i" for j t
    using that by (simp add: waiter_ok_def)
  have "sem_wf (upd_sem i f k) j" for j
    using kernel_wf_sem [OF wf, of j] empty st wl
    by (cases "j = i") (auto simp: sem_wf_def same ok)
  moreover have "a = b" if "u \<in> set (waiters (upd_sem i f k) a)" "u \<in> set (waiters (upd_sem i f k) b)"
    for a b u using that kernel_wf_unique [OF wf] by (simp add: same)
  moreover have "up w = 1 \<and> runnable (upd_sem i f k) u \<or> (\<exists>j. u \<in> set (waiters (upd_sem i f k) j))"
    if "frames (upd_sem i f k) u = Some w" for u w
    using that kernel_wf_sleeper [OF wf] by (simp add: same)
  ultimately show ?thesis by (rule kernel_wfI)
qed

lemma enqueue_waiter_wf:
  assumes wf: "kernel_wf k" and awake: "frames k t = None"
    and sem: "count (sem_set k i) = 0" "state (sem_set k i) = ACTIVE"
    and pr: "mode (sem_set k i) = USER \<longrightarrow> (\<exists>p. pr = Some p \<and> 0 \<le> p \<and> p \<le> MAX_PRIORITY)"
  shows "\<exists>k'. enqueue_waiter t pr i k = Some (Sleep, k') \<and> kernel_wf k' \<and>
    waiters k' i = waiters k i @ [t]"
proof -
  from kernel_wf_sem [OF wf, of i] sem obtain ws where ws: "wait_list (sem_set k i) = Some ws"
    by (auto simp: sem_wf_def)
  let ?k = "(upd_sem i (\<lambda>s. s\<lparr>wait_list := Some (ws @ [t])\<rparr>) k)
    \<lparr>frames := (frames k)(t := Some \<lparr>task = t, priority = pr, up = 0\<rparr>),
     runnable := (runnable k)(t := False)\<rparr>"
  have ws': "waiters ?k j = (if j = i then ws @ [t] else waiters k j)" for j
    by (simp add: waiters_def)
  have ok: "waiter_ok ?k j u" if "waiter_ok k j u" for j u
    using that awake by (auto simp: waiter_ok_def)
  have notin: "t \<notin> set (waiters k j)" for j
    using kernel_wf_sem [OF wf, of j] awake by (auto simp: sem_wf_def waiter_ok_def)
  have "sem_wf ?k j" for j
    using kernel_wf_sem [OF wf, of j] sem notin [of j] ws pr
    by (cases "j = i") (auto simp: sem_wf_def ws' intro: ok, auto simp: waiter_ok_def)
  moreover have "a = b" if "u \<in> set (waiters ?k a)" "u \<in> set (waiters ?k b)" for a b u
    using that kernel_wf_unique [OF wf, of u a b] notin ws by (auto simp: ws' split: if_splits)
  moreover have "up w = 1 \<and> runnable ?k u \<or> (\<exists>j. u \<in> set (waiters ?k j))"
    if "frames ?k u = Some w" for u w
  proof (cases "u = t")
    case True
    then show ?thesis by (auto simp: ws')
  next
    case False
    with that have "up w = 1 \<and> runnable k u \<or> (\<exists>j. u \<in> set (waiters k j))"
      using kernel_wf_sleeper [OF wf] by simp
    moreover have "u \<in> set (waiters ?k j) \<longleftrightarrow> u \<in> set (waiters k j)" for j
      using False ws by (simp add: ws')
    ultimately show ?thesis using False by simp
  qed
  ultimately have "kernel_wf ?k" by (rule kernel_wfI)
  then show ?thesis using ws ws' [of i] by (simp add: enqueue_waiter_def)
qed

lemma wake_waiter_wf:
  assumes wf: "kernel_wf k" and wl: "wait_list (sem_set k i) = Some ws"
    and perm: "mset (t # ws') = mset ws"
  shows "kernel_wf (wake_waiter t (upd_sem i (\<lambda>s. s\<lparr>wait_list := Some ws'\<rparr>) k))" (is "kernel_wf ?k")
proof -
  have set: "set ws = insert t (set ws')" and dist: "distinct ws \<longleftrightarrow> distinct (t # ws')"
    using mset_eq_setD [OF perm] mset_eq_imp_distinct_iff [OF perm] by auto
  have W: "waiters ?k j = (if j = i then ws' else waiters k j)" for j
    by (simp add: waiters_def)
  have old: "sem_wf k j" for j using wf by (rule kernel_wf_sem)
  with wl have dist': "distinct (t # ws')" using dist old [of i] by (simp add: sem_wf_def)
  have notin: "t \<notin> set (waiters k j)" if "j \<noteq> i" for j
    using kernel_wf_unique [OF wf, of t i j] that wl set by auto
  have ok: "waiter_ok ?k j u" if "waiter_ok k j u" "u \<noteq> t" for j u
    using that by (auto simp: waiter_ok_def)
  have "sem_wf ?k j" for j
    using old [of j] notin [of j] wl set dist'
    by (cases "j = i") (auto simp: sem_wf_def W intro!: ok)
  moreover have "a = b" if "u \<in> set (waiters ?k a)" "u \<in> set (waiters ?k b)" for a b u
    using that kernel_wf_unique [OF wf, of u a b] wl set by (auto simp: W split: if_splits)
  moreover have "up w = 1 \<and> runnable ?k u \<or> (\<exists>j. u \<in> set (waiters ?k j))"
    if "frames ?k u = Some w" for u w
  proof (cases "u = t")
    case True
    with that show ?thesis by auto
  next
    case False
    with that have "up w = 1 \<and> runnable k u \<or> (\<exists>j. u \<in> set (waiters k j))"
      using kernel_wf_sleeper [OF wf] by simp
    moreover have "u \<in> set (waiters ?k j) \<longleftrightarrow> u \<in> set (waiters k j)" for j
      using False wl set by (auto simp: W)
    ultimately show ?thesis using False by simp
  qed
  ultimately show ?thesis by (rule kernel_wfI)
qed

lemma down_resume_wf:
  assumes wf: "kernel_wf k" and res: "down_resume t k = Some (r, k')"
  shows "kernel_wf k'"
proof -
  from res obtain w where w: "frames k t = Some w" by (auto simp: down_resume_def bind_eq_Some_conv)
  have notin: "up w = 1 \<Longrightarrow> t \<notin> set (waiters k i)" for i
    using kernel_wf_sem [OF wf, of i] w by (auto simp: sem_wf_def waiter_ok_def)
  have same: "sem_set k' = sem_set k" "waiters k' = waiters k"
    using res w by (auto simp: down_resume_def waiters_def split: if_splits)
  have frames: "frames k' u = (if u = t \<and> up w = 1 then None else frames k u)" for u
    using res w by (auto simp: down_resume_def split: if_splits)
  have run: "runnable k' u = (runnable k u \<and> (u = t \<longrightarrow> up w = 1))" if "u \<noteq> t \<or> up w \<noteq> 1" for u
    using res w that by (auto simp: down_resume_def split: if_splits)
  have ok: "waiter_ok k' i u" if "waiter_ok k i u" "u \<noteq> t \<or> up w \<noteq> 1" for i u
    using that run [OF that(2)] by (auto simp: waiter_ok_def frames same)
  have "sem_wf k' i" for i
    using kernel_wf_sem [OF wf, of i] notin by (auto simp: sem_wf_def same intro!: ok)
  moreover have "a = b" if "u \<in> set (waiters k' a)" "u \<in> set (waiters k' b)" for a b u
    using that kernel_wf_unique [OF wf] by (simp add: same)
  moreover have "up v = 1 \<and> runnable k' u \<or> (\<exists>i. u \<in> set (waiters k' i))"
    if "frames k' u = Some v" for u v
    using that kernel_wf_sleeper [OF wf, of u v] w run [of u] by (auto simp: frames same split: if_splits)
  ultimately show ?thesis by (rule kernel_wfI)
qed

section \<open>The system calls keep the kernel well-formed\<close>

text \<open>Threads make system calls in any order. A thread inside the down loop makes none; it runs
  again once it is runnable. A call that faults is not a move (that no call on an initialised
  semaphore faults is a theorem below).\<close>

datatype call = Init int int int | Down int | DownPrio int int | Up int | Release int | Resume

fun sys_call :: "sorter \<Rightarrow> tid \<Rightarrow> call \<Rightarrow> kernel \<Rightarrow> (outcome \<times> kernel) option" where
  "sys_call f t (Init i v m) k = sys_mysema_init i v m k"
| "sys_call f t (Down i) k = sys_mysema_down t i k"
| "sys_call f t (DownPrio i p) k = sys_mysema_down_userprio t i p k"
| "sys_call f t (Up i) k = sys_mysema_up f i k"
| "sys_call f t (Release i) k = sys_mysema_release i k"
| "sys_call f t Resume k = down_resume t k"

definition can_call :: "tid \<Rightarrow> call \<Rightarrow> kernel \<Rightarrow> bool" where
  "can_call t c k \<longleftrightarrow> (if c = Resume then frames k t \<noteq> None \<and> runnable k t else frames k t = None)"

definition kernel_move :: "sorter \<Rightarrow> tid \<times> call \<Rightarrow> kernel \<Rightarrow> kernel option" where
  "kernel_move f tc k =
     (if can_call (fst tc) (snd tc) k then map_option snd (sys_call f (fst tc) (snd tc) k) else None)"

lemma sem_wf_idle: "sem_wf k i \<Longrightarrow> state (sem_set k i) \<noteq> ACTIVE \<or> count (sem_set k i) \<noteq> 0 \<Longrightarrow> waiters k i = []"
  by (auto simp: sem_wf_def)

lemma init_wf:
  assumes wf: "kernel_wf k" and res: "sys_mysema_init i v m k = Some (r, k')"
  shows "kernel_wf k'"
proof (cases "k' = k")
  case False
  with res have "state (sem_set k i) \<noteq> ACTIVE"
    and k': "k' = upd_sem i (\<lambda>s. s\<lparr>mode := m, count := word_of_int v, state := ACTIVE,
               wait_list := Some []\<rparr>) k"
    by (simp_all add: sys_mysema_init_def split: if_splits)
  then have "waiters k i = []" using sem_wf_idle [OF kernel_wf_sem [OF wf, of i]] by simp
  with wf show ?thesis unfolding k' by (rule kernel_wf_upd) (simp_all add: waiters_def)
qed (use wf in simp)

lemma release_wf:
  assumes wf: "kernel_wf k" and res: "sys_mysema_release i k = Some (r, k')"
  shows "kernel_wf k'"
proof (cases "k' = k")
  case False
  with res have "wait_list (sem_set k i) = Some []" and k': "k' = upd_sem i (\<lambda>s. s\<lparr>state := INACTIVE\<rparr>) k"
    by (simp_all add: sys_mysema_release_def split: if_splits)
  with wf show ?thesis unfolding k' by (intro kernel_wf_upd) (simp_all add: waiters_def)
qed (use wf in simp)

text \<open>The part of both down operations behind their checks.\<close>

lemma take_or_wait_wf:
  assumes wf: "kernel_wf k" and awake: "frames k t = None" and act: "state (sem_set k i) \<noteq> INACTIVE"
    and pr: "mode (sem_set k i) = USER \<longrightarrow> (\<exists>p. pr = Some p \<and> 0 \<le> p \<and> p \<le> MAX_PRIORITY)"
    and res: "(if count (sem_set k i) > 0
       then Some (Return 0, upd_sem i (\<lambda>s. s\<lparr>count := count s - 1\<rparr>) k)
       else enqueue_waiter t pr i k) = Some (r, k')"
  shows "kernel_wf k'"
proof (cases "count (sem_set k i) > 0")
  case True
  then have "count (sem_set k i) \<noteq> 0" by (simp add: word_gt_0)
  then have "waiters k i = []" using sem_wf_idle [OF kernel_wf_sem [OF wf, of i]] by simp
  then have "kernel_wf (upd_sem i (\<lambda>s. s\<lparr>count := count s - 1\<rparr>) k)"
    using kernel_wf_sem [OF wf, of i]
    by (intro kernel_wf_upd wf) (auto simp: waiters_def sem_wf_def)
  with True res show ?thesis by simp
next
  case False
  then have zero: "count (sem_set k i) = 0" by (simp add: word_gt_0)
  from False res have enq: "enqueue_waiter t pr i k = Some (r, k')" by simp
  then have "wait_list (sem_set k i) \<noteq> None" by (auto simp: enqueue_waiter_def bind_eq_Some_conv)
  show ?thesis
  proof (cases "state (sem_set k i) = ACTIVE")
    case True
    from enqueue_waiter_wf [OF wf awake zero True pr] enq show ?thesis by auto
  next
    case False
    with act kernel_wf_sem [OF wf, of i] \<open>wait_list (sem_set k i) \<noteq> None\<close> show ?thesis
      by (auto simp: sem_wf_def)
  qed
qed

lemma down_userprio_wf:
  assumes wf: "kernel_wf k" and awake: "frames k t = None"
    and m: "mode (sem_set k i) \<noteq> OS" "mode (sem_set k i) \<noteq> FIFO"
    and res: "sys_mysema_down_userprio t i p k = Some (r, k')"
  shows "kernel_wf k'"
proof (cases "0 > i \<or> i \<ge> MAX_SEMAPHORE \<or> state (sem_set k i) = INACTIVE")
  case True
  with res wf show ?thesis by (auto simp: sys_mysema_down_userprio.simps [of t i p k] split: if_splits)
next
  case False
  let ?p = "if p < 0 then 0 else if p > MAX_PRIORITY then MAX_PRIORITY else p"
  have p: "0 \<le> ?p \<and> ?p \<le> MAX_PRIORITY" by (auto simp: MAX_PRIORITY_def)
  show ?thesis
    by (rule take_or_wait_wf [OF wf awake, where i = i and r = r and pr = "Some ?p"])
      (use False p m res in \<open>auto simp: sys_mysema_down_userprio.simps [of t i p k] Let_def\<close>)
qed

lemma down_wf:
  assumes wf: "kernel_wf k" and awake: "frames k t = None"
    and res: "sys_mysema_down t i k = Some (r, k')"
  shows "kernel_wf k'"
proof (cases "0 > i \<or> i \<ge> MAX_SEMAPHORE \<or> state (sem_set k i) = INACTIVE")
  case True
  with res wf show ?thesis by (auto simp: sys_mysema_down.simps [of t i k] split: if_splits)
next
  case False
  show ?thesis
  proof (cases "mode (sem_set k i) = USER")
    case True
    with False res have "sys_mysema_down_userprio t i MAX_PRIORITY k = Some (r, k')"
      by (simp add: sys_mysema_down.simps [of t i k])
    with True show ?thesis by (intro down_userprio_wf [OF wf awake]) simp_all
  next
    case nuser: False
    show ?thesis
      by (rule take_or_wait_wf [OF wf awake, where i = i and r = r and pr = None])
        (use False nuser res in \<open>auto simp: sys_mysema_down.simps [of t i k]\<close>)
  qed
qed

lemma down_prio_wf:
  assumes wf: "kernel_wf k" and awake: "frames k t = None"
    and res: "sys_mysema_down_userprio t i p k = Some (r, k')"
  shows "kernel_wf k'"
proof (cases "sys_mysema_down_userprio t i p k = sys_mysema_down t i k")
  case True
  with res show ?thesis by (intro down_wf [OF wf awake]) simp
next
  case False
  then have "mode (sem_set k i) \<noteq> OS" "mode (sem_set k i) \<noteq> FIFO"
    by (auto simp: sys_mysema_down_userprio.simps [of t i p k] sys_mysema_down.simps [of t i k]
        split: if_splits)
  with res show ?thesis by (intro down_userprio_wf [OF wf awake])
qed

lemma order_waiters_perm:
  "stable_sorter f \<Longrightarrow> order_waiters f k m ws = Some (Inr ws') \<Longrightarrow> mset ws' = mset ws"
  by (auto simp: order_waiters_def stable_sorter_OS stable_sorter_USER split: if_splits)

text \<open>What an up operation can do: nothing, count up, or wake the first of the ordered waiters.\<close>

lemma up_cases:
  assumes res: "sys_mysema_up f i k = Some (r, k')"
  obtains (same) "k' = k"
  | (free) "wait_list (sem_set k i) = Some []" "k' = upd_sem i (\<lambda>s. s\<lparr>count := count s + 1\<rparr>) k"
  | (wake) ws t ws' where "wait_list (sem_set k i) = Some ws"
      "order_waiters f k (mode (sem_set k i)) ws = Some (Inr (t # ws'))"
      "k' = wake_waiter t (upd_sem i (\<lambda>s. s\<lparr>wait_list := Some ws'\<rparr>) k)"
proof (cases "k' = k \<or> wait_list (sem_set k i) = Some []")
  case True
  show ?thesis
  proof (cases "k' = k")
    case False
    with True have "wait_list (sem_set k i) = Some []" by simp
    with False res have "k' = upd_sem i (\<lambda>s. s\<lparr>count := count s + 1\<rparr>) k"
      by (simp add: sys_mysema_up_def split: if_split_asm)
    with \<open>wait_list (sem_set k i) = Some []\<close> show ?thesis by (rule free)
  qed (rule same)
next
  case False
  with res obtain ws o' where ws: "wait_list (sem_set k i) = Some ws"
    "order_waiters f k (mode (sem_set k i)) ws = Some o'"
    by (auto simp: sys_mysema_up_def bind_eq_Some_conv split: if_split_asm option.split_asm)
  with False res obtain ws' t where "o' = Inr ws'" "arr_get ws' 0 = Some t"
    and k': "k' = wake_waiter t (upd_sem i (\<lambda>s. s\<lparr>wait_list := Some (tl ws')\<rparr>) k)"
    by (cases o') (auto simp: sys_mysema_up_def bind_eq_Some_conv split: if_split_asm)
  moreover from this(2) have "ws' = t # tl ws'" by (cases ws') (auto simp: arr_get_def)
  ultimately show ?thesis using wake ws by metis
qed

lemma up_wf:
  assumes sort: "stable_sorter f" and wf: "kernel_wf k" and res: "sys_mysema_up f i k = Some (r, k')"
  shows "kernel_wf k'"
  using res
proof (cases rule: up_cases)
  case free
  show ?thesis unfolding free(2)
    by (rule kernel_wf_upd [OF wf]) (use free(1) kernel_wf_sem [OF wf, of i] in \<open>auto simp: waiters_def sem_wf_def\<close>)
next
  case (wake ws t ws')
  from order_waiters_perm [OF sort wake(2)] wf wake(1) show ?thesis
    unfolding wake(3) by (intro wake_waiter_wf)
qed (use wf in simp)

lemma kernel_move_wf:
  assumes "stable_sorter f" "kernel_move f tc k = Some k'" "kernel_wf k"
  shows "kernel_wf k'"
proof -
  obtain t c r where tc: "tc = (t, c)" "can_call t c k" "sys_call f t c k = Some (r, k')"
    using assms(2) by (cases tc) (auto simp: kernel_move_def split: if_splits)
  from tc(2,3) assms(1,3) show ?thesis
    by (cases c) (auto simp: can_call_def intro: init_wf down_wf down_prio_wf up_wf release_wf down_resume_wf)
qed

text \<open>Every call may run with any sort that keeps the promise.\<close>

definition kernel_step :: "kernel \<Rightarrow> kernel \<Rightarrow> bool" where
  "kernel_step k k' \<longleftrightarrow> (\<exists>f. stable_sorter f \<and> moves (kernel_move f) k k')"

definition booted :: "kernel \<Rightarrow> bool" where
  "booted k \<longleftrightarrow> (\<exists>p. k = kernel_boot p)"

interpretation mysema: inductive_invariant booted kernel_step kernel_wf
  by unfold_locales
    (auto simp: booted_def kernel_wf_boot kernel_step_def moves_def intro: kernel_move_wf)

lemma run_kernel_reachable:
  assumes "stable_sorter f" "reachable booted kernel_step k" "run_schedule (kernel_move f) tcs k = Some k'"
  shows "reachable booted kernel_step k'"
  using assms(2,3)
proof (induction tcs arbitrary: k)
  case Nil
  then show ?case by simp
next
  case (Cons tc tcs)
  then obtain u where u: "kernel_move f tc k = Some u" "run_schedule (kernel_move f) tcs u = Some k'"
    by (auto split: option.split_asm)
  with assms(1) have "kernel_step k u" unfolding kernel_step_def moves_def by blast
  with Cons.prems(1) have "reachable booted kernel_step u" by (rule reach_step)
  then show ?case using u(2) by (rule Cons.IH)
qed


text \<open>A concrete run: thread 0 initialises semaphore 2 in user mode with count zero and threads 1, 2
  and 3 go to sleep with priorities 60, 15 and 60.\<close>

lemma user_sleep_move:
  assumes "frames k t = None" "0 \<le> i" "i < 10" "0 \<le> p" "p \<le> 100"
    and "sem_set k i = \<lparr>mode = USER, count = 0, state = ACTIVE, wait_list = Some ws\<rparr>"
  shows "\<exists>k'. kernel_move f (t, DownPrio i p) k = Some k' \<and>
    sem_set k' = (sem_set k)(i := \<lparr>mode = USER, count = 0, state = ACTIVE, wait_list = Some (ws @ [t])\<rparr>) \<and>
    frames k' = (frames k)(t := Some \<lparr>task = t, priority = Some p, up = 0\<rparr>)"
  using assms by (simp add: kernel_move_def can_call_def sys_mysema_down_userprio.simps enqueue_waiter_def
      MAX_SEMAPHORE_def MAX_PRIORITY_def upd_sem_def)

lemma three_sleepers:
  "\<exists>k. reachable booted kernel_step k \<and> waiters k 2 = [1, 2, 3] \<and> mode (sem_set k 2) = USER \<and>
     user_key k 1 = 60 \<and> user_key k 2 = 15 \<and> user_key k 3 = 60 \<and> frames k 0 = None \<and>
     state (sem_set k 2) = ACTIVE"
proof -
  let ?f = "kernel_move insertion_list_sort" and ?boot = "kernel_boot (\<lambda>_. 120)"
  obtain k0 where k0: "?f (0, Init 2 0 2) ?boot = Some k0" "frames k0 = (\<lambda>_. None)"
    "sem_set k0 2 = \<lparr>mode = USER, count = 0, state = ACTIVE, wait_list = Some []\<rparr>"
    by (simp add: kernel_move_def can_call_def kernel_boot_def sys_mysema_init_def MAX_SEMAPHORE_def)
  obtain k1 where k1: "?f (1, DownPrio 2 60) k0 = Some k1"
    "sem_set k1 2 = \<lparr>mode = USER, count = 0, state = ACTIVE, wait_list = Some [1]\<rparr>"
    "frames k1 = (frames k0)(1 := Some \<lparr>task = 1, priority = Some 60, up = 0\<rparr>)"
    using user_sleep_move [of k0 1 2 60 "[]" insertion_list_sort] k0 by auto
  obtain k2 where k2: "?f (2, DownPrio 2 15) k1 = Some k2"
    "sem_set k2 2 = \<lparr>mode = USER, count = 0, state = ACTIVE, wait_list = Some [1, 2]\<rparr>"
    "frames k2 = (frames k1)(2 := Some \<lparr>task = 2, priority = Some 15, up = 0\<rparr>)"
    using user_sleep_move [of k1 2 2 15 "[1]" insertion_list_sort] k0 k1 by auto
  obtain k3 where k3: "?f (3, DownPrio 2 60) k2 = Some k3"
    "sem_set k3 2 = \<lparr>mode = USER, count = 0, state = ACTIVE, wait_list = Some [1, 2, 3]\<rparr>"
    "frames k3 = (frames k2)(3 := Some \<lparr>task = 3, priority = Some 60, up = 0\<rparr>)"
    using user_sleep_move [of k2 3 2 60 "[1, 2]" insertion_list_sort] k0 k1 k2 by auto
  have run: "run_schedule ?f [(0, Init 2 0 2), (1, DownPrio 2 60), (2, DownPrio 2 15), (3, DownPrio 2 60)] ?boot
      = Some k3" using k0 k1 k2 k3 by simp
  have "reachable booted kernel_step ?boot" by (rule reach_start) (auto simp: booted_def)
  from run_kernel_reachable [OF insertion_list_sort_stable this run] show ?thesis
    using k0 k1 k2 k3 by (auto simp: waiters_def user_key_def user_priority_def)
qed


section \<open>Errors and faults\<close>

fun call_target :: "call \<Rightarrow> int" where
  "call_target (Init i v m) = i"
| "call_target (Down i) = i"
| "call_target (DownPrio i p) = i"
| "call_target (Up i) = i"
| "call_target (Release i) = i"
| "call_target Resume = 0"

lemmas sys_call_defs = sys_mysema_init_def sys_mysema_up_def sys_mysema_release_def
  sys_mysema_down.simps sys_mysema_down_userprio.simps

text \<open>C39. A call on an id outside 0..9 returns -1 and changes nothing, and so does every call but
  init on a released semaphore, and init on an active one or with a negative value.\<close>

theorem mysema_errors:
  assumes "c \<noteq> Resume"
    and "call_target c < 0 \<or> call_target c \<ge> 10
      \<or> state (sem_set k (call_target c)) = INACTIVE \<and> (\<forall>i v m. c \<noteq> Init i v m)
      \<or> (\<exists>i v m. c = Init i v m \<and> (state (sem_set k i) = ACTIVE \<or> v < 0))"
  shows "sys_call f t c k = Some (Return (-1), k)"
  using assms by (cases c) (auto simp: sys_call_defs MAX_SEMAPHORE_def)

theorem mysema_errors_witness:
  "sys_call insertion_list_sort 7 (DownPrio 10 5) (kernel_boot (\<lambda>_. 0)) = Some (Return (-1), kernel_boot (\<lambda>_. 0))"
  by (rule mysema_errors) simp_all

lemma enqueue_waiter_total:
  "sem_wf k i \<Longrightarrow> state (sem_set k i) \<noteq> 0 \<Longrightarrow> enqueue_waiter t pr i k \<noteq> None"
  by (auto simp: sem_wf_def enqueue_waiter_def)

lemma down_total:
  assumes "sem_wf k i" "0 \<le> i \<longrightarrow> i < 10 \<longrightarrow> state (sem_set k i) \<noteq> 0"
  shows "sys_mysema_down t i k \<noteq> None" "sys_mysema_down_userprio t i p k \<noteq> None"
proof -
  have enq: "0 \<le> i \<Longrightarrow> i < 10 \<Longrightarrow> enqueue_waiter t pr i k \<noteq> None" for pr
    using assms enqueue_waiter_total by simp
  have user: "mode (sem_set k i) = USER \<Longrightarrow> sys_mysema_down_userprio t i p k \<noteq> None" for p
    using enq by (simp add: sys_mysema_down_userprio.simps MAX_SEMAPHORE_def Let_def del: not_None_eq)
  show down: "sys_mysema_down t i k \<noteq> None"
    using enq user by (simp add: sys_mysema_down.simps MAX_SEMAPHORE_def del: not_None_eq)
  show "sys_mysema_down_userprio t i p k \<noteq> None"
    using enq down by (simp add: sys_mysema_down_userprio.simps MAX_SEMAPHORE_def Let_def del: not_None_eq)
qed

lemma up_total:
  assumes sort: "stable_sorter f" and wf: "sem_wf k i" "0 \<le> i \<longrightarrow> i < 10 \<longrightarrow> state (sem_set k i) \<noteq> 0"
  shows "sys_mysema_up f i k \<noteq> None"
proof (cases "0 \<le> i \<and> i < 10")
  case True
  with wf obtain ws where ws: "wait_list (sem_set k i) = Some ws" by (auto simp: sem_wf_def)
  have "mode (sem_set k i) = USER \<Longrightarrow> list_all (\<lambda>u. user_priority k u \<noteq> None) ws"
    using wf(1) ws by (auto simp: sem_wf_def waiter_ok_def user_priority_def list_all_iff)
  then have "order_waiters f k (mode (sem_set k i)) ws \<noteq> None" by (simp add: order_waiters_def)
  then obtain o' where o': "order_waiters f k (mode (sem_set k i)) ws = Some o'" by blast
  have "ws \<noteq> [] \<Longrightarrow> o' = Inr ws' \<Longrightarrow> ws' \<noteq> []" for ws'
    using order_waiters_perm [OF sort, of k _ ws ws'] o' by auto
  with ws o' show ?thesis by (cases o') (auto simp: sys_mysema_up_def arr_get_def)
next
  case False
  then show ?thesis by (auto simp: sys_mysema_up_def MAX_SEMAPHORE_def)
qed



text \<open>A semaphore that was never initialised is not treated as inactive: after boot every valid
  id is neither active nor inactive, so down and up do not return -1 but run into the null pointers
  of the zeroed wait list.\<close>

lemma mysema_uninitialised_faults:
  assumes "0 \<le> i" "i < 10"
  shows "state (sem_set (kernel_boot p) i) \<noteq> INACTIVE
    \<and> sys_mysema_down t i (kernel_boot p) = None
    \<and> sys_mysema_down_userprio t i pri (kernel_boot p) = None
    \<and> sys_mysema_up f i (kernel_boot p) = None"
  using assms by (simp add: kernel_boot_def sys_call_defs enqueue_waiter_def MAX_SEMAPHORE_def)

theorem mysema_uninitialised_faults_witness:
  "sys_mysema_down 1 3 (kernel_boot (\<lambda>_. 0)) = None \<and>
   sys_mysema_up insertion_list_sort 3 (kernel_boot (\<lambda>_. 0)) = None"
  using mysema_uninitialised_faults [of 3] by simp

section \<open>Wake-up order\<close>

definition service_order :: "kernel \<Rightarrow> int \<Rightarrow> tid list" where
  "service_order k i =
     (if mode (sem_set k i) = OS then sort_key (prio k) (waiters k i)
      else if mode (sem_set k i) = USER then sort_key (user_key k) (waiters k i)
      else waiters k i)"

definition marked :: "kernel \<Rightarrow> tid \<Rightarrow> bool" where
  "marked k t \<longleftrightarrow> (\<exists>w. frames k t = Some w \<and> up w = 1) \<and> runnable k t"

fun ups :: "sorter \<Rightarrow> nat \<Rightarrow> int \<Rightarrow> kernel \<Rightarrow> kernel option" where
  "ups f 0 i k = Some k"
| "ups f (Suc n) i k = do {
     (r, k1) \<leftarrow> sys_mysema_up f i k;
     if r = Return 0 then ups f n i k1 else None
   }"

lemma sort_key_sorted: "sorted (map f xs) \<Longrightarrow> sort_key f xs = xs"
  by (induction xs) (auto simp: insort_is_Cons)

lemma sort_key_tl: "sort_key f (tl (sort_key f xs)) = tl (sort_key f xs)"
proof (rule sort_key_sorted)
  have "sorted (map f (sort_key f xs))" by (rule sorted_sort_key)
  then show "sorted (map f (tl (sort_key f xs)))" by (simp add: map_tl sorted_tl)
qed

lemma mset_service_order [simp]: "mset (service_order k i) = mset (waiters k i)"
  by (simp add: service_order_def)

lemma set_service_order: "set (service_order k i) = set (waiters k i)"
  by (rule mset_eq_setD) simp

lemma service_order_Nil [simp]: "service_order k i = [] \<longleftrightarrow> waiters k i = []"
  by (metis mset_service_order mset_zero_iff)

definition after_up :: "int \<Rightarrow> kernel \<Rightarrow> kernel" where
  "after_up i k = wake_waiter (hd (service_order k i))
     (upd_sem i (\<lambda>s. s\<lparr>wait_list := Some (tl (service_order k i))\<rparr>) k)"

lemma up_wakes:
  assumes sort: "stable_sorter f" and wf: "kernel_wf k" and ne: "waiters k i \<noteq> []"
    and i: "0 \<le> i" "i < 10" "mode (sem_set k i) \<in> {FIFO, OS, USER}"
  shows "sys_mysema_up f i k = Some (Return 0, after_up i k)"
proof -
  have sem: "sem_wf k i" using wf by (rule kernel_wf_sem)
  with ne obtain ws where ws: "wait_list (sem_set k i) = Some ws" "state (sem_set k i) = ACTIVE" "ws \<noteq> []"
    by (cases "wait_list (sem_set k i)") (auto simp: sem_wf_def waiters_def)
  have "mode (sem_set k i) = USER \<Longrightarrow> list_all (\<lambda>u. user_priority k u \<noteq> None) ws"
    using sem ws by (auto simp: sem_wf_def waiter_ok_def user_priority_def list_all_iff)
  then have "order_waiters f k (mode (sem_set k i)) ws = Some (Inr (service_order k i))"
    using i(3) ws by (auto simp: order_waiters_def service_order_def stable_sorter_OS [OF sort]
        stable_sorter_USER [OF sort])
  moreover have "service_order k i \<noteq> []" using ne by simp
  ultimately show ?thesis using ws i(1,2)
    by (simp add: sys_mysema_up_def after_up_def MAX_SEMAPHORE_def arr_get_def hd_conv_nth)
qed

lemma user_priority_after_up: "user_priority (after_up i k) t = user_priority k t"
  by (cases "frames k (hd (service_order k i))") (auto simp: after_up_def user_priority_def)

lemma user_key_after_up [simp]: "user_key (after_up i k) t = user_key k t"
  by (simp add: user_key_def user_priority_after_up)

lemma after_up_simps [simp]:
  "mode (sem_set (after_up i k) j) = mode (sem_set k j)" "prio (after_up i k) = prio k"
  "waiters (after_up i k) i = tl (service_order k i)"
  by (simp_all add: after_up_def waiters_def)

lemma service_order_after_up: "service_order (after_up i k) i = tl (service_order k i)"
proof -
  have "user_key (after_up i k) = user_key k" by (rule ext) simp
  then show ?thesis by (simp add: service_order_def sort_key_tl)
qed

lemma after_up_wf:
  assumes "stable_sorter f" "kernel_wf k" "waiters k i \<noteq> []" "0 \<le> i" "i < 10"
    "mode (sem_set k i) \<in> {FIFO, OS, USER}"
  shows "kernel_wf (after_up i k)"
  using up_wf [OF assms(1,2) up_wakes [OF assms]] .

lemma ups_marked: "ups f m i k = Some k' \<Longrightarrow> marked k t \<Longrightarrow> marked k' t"
proof (induction m arbitrary: k)
  case (Suc m)
  then obtain k1 where k1: "sys_mysema_up f i k = Some (Return 0, k1)" "ups f m i k1 = Some k'"
    by (auto simp: bind_eq_Some_conv split: if_split_asm)
  have "marked k1 t" using k1(1) Suc.prems(2)
    by (cases rule: up_cases) (auto simp: marked_def)
  with k1(2) show ?case by (rule Suc.IH)
qed simp

lemma hd_marked_after_up: "kernel_wf k \<Longrightarrow> waiters k i \<noteq> [] \<Longrightarrow> marked (after_up i k) (hd (service_order k i))"
proof -
  assume wf: "kernel_wf k" and ne: "waiters k i \<noteq> []"
  then have "hd (service_order k i) \<in> set (waiters k i)"
    by (metis mset_eq_setD mset_service_order list.set_sel(1) service_order_Nil)
  with kernel_wf_sem [OF wf, of i] show ?thesis
    by (auto simp: marked_def after_up_def sem_wf_def waiter_ok_def)
qed

lemma ups_in_order:
  assumes "stable_sorter f" "kernel_wf k" "0 \<le> i" "i < 10" "mode (sem_set k i) \<in> {FIFO, OS, USER}"
    "m \<le> length (waiters k i)"
  shows "\<exists>k'. ups f m i k = Some k' \<and> service_order k' i = drop m (service_order k i)
    \<and> (\<forall>t \<in> set (take m (service_order k i)). marked k' t)
    \<and> (\<forall>t \<in> set (drop m (service_order k i)). waiter_ok k' i t)"
  using assms(2,5,6)
proof (induction m arbitrary: k)
  case 0
  then show ?case using kernel_wf_sem [of k i] by (simp add: sem_wf_def set_service_order)
next
  case (Suc m)
  let ?k = "after_up i k" and ?so = "service_order k i"
  from Suc.prems have ne: "waiters k i \<noteq> []" by auto
  note up = assms(1) Suc.prems(1) ne assms(3,4) Suc.prems(2)
  have "length ?so = length (waiters k i)" by (metis mset_service_order size_mset)
  with Suc.prems ne have "m \<le> length (waiters ?k i)" by simp
  from Suc.IH [OF after_up_wf [OF up] _ this] Suc.prems(2) obtain k' where
    k': "ups f m i ?k = Some k'" "service_order k' i = drop m (tl ?so)"
    "\<forall>t \<in> set (take m (tl ?so)). marked k' t" "\<forall>t \<in> set (drop m (tl ?so)). waiter_ok k' i t"
    by (auto simp: service_order_after_up)
  have "marked k' (hd ?so)"
    using k'(1) hd_marked_after_up [OF Suc.prems(1) ne] by (rule ups_marked)
  moreover obtain x xs where "?so = x # xs" using ne by (cases ?so) auto
  ultimately show ?case using k' up_wakes [OF up] by auto
qed

text \<open>C3. Wake-up order: at a semaphore in one of the three modes, the m-th of a series of up
  operations wakes the m-th thread of the service order, which is the order of arrival in FIFO mode,
  the stable order by the threads' kernel priorities in OS mode and the stable order by the
  priorities given to the down operation in USER mode; after m operations exactly the first m
  threads are marked runnable and the others are still waiting in that order.\<close>

theorem mysema_wakeup_order:
  assumes "stable_sorter f" "kernel_wf k" "0 \<le> i" "i < 10" "mode (sem_set k i) \<in> {FIFO, OS, USER}"
    "m \<le> length (waiters k i)"
  shows "\<exists>k'. ups f m i k = Some k' \<and> service_order k' i = drop m (service_order k i)
    \<and> (\<forall>t \<in> set (take m (service_order k i)). marked k' t)
    \<and> (\<forall>t \<in> set (drop m (service_order k i)). waiter_ok k' i t)"
  using assms by (rule ups_in_order)

theorem mysema_wakeup_order_witness:
  "\<exists>k k'. reachable booted kernel_step k \<and> waiters k 2 = [1, 2, 3] \<and>
     ups insertion_list_sort 2 2 k = Some k' \<and> service_order k' 2 = [3] \<and> marked k' 2 \<and> marked k' 1"
proof -
  from three_sleepers obtain k where k: "reachable booted kernel_step k" "waiters k 2 = [1, 2, 3]"
    "mode (sem_set k 2) = USER" "user_key k 1 = 60" "user_key k 2 = 15" "user_key k 3 = 60" by blast
  from k have so: "service_order k 2 = [2, 1, 3]" by (simp add: service_order_def)
  have "kernel_wf k" using k(1) by (rule mysema.reachable_inv)
  from mysema_wakeup_order [OF insertion_list_sort_stable this, of 2 2] k show ?thesis
    by (auto simp: so numeral_2_eq_2)
qed

end
