(* ===== verification/SemaphoreTest.thy ===== *)
theory SemaphoreTest
  imports Mysemaphore
begin

text \<open>
  The user program \<open>src/project3/task3_semaphoretest.c\<close> with its header \<open>task3_mysemaphore.h\<close>, on
  top of the kernel semaphores. The atomic-operation test: eight threads, each adding one to a shared
  variable many times by a load, an addition and a store, between a down and an up operation on
  semaphore 2. Each of the three statements of \<open>addFunction\<close> is a step of its own, so an
  interleaving inside it would lose updates; the theorems show that the semaphore excludes it, that
  the threads never block each other for good, and that they end with the expected total.
  The priority test: eight threads sleep in a fixed order and are woken one by one.
\<close>

section \<open>The system-call wrappers\<close>

definition SEMA_INIT :: nat where "SEMA_INIT = 323"
definition SEMA_DOWN :: nat where "SEMA_DOWN = 324"
definition SEMA_USERPRIO :: nat where "SEMA_USERPRIO = 325"
definition SEMA_UP :: nat where "SEMA_UP = 326"
definition SEMA_RELEASE :: nat where "SEMA_RELEASE = 327"

text \<open>The kernel's dispatch of the five numbers to the functions of \<open>mysemaphore.c\<close>; any other
  number is not one of them.\<close>

definition syscall :: "sorter \<Rightarrow> tid \<Rightarrow> nat \<Rightarrow> int list \<Rightarrow> kernel \<Rightarrow> (outcome \<times> kernel) option" where
  "syscall f t n args k =
     (case args of
        [a, b, c] \<Rightarrow> if n = SEMA_INIT then sys_mysema_init a b c k else None
      | [a, b] \<Rightarrow> if n = SEMA_USERPRIO then sys_mysema_down_userprio t a b k else None
      | [a] \<Rightarrow> if n = SEMA_DOWN then sys_mysema_down t a k
               else if n = SEMA_UP then sys_mysema_up f a k
               else if n = SEMA_RELEASE then sys_mysema_release a k else None
      | _ \<Rightarrow> None)"

definition mysema_init :: "sorter \<Rightarrow> tid \<Rightarrow> int \<Rightarrow> int \<Rightarrow> int \<Rightarrow> kernel \<Rightarrow> (outcome \<times> kernel) option" where
  "mysema_init f t sema_id start_value md k = syscall f t SEMA_INIT [sema_id, start_value, md] k"

definition mysema_down :: "sorter \<Rightarrow> tid \<Rightarrow> int \<Rightarrow> kernel \<Rightarrow> (outcome \<times> kernel) option" where
  "mysema_down f t sema_id k = syscall f t SEMA_DOWN [sema_id] k"

definition mysema_down_userprio :: "sorter \<Rightarrow> tid \<Rightarrow> int \<Rightarrow> int \<Rightarrow> kernel \<Rightarrow> (outcome \<times> kernel) option" where
  "mysema_down_userprio f t sema_id pri k = syscall f t SEMA_USERPRIO [sema_id, pri] k"

definition mysema_up :: "sorter \<Rightarrow> tid \<Rightarrow> int \<Rightarrow> kernel \<Rightarrow> (outcome \<times> kernel) option" where
  "mysema_up f t sema_id k = syscall f t SEMA_UP [sema_id] k"

definition mysema_release :: "sorter \<Rightarrow> tid \<Rightarrow> int \<Rightarrow> kernel \<Rightarrow> (outcome \<times> kernel) option" where
  "mysema_release f t sema_id k = syscall f t SEMA_RELEASE [sema_id] k"

lemmas SEMA_numbers = SEMA_INIT_def SEMA_DOWN_def SEMA_USERPRIO_def SEMA_UP_def SEMA_RELEASE_def

lemma mysema_calls:
  "mysema_init f t i v m k = sys_call f t (Init i v m) k"
  "mysema_down f t i k = sys_call f t (Down i) k"
  "mysema_down_userprio f t i p k = sys_call f t (DownPrio i p) k"
  "mysema_up f t i k = sys_call f t (Up i) k"
  "mysema_release f t i k = sys_call f t (Release i) k"
  by (simp_all add: mysema_init_def mysema_down_def mysema_down_userprio_def mysema_up_def
      mysema_release_def syscall_def SEMA_numbers)

section \<open>The atomic-operation test\<close>

definition TARGET_SEMAPHORE :: int where
  "TARGET_SEMAPHORE = 2"

definition MAX_THREAD :: nat where
  "MAX_THREAD = 8"

definition MAX_LOOP :: nat where
  "MAX_LOOP = 1000000"

text \<open>Where a thread stands: at the head of the loop, about to call down, inside the down loop of
  the kernel, at the three statements of \<open>addFunction\<close>, about to call up, or at its end.\<close>

datatype test_pc = LoopHead | CallDown | InDown | Load | Add | Store | CallUp | Finished

record test_thread =
  pc :: test_pc
  i :: nat
  v :: int

record test_state =
  kern :: kernel
  shared_variable :: int
  thr :: "tid \<Rightarrow> test_thread"

text \<open>One step of thread \<open>t\<close> of \<open>threadfunctionWithSemaphore\<close>, for a loop of \<open>n\<close> rounds. The
  program ignores what the calls return.\<close>

definition test_step :: "sorter \<Rightarrow> nat \<Rightarrow> tid \<Rightarrow> test_state \<Rightarrow> test_state option" where
  "test_step f n t s =
     (if t \<ge> MAX_THREAD then None else
      let l = thr s t; go = (\<lambda>l'. (thr s)(t := l')) in
      case pc l of
        LoopHead \<Rightarrow> Some (s\<lparr>thr := go (if i l < n then l\<lparr>pc := CallDown\<rparr> else l\<lparr>pc := Finished\<rparr>)\<rparr>)
      | CallDown \<Rightarrow> do {
          (r, k) \<leftarrow> mysema_down f t TARGET_SEMAPHORE (kern s);
          Some (s\<lparr>kern := k, thr := go (l\<lparr>pc := (if r = Sleep then InDown else Load)\<rparr>)\<rparr>)
        }
      | InDown \<Rightarrow>
          if runnable (kern s) t then do {
            (r, k) \<leftarrow> down_resume t (kern s);
            Some (s\<lparr>kern := k, thr := go (l\<lparr>pc := (if r = Sleep then InDown else Load)\<rparr>)\<rparr>)
          } else None
      | Load \<Rightarrow> Some (s\<lparr>thr := go (l\<lparr>v := shared_variable s, pc := Add\<rparr>)\<rparr>)
      | Add \<Rightarrow> Some (s\<lparr>thr := go (l\<lparr>v := v l + 1, pc := Store\<rparr>)\<rparr>)
      | Store \<Rightarrow> Some (s\<lparr>shared_variable := v l, thr := go (l\<lparr>pc := CallUp\<rparr>)\<rparr>)
      | CallUp \<Rightarrow> do {
          (r, k) \<leftarrow> mysema_up f t TARGET_SEMAPHORE (kern s);
          Some (s\<lparr>kern := k, thr := go (l\<lparr>i := i l + 1, pc := LoopHead\<rparr>)\<rparr>)
        }
      | Finished \<Rightarrow> None)"

text \<open>The main program has called \<open>mysema_init (TARGET_SEMAPHORE, 1, FIFO)\<close>, cleared the shared
  variable and created the threads.\<close>

definition test_start :: "test_state \<Rightarrow> bool" where
  "test_start s \<longleftrightarrow> (\<exists>f p k. mysema_init f MAX_THREAD TARGET_SEMAPHORE 1 FIFO (kernel_boot p) = Some (Return 0, k)
     \<and> s = \<lparr>kern = k, shared_variable = 0, thr = (\<lambda>_. \<lparr>pc = LoopHead, i = 0, v = 0\<rparr>)\<rparr>)"

text \<open>Any thread may move next, with any sort that keeps its promise.\<close>

definition test_trans :: "nat \<Rightarrow> test_state \<Rightarrow> test_state \<Rightarrow> bool" where
  "test_trans n s s' \<longleftrightarrow> (\<exists>f. stable_sorter f \<and> moves (test_step f n) s s')"

section \<open>Invariant\<close>

fun in_cs :: "test_pc \<Rightarrow> nat" where
  "in_cs Load = 1" | "in_cs Add = 1" | "in_cs Store = 1" | "in_cs CallUp = 1" | "in_cs _ = 0"

definition granted :: "mysemaphore_waiter option \<Rightarrow> nat" where
  "granted fr = (case fr of Some w \<Rightarrow> (if up w = 1 then 1 else 0) | None \<Rightarrow> 0)"

fun done_in_round :: "test_pc \<Rightarrow> nat" where
  "done_in_round CallUp = 1" | "done_in_round _ = 0"

abbreviation sem2 :: "kernel \<Rightarrow> mysemaphore" where
  "sem2 k \<equiv> sem_set k 2"

text \<open>The one token of the semaphore is its count, or with a thread in the critical section, or on
  its way to a woken thread.\<close>

definition tokens :: "test_state \<Rightarrow> nat" where
  "tokens s = unat (count (sem2 (kern s))) + (\<Sum>t<MAX_THREAD. in_cs (pc (thr s t)))
     + (\<Sum>t<MAX_THREAD. granted (frames (kern s) t))"

definition rounds :: "test_state \<Rightarrow> nat" where
  "rounds s = (\<Sum>t<MAX_THREAD. i (thr s t) + done_in_round (pc (thr s t)))"

definition thread_ok :: "nat \<Rightarrow> int \<Rightarrow> test_thread \<Rightarrow> bool" where
  "thread_ok n sh l \<longleftrightarrow>
     i l \<le> n \<and> (pc l = Finished \<longrightarrow> i l = n) \<and> (pc l \<notin> {LoopHead, Finished} \<longrightarrow> i l < n) \<and>
     (pc l = Add \<longrightarrow> v l = sh) \<and> (pc l = Store \<longrightarrow> v l = sh + 1)"

definition test_inv :: "nat \<Rightarrow> test_state \<Rightarrow> bool" where
  "test_inv n s \<longleftrightarrow> kernel_wf (kern s) \<and> state (sem2 (kern s)) = ACTIVE \<and> mode (sem2 (kern s)) = FIFO \<and>
     (\<forall>j. j \<noteq> 2 \<longrightarrow> waiters (kern s) j = []) \<and>
     (\<forall>t. frames (kern s) t \<noteq> None \<longleftrightarrow> t < MAX_THREAD \<and> pc (thr s t) = InDown) \<and>
     tokens s = 1 \<and> shared_variable s = int (rounds s) \<and>
     (\<forall>t<MAX_THREAD. thread_ok n (shared_variable s) (thr s t))"

lemma finite_threads [simp]: "finite {..<MAX_THREAD}"
  by simp

lemma in_cs_le_tokens:
  "t < MAX_THREAD \<Longrightarrow> in_cs (pc (thr s t)) \<le> (\<Sum>t<MAX_THREAD. in_cs (pc (thr s t)))"
  by (rule sum_upd_le [of "{..<MAX_THREAD}" t "\<lambda>_ l. in_cs (pc l)" "thr s"]) simp_all

text \<open>Mutual exclusion, from the one token.\<close>

lemma cs_exclusive:
  assumes "tokens s = 1" "t < MAX_THREAD" "u < MAX_THREAD" "t \<noteq> u" "in_cs (pc (thr s t)) = 1"
  shows "in_cs (pc (thr s u)) = 0"
proof -
  have "in_cs (pc (thr s t)) + in_cs (pc (thr s u)) \<le> (\<Sum>t<MAX_THREAD. in_cs (pc (thr s t)))"
    using assms by (intro sum_two_le) auto
  with assms(1,5) show ?thesis by (simp add: tokens_def)
qed

lemma cs_no_count:
  assumes "tokens s = 1" "t < MAX_THREAD" "in_cs (pc (thr s t)) = 1"
  shows "count (sem2 (kern s)) = 0"
proof -
  have "unat (count (sem2 (kern s))) = 0"
    using in_cs_le_tokens [OF assms(2), of s] assms(1,3) by (simp add: tokens_def)
  then show ?thesis by (simp add: unat_eq_0)
qed

text \<open>Every step replaces one thread's state and perhaps the kernel and the shared variable; this is
  what has to be checked of it.\<close>

lemma test_inv_upd:
  assumes inv: "test_inv n s" and t: "t < MAX_THREAD"
    and kern: "kernel_wf k'" "state (sem2 k') = ACTIVE" "mode (sem2 k') = FIFO"
      "\<And>j. j \<noteq> 2 \<Longrightarrow> waiters k' j = []"
    and frames: "\<And>u. frames k' u \<noteq> None \<longleftrightarrow> (if u = t then pc l' = InDown else frames (kern s) u \<noteq> None)"
    and toks: "unat (count (sem2 k')) + in_cs (pc l') + (\<Sum>t<MAX_THREAD. granted (frames k' t)) =
      unat (count (sem2 (kern s))) + in_cs (pc (thr s t)) + (\<Sum>t<MAX_THREAD. granted (frames (kern s) t))"
    and sh: "sh' + int (i (thr s t) + done_in_round (pc (thr s t))) =
      shared_variable s + int (i l' + done_in_round (pc l'))"
    and ok: "thread_ok n sh' l'"
    and others: "sh' = shared_variable s \<or> in_cs (pc (thr s t)) = 1"
  shows "test_inv n (s\<lparr>kern := k', shared_variable := sh', thr := (thr s)(t := l')\<rparr>)" (is "test_inv n ?s")
proof -
  have cs: "(\<Sum>u<MAX_THREAD. in_cs (pc (thr ?s u))) + in_cs (pc (thr s t)) =
      (\<Sum>u<MAX_THREAD. in_cs (pc (thr s u))) + in_cs (pc l')"
    using sum_upd [of "{..<MAX_THREAD}" t "\<lambda>_ l. in_cs (pc l)" "thr s" l'] t by simp
  have tok: "tokens ?s = 1"
    using inv toks cs by (simp add: tokens_def test_inv_def)
  have rd: "rounds ?s + (i (thr s t) + done_in_round (pc (thr s t))) =
      rounds s + (i l' + done_in_round (pc l'))"
    using sum_upd [of "{..<MAX_THREAD}" t "\<lambda>_ l. i l + done_in_round (pc l)" "thr s" l'] t
    by (simp add: rounds_def)
  have "sh' = int (rounds ?s)" using inv sh rd by (simp add: test_inv_def)
  moreover have "thread_ok n sh' (thr ?s u)" if "u < MAX_THREAD" for u
  proof (cases "u = t \<or> sh' = shared_variable s")
    case True
    with inv ok that show ?thesis by (auto simp: test_inv_def)
  next
    case False
    with others inv t that have "in_cs (pc (thr s u)) = 0"
      using cs_exclusive [of s t u] by (auto simp: test_inv_def)
    with False inv that show ?thesis
      by (cases "pc (thr s u)") (auto simp: test_inv_def thread_ok_def)
  qed
  moreover have "frames k' u \<noteq> None \<longleftrightarrow> u < MAX_THREAD \<and> pc (thr ?s u) = InDown" for u
    using inv frames [of u] t by (auto simp: test_inv_def)
  ultimately show ?thesis using kern tok by (simp add: test_inv_def)
qed

lemma test_inv_awake: "test_inv n s \<Longrightarrow> pc (thr s t) \<noteq> InDown \<Longrightarrow> frames (kern s) t = None"
  unfolding test_inv_def by blast

lemma granted_simps [simp]:
  "granted None = 0" "granted (Some w) = (if up w = 1 then 1 else 0)"
  by (simp_all add: granted_def)

lemma sum_granted_upd:
  assumes "t < MAX_THREAD"
  shows "(\<Sum>u<MAX_THREAD. granted ((fr(t := x)) u)) + granted (fr t) = (\<Sum>u<MAX_THREAD. granted (fr u)) + granted x"
  using sum_upd [of "{..<MAX_THREAD}" t "\<lambda>_. granted" fr x] assms by simp

text \<open>The down operation on semaphore 2 as the test uses it.\<close>

lemma test_down:
  assumes inv: "test_inv n s" and t: "t < MAX_THREAD" "pc (thr s t) = CallDown"
    and step: "mysema_down f t TARGET_SEMAPHORE (kern s) = Some (r, k')"
  shows "test_inv n (s\<lparr>kern := k', thr := (thr s)(t := (thr s t)\<lparr>pc := (if r = Sleep then InDown else Load)\<rparr>)\<rparr>)"
proof -
  let ?k = "kern s"
  have wf: "kernel_wf ?k" and sem: "state (sem2 ?k) = ACTIVE" "mode (sem2 ?k) = FIFO"
    and oth: "\<And>j. j \<noteq> 2 \<Longrightarrow> waiters ?k j = []" and ok: "thread_ok n (shared_variable s) (thr s t)"
    using inv t by (auto simp: test_inv_def)
  have awake: "frames ?k t = None" using test_inv_awake [OF inv] t by simp
  have wf': "kernel_wf k'"
    using step down_wf [OF wf awake] by (simp add: mysema_calls)
  from step sem have res: "(if count (sem2 ?k) > 0 then Some (Return 0, upd_sem 2 (\<lambda>s. s\<lparr>count := count s - 1\<rparr>) ?k)
      else enqueue_waiter t None 2 ?k) = Some (r, k')"
    by (simp add: mysema_calls TARGET_SEMAPHORE_def sys_mysema_down.simps MAX_SEMAPHORE_def)
  show ?thesis
  proof (cases "count (sem2 ?k) > 0")
    case True
    with res have k': "r = Return 0" "k' = upd_sem 2 (\<lambda>s. s\<lparr>count := count s - 1\<rparr>) ?k" by auto
    from True have "unat (count (sem2 ?k)) = Suc (unat (count (sem2 ?k) - 1))"
      by (metis Suc_pred' unat_gt_0 unat_minus_one word_gt_0)
    then show ?thesis
      using test_inv_upd [OF inv t(1) wf', of "(thr s t)\<lparr>pc := Load\<rparr>" "shared_variable s"] k' t sem oth ok awake inv
      by (auto simp: thread_ok_def waiters_def test_inv_def)
  next
    case False
    with res have "enqueue_waiter t None 2 ?k = Some (r, k')" by simp
    then obtain ws where r: "r = Sleep" and k': "k' = (upd_sem 2 (\<lambda>s. s\<lparr>wait_list := Some (ws @ [t])\<rparr>) ?k)
       \<lparr>frames := (frames ?k)(t := Some \<lparr>task = t, priority = None, up = 0\<rparr>),
        runnable := (runnable ?k)(t := False)\<rparr>"
      by (auto simp: enqueue_waiter_def bind_eq_Some_conv)
    have "(\<Sum>u<MAX_THREAD. granted (frames k' u)) = (\<Sum>u<MAX_THREAD. granted (frames ?k u))"
      using sum_granted_upd [OF t(1), of "frames ?k" "Some \<lparr>task = t, priority = None, up = 0\<rparr>"] awake
      unfolding k' by simp
    then show ?thesis
      using test_inv_upd [OF inv t(1) wf', of "(thr s t)\<lparr>pc := InDown\<rparr>" "shared_variable s"] k' r t sem oth ok awake
      by (auto simp: thread_ok_def waiters_def)
  qed
qed

lemma test_resume:
  assumes inv: "test_inv n s" and t: "t < MAX_THREAD" "pc (thr s t) = InDown" "runnable (kern s) t"
    and step: "down_resume t (kern s) = Some (r, k')"
  shows "r = Return 0 \<and> test_inv n (s\<lparr>kern := k', thr := (thr s)(t := (thr s t)\<lparr>pc := Load\<rparr>)\<rparr>)"
proof -
  let ?k = "kern s"
  have wf: "kernel_wf ?k" and sem: "state (sem2 ?k) = ACTIVE" "mode (sem2 ?k) = FIFO"
    and oth: "\<And>j. j \<noteq> 2 \<Longrightarrow> waiters ?k j = []" and ok: "thread_ok n (shared_variable s) (thr s t)"
    using inv t by (auto simp: test_inv_def)
  obtain w where w: "frames ?k t = Some w" using inv t unfolding test_inv_def by blast
  have "t \<notin> set (waiters ?k j)" for j
    using kernel_wf_sem [OF wf, of j] t(3) by (auto simp: sem_wf_def waiter_ok_def)
  with kernel_wf_sleeper [OF wf w] have up: "up w = 1" by simp
  with step w have k': "r = Return 0" "k' = ?k\<lparr>frames := (frames ?k)(t := None)\<rparr>"
    by (auto simp: down_resume_def)
  have wf': "kernel_wf k'" using wf step by (rule down_resume_wf)
  have "(\<Sum>u<MAX_THREAD. granted (frames k' u)) + 1 = (\<Sum>u<MAX_THREAD. granted (frames ?k u))"
    using sum_granted_upd [OF t(1), of "frames ?k" None] w up unfolding k' by simp
  then show ?thesis
    using test_inv_upd [OF inv t(1) wf', of "(thr s t)\<lparr>pc := Load\<rparr>" "shared_variable s"] k' t sem oth ok
    by (auto simp: thread_ok_def waiters_def)
qed

lemma test_up:
  assumes inv: "test_inv n s" and t: "t < MAX_THREAD" "pc (thr s t) = CallUp" and sort: "stable_sorter f"
    and step: "mysema_up f t TARGET_SEMAPHORE (kern s) = Some (r, k')"
  shows "test_inv n (s\<lparr>kern := k', thr := (thr s)(t := (thr s t)\<lparr>i := i (thr s t) + 1, pc := LoopHead\<rparr>)\<rparr>)"
proof -
  let ?k = "kern s" and ?l = "(thr s t)\<lparr>i := i (thr s t) + 1, pc := LoopHead\<rparr>"
  have wf: "kernel_wf ?k" and sem: "state (sem2 ?k) = ACTIVE" "mode (sem2 ?k) = FIFO"
    and oth: "\<And>j. j \<noteq> 2 \<Longrightarrow> waiters ?k j = []" and ok: "thread_ok n (shared_variable s) (thr s t)"
    using inv t by (auto simp: test_inv_def)
  from step have up: "sys_mysema_up f 2 ?k = Some (r, k')" by (simp add: mysema_calls TARGET_SEMAPHORE_def)
  with sort wf have wf': "kernel_wf k'" by (rule up_wf)
  have zero: "count (sem2 ?k) = 0" using inv t by (intro cs_no_count) (auto simp: test_inv_def)
  note upd = test_inv_upd [OF inv t(1) wf', of ?l "shared_variable s"]
  show ?thesis
  proof (cases "waiters ?k 2")
    case Nil
    with kernel_wf_sem [OF wf, of 2] sem(1) have "wait_list (sem2 ?k) = Some []"
      by (cases "wait_list (sem2 ?k)") (auto simp: sem_wf_def waiters_def)
    with up sem have k': "k' = upd_sem 2 (\<lambda>s. s\<lparr>count := count s + 1\<rparr>) ?k"
      by (simp add: sys_mysema_up_def MAX_SEMAPHORE_def)
    then show ?thesis
      using upd test_inv_awake [OF inv, of t] t sem oth ok zero
      by (auto simp: thread_ok_def waiters_def)
  next
    case (Cons u us)
    with up_wakes [OF sort wf, of 2] sem up have k': "k' = after_up 2 ?k" by simp
    have so: "service_order ?k 2 = u # us" using sem Cons by (simp add: service_order_def)
    from Cons kernel_wf_sem [OF wf, of 2] obtain w where w: "frames ?k u = Some w" "up w = 0"
      by (auto simp: sem_wf_def waiter_ok_def)
    then have u: "u < MAX_THREAD" using inv unfolding test_inv_def by blast
    have fr: "frames k' = (frames ?k)(u := Some (w\<lparr>up := 1\<rparr>))" using w so k' by (simp add: after_up_def)
    have "(\<Sum>a<MAX_THREAD. granted (frames k' a)) = (\<Sum>a<MAX_THREAD. granted (frames ?k a)) + 1"
      using sum_granted_upd [OF u, of "frames ?k" "Some (w\<lparr>up := 1\<rparr>)"] w unfolding fr by simp
    moreover have "count (sem2 k') = 0" "state (sem2 k') = ACTIVE" "mode (sem2 k') = FIFO"
      "\<And>j. j \<noteq> 2 \<Longrightarrow> waiters k' j = []"
      using k' zero sem oth by (auto simp: after_up_def waiters_def)
    moreover have "frames k' a \<noteq> None \<longleftrightarrow> (if a = t then pc ?l = InDown else frames ?k a \<noteq> None)" for a
      using test_inv_awake [OF inv, of t] t w by (auto simp: fr)
    ultimately have "test_inv n (s\<lparr>kern := k', shared_variable := shared_variable s, thr := (thr s)(t := ?l)\<rparr>)"
      using t ok zero by (intro upd) (auto simp: thread_ok_def)
    then show ?thesis by simp
  qed
qed

lemma test_inv_step:
  assumes sort: "stable_sorter f" and inv: "test_inv n s" and step: "test_step f n t s = Some s'"
  shows "test_inv n s'"
proof -
  from step have t: "t < MAX_THREAD" by (auto simp: test_step_def split: if_splits)
  have ok: "thread_ok n (shared_variable s) (thr s t)" and kern: "kernel_wf (kern s)"
    "state (sem2 (kern s)) = ACTIVE" "mode (sem2 (kern s)) = FIFO"
    "\<And>j. j \<noteq> 2 \<Longrightarrow> waiters (kern s) j = []" using inv t by (auto simp: test_inv_def)
  note upd = test_inv_upd [OF inv t kern]
  note awake = test_inv_awake [OF inv, of t]
  show ?thesis
  proof (cases "pc (thr s t)")
    case LoopHead
    with step t ok awake show ?thesis
      using upd [of "(thr s t)\<lparr>pc := CallDown\<rparr>" "shared_variable s"]
        upd [of "(thr s t)\<lparr>pc := Finished\<rparr>" "shared_variable s"]
      by (auto simp: test_step_def thread_ok_def Let_def split: if_splits)
  next
    case CallDown
    with step t test_down [OF inv t CallDown] show ?thesis
      by (auto simp: test_step_def Let_def bind_eq_Some_conv)
  next
    case InDown
    with step t test_resume [OF inv t InDown] show ?thesis
      by (auto simp: test_step_def Let_def bind_eq_Some_conv split: if_splits)
  next
    case Load
    with step t ok awake show ?thesis
      using upd [of "(thr s t)\<lparr>v := shared_variable s, pc := Add\<rparr>" "shared_variable s"]
      by (auto simp: test_step_def thread_ok_def Let_def)
  next
    case Add
    with step t ok awake show ?thesis
      using upd [of "(thr s t)\<lparr>v := v (thr s t) + 1, pc := Store\<rparr>" "shared_variable s"]
      by (auto simp: test_step_def thread_ok_def Let_def)
  next
    case Store
    with step t ok awake show ?thesis
      using upd [of "(thr s t)\<lparr>pc := CallUp\<rparr>" "v (thr s t)"]
      by (auto simp: test_step_def thread_ok_def Let_def)
  next
    case CallUp
    with step t test_up [OF inv t CallUp sort] show ?thesis
      by (auto simp: test_step_def Let_def bind_eq_Some_conv)
  next
    case Finished
    with step t show ?thesis by (simp add: test_step_def)
  qed
qed

lemma test_inv_start:
  assumes "test_start s"
  shows "test_inv n s"
proof -
  from assms obtain f p k where init: "mysema_init f MAX_THREAD TARGET_SEMAPHORE 1 FIFO (kernel_boot p) = Some (Return 0, k)"
    and s: "s = \<lparr>kern = k, shared_variable = 0, thr = (\<lambda>_. \<lparr>pc = LoopHead, i = 0, v = 0\<rparr>)\<rparr>"
    by (auto simp: test_start_def)
  have wf: "kernel_wf k"
    using init init_wf [OF kernel_wf_boot] by (simp add: mysema_calls)
  have k: "k = upd_sem 2 (\<lambda>s. s\<lparr>mode := FIFO, count := 1, state := ACTIVE, wait_list := Some []\<rparr>) (kernel_boot p)"
    using init by (simp add: mysema_calls sys_mysema_init_def TARGET_SEMAPHORE_def MAX_SEMAPHORE_def kernel_boot_def)
  then show ?thesis unfolding s using wf
    by (simp add: test_inv_def thread_ok_def tokens_def rounds_def kernel_boot_def waiters_def)
qed

section \<open>Termination and progress\<close>

fun pc_rank :: "test_pc \<Rightarrow> nat" where
  "pc_rank LoopHead = 7" | "pc_rank CallDown = 6" | "pc_rank InDown = 5" | "pc_rank Load = 4"
| "pc_rank Add = 3" | "pc_rank Store = 2" | "pc_rank CallUp = 1" | "pc_rank Finished = 0"

definition thread_rank :: "nat \<Rightarrow> test_thread \<Rightarrow> nat" where
  "thread_rank n l = (n - i l) * 8 + pc_rank (pc l)"

definition test_rank :: "nat \<Rightarrow> test_state \<Rightarrow> nat" where
  "test_rank n s = (\<Sum>t<MAX_THREAD. thread_rank n (thr s t))"

lemma test_step_thread:
  assumes inv: "test_inv n s" and step: "test_step f n t s = Some s'"
  shows "t < MAX_THREAD \<and> (\<exists>l'. thr s' = (thr s)(t := l') \<and> thread_rank n l' < thread_rank n (thr s t))"
proof -
  from step have t: "t < MAX_THREAD" by (auto simp: test_step_def split: if_splits)
  have ok: "thread_ok n (shared_variable s) (thr s t)" using inv t by (auto simp: test_inv_def)
  show ?thesis
  proof (cases "pc (thr s t)")
    case InDown
    with step t obtain r k where rk: "runnable (kern s) t" "down_resume t (kern s) = Some (r, k)"
      "s' = s\<lparr>kern := k, thr := (thr s)(t := (thr s t)\<lparr>pc := (if r = Sleep then InDown else Load)\<rparr>)\<rparr>"
      by (auto simp: test_step_def Let_def bind_eq_Some_conv split: if_splits)
    with test_resume [OF inv t InDown] InDown t show ?thesis by (auto simp: thread_rank_def)
  next
    case CallUp
    with ok have "n - i (thr s t) = Suc (n - Suc (i (thr s t)))" by (auto simp: thread_ok_def)
    with CallUp step t show ?thesis
      by (auto simp: test_step_def Let_def bind_eq_Some_conv thread_rank_def)
  qed (use step t ok in \<open>auto simp: test_step_def Let_def bind_eq_Some_conv thread_rank_def split: if_splits\<close>)
qed

lemma test_rank_step:
  assumes "test_inv n s" "test_step f n t s = Some s'"
  shows "test_rank n s' < test_rank n s"
proof -
  obtain l' where t: "t < MAX_THREAD" and l': "thr s' = (thr s)(t := l')" "thread_rank n l' < thread_rank n (thr s t)"
    using test_step_thread [OF assms] by blast
  with sum_upd [of "{..<MAX_THREAD}" t "\<lambda>_. thread_rank n" "thr s" l'] show ?thesis
    by (simp add: test_rank_def)
qed

interpretation semtest: terminating_system test_start "test_trans n" "test_inv n" "test_rank n" for n
proof unfold_locales
  show "test_inv n s" if "test_start s" for s n using that by (rule test_inv_start)
  show "test_inv n s'" if "test_trans n s s'" "test_inv n s" for s s' n
    using that test_inv_step by (auto simp: test_trans_def moves_def)
  show "test_rank n s' < test_rank n s" if "test_trans n s s'" "test_inv n s" for s s' n
    using that test_rank_step by (auto simp: test_trans_def moves_def)
qed

lemma test_calls_total:
  assumes inv: "test_inv n s" and sort: "stable_sorter f"
  shows "mysema_down f t TARGET_SEMAPHORE (kern s) \<noteq> None" "mysema_up f t TARGET_SEMAPHORE (kern s) \<noteq> None"
proof -
  have wf: "sem_wf (kern s) 2" and st: "state (sem2 (kern s)) \<noteq> 0"
    using inv kernel_wf_sem [of "kern s" 2] by (auto simp: test_inv_def)
  show "mysema_down f t TARGET_SEMAPHORE (kern s) \<noteq> None"
    using down_total(1) [OF wf] st by (simp add: mysema_calls TARGET_SEMAPHORE_def)
  show "mysema_up f t TARGET_SEMAPHORE (kern s) \<noteq> None"
    using up_total [OF sort wf] st by (simp add: mysema_calls TARGET_SEMAPHORE_def)
qed

lemma test_progress:
  assumes inv: "test_inv n s" and sort: "stable_sorter f" and t: "t < MAX_THREAD" "pc (thr s t) \<noteq> Finished"
  shows "\<exists>u. test_step f n u s \<noteq> None"
proof -
  let ?k = "kern s"
  have wf: "kernel_wf ?k" using inv by (simp add: test_inv_def)
  have woken: "test_step f n u s \<noteq> None" if "frames ?k u = Some w" "runnable ?k u" for u w
  proof -
    from inv that(1) have "u < MAX_THREAD \<and> pc (thr s u) = InDown" unfolding test_inv_def by blast
    with that show ?thesis by (auto simp: test_step_def Let_def down_resume_def)
  qed
  show ?thesis
  proof (cases "\<exists>u<MAX_THREAD. pc (thr s u) \<notin> {InDown, Finished}")
    case True
    then obtain u where u: "u < MAX_THREAD" "pc (thr s u) \<notin> {InDown, Finished}" by blast
    with test_calls_total [OF inv sort, of u] have "test_step f n u s \<noteq> None"
      by (cases "pc (thr s u)") (auto simp: test_step_def Let_def)
    then show ?thesis by blast
  next
    case False
    then have "(\<Sum>u<MAX_THREAD. in_cs (pc (thr s u))) = 0" by fastforce
    with inv have tok: "unat (count (sem2 ?k)) + (\<Sum>u<MAX_THREAD. granted (frames ?k u)) = 1"
      by (simp add: test_inv_def tokens_def)
    show ?thesis
    proof (cases "count (sem2 ?k) = 0")
      case True
      with tok have "(\<Sum>u<MAX_THREAD. granted (frames ?k u)) \<noteq> 0" by simp
      then obtain u where "granted (frames ?k u) \<noteq> 0" by (auto intro: sum.neutral)
      then obtain w where w: "frames ?k u = Some w" "up w = 1" by (auto simp: granted_def split: option.splits if_splits)
      then have "u \<notin> set (waiters ?k j)" for j
        using kernel_wf_sem [OF wf, of j] by (auto simp: sem_wf_def waiter_ok_def)
      with kernel_wf_sleeper [OF wf w(1)] woken [OF w(1)] show ?thesis by blast
    next
      case False
      with kernel_wf_sem [OF wf, of 2] have "waiters ?k 2 = []" by (auto simp: sem_wf_def)
      then have none: "waiters ?k j = []" for j using inv by (cases "j = 2") (auto simp: test_inv_def)
      from \<open>\<not> (\<exists>u<MAX_THREAD. pc (thr s u) \<notin> {InDown, Finished})\<close> t inv obtain w where "frames ?k t = Some w"
        unfolding test_inv_def by blast
      with kernel_wf_sleeper [OF wf this] none have "runnable ?k t" by simp
      with woken [OF \<open>frames ?k t = Some w\<close>] show ?thesis by blast
    qed
  qed
qed

text \<open>Mutual exclusion: in every reachable state of the atomic-operation test at most one thread is
  between its down and its up operation.\<close>

lemma semtest_mutual_exclusion:
  assumes "reachable test_start (test_trans n) s" "t < MAX_THREAD" "u < MAX_THREAD"
    and "pc (thr s t) \<in> {Load, Add, Store, CallUp}" "pc (thr s u) \<in> {Load, Add, Store, CallUp}"
  shows "t = u"
proof (rule ccontr)
  assume "t \<noteq> u"
  moreover have "tokens s = 1" using semtest.reachable_inv [OF assms(1)] by (simp add: test_inv_def)
  moreover have "in_cs (pc (thr s t)) = 1" "in_cs (pc (thr s u)) = 1" using assms(4,5) by auto
  ultimately show False using cs_exclusive [of s t u] assms(2,3) by simp
qed

text \<open>C31. The test ends: from the start no execution with \<open>n\<close> rounds per thread has more than
  \<open>64 n + 56\<close> steps; for the \<open>MAX_LOOP\<close> of the program that is 64000056.\<close>

theorem semtest_terminates:
  assumes "test_start s" "(test_trans n ^^ m) s s'"
  shows "m \<le> 8 * MAX_THREAD * n + 7 * MAX_THREAD"
proof -
  have "m \<le> test_rank n s" using assms by (rule semtest.bounded_executions)
  also have "test_rank n s = 8 * MAX_THREAD * n + 7 * MAX_THREAD"
    using assms(1) by (auto simp: test_start_def test_rank_def thread_rank_def MAX_THREAD_def)
  finally show ?thesis .
qed

text \<open>C15. The test ends right: in a reachable state in which no thread can move, every thread has
  finished its loop and the shared variable holds the number the program calls expected,
  \<open>MAX_THREAD * MAX_LOOP\<close>; the statement is for any loop bound.\<close>

theorem semtest_result:
  assumes reach: "reachable test_start (test_trans n) s" and sort: "stable_sorter f"
    and stuck: "\<forall>t. test_step f n t s = None"
  shows "(\<forall>t<MAX_THREAD. pc (thr s t) = Finished) \<and> shared_variable s = int (MAX_THREAD * n)"
proof -
  have inv: "test_inv n s" using reach by (rule semtest.reachable_inv)
  have fin: "pc (thr s t) = Finished" if "t < MAX_THREAD" for t
  proof (rule ccontr)
    assume "pc (thr s t) \<noteq> Finished"
    with test_progress [OF inv sort that] stuck show False by simp
  qed
  with inv have "i (thr s t) = n" if "t < MAX_THREAD" for t
    using that by (auto simp: test_inv_def thread_ok_def)
  with fin have "rounds s = MAX_THREAD * n" by (simp add: rounds_def)
  with inv have "shared_variable s = int (MAX_THREAD * n)" by (simp add: test_inv_def)
  with fin show ?thesis by blast
qed

section \<open>The priority test\<close>

definition priority_array :: "int list" where
  "priority_array = [60, 90, 30, 60, 50, 15, 20, 0]"

text \<open>Thread \<open>i\<close> runs \<open>priorityTestThreadFunction\<close> up to its sleep, or to its end when the
  down operation does not sleep; the pauses of the main program leave the thread the time. The list is
  what has been printed after the down operation.\<close>

definition priorityTestThreadFunction :: "sorter \<Rightarrow> tid \<Rightarrow> int list \<times> kernel \<Rightarrow> (int list \<times> kernel) option" where
  "priorityTestThreadFunction f t = (\<lambda>(out, k). do {
     pri \<leftarrow> arr_get priority_array (int t);
     (r, k) \<leftarrow> mysema_down_userprio f t TARGET_SEMAPHORE pri k;
     Some (if r = Sleep then out else out @ [pri], k)
   })"

definition after_wakeup :: "tid \<Rightarrow> int list \<times> kernel \<Rightarrow> (int list \<times> kernel) option" where
  "after_wakeup t = (\<lambda>(out, k).
     if frames k t \<noteq> None \<and> runnable k t then do {
       pri \<leftarrow> arr_get priority_array (int t);
       (r, k) \<leftarrow> down_resume t k;
       Some (if r = Sleep then out else out @ [pri], k)
     } else Some (out, k))"

text \<open>One mode of the test: initialise with count 0, start the threads, call up eight times with a
  pause in which every thread that can run does, release.\<close>

definition priority_round :: "sorter \<Rightarrow> int \<Rightarrow> kernel \<Rightarrow> (int list \<times> outcome \<times> kernel) option" where
  "priority_round f md k = do {
     (r, k) \<leftarrow> mysema_init f MAX_THREAD TARGET_SEMAPHORE 0 md k;
     s \<leftarrow> each (priorityTestThreadFunction f) [0..<MAX_THREAD] ([], k);
     s \<leftarrow> each (\<lambda>_ (out, k). do {
         (r, k) \<leftarrow> mysema_up f MAX_THREAD TARGET_SEMAPHORE k;
         each after_wakeup [0..<MAX_THREAD] (out, k)
       }) [0..<MAX_THREAD] s;
     (r, k) \<leftarrow> mysema_release f MAX_THREAD TARGET_SEMAPHORE (snd s);
     Some (fst s, r, k)
   }"

fun priority_test :: "sorter \<Rightarrow> int list \<Rightarrow> kernel \<Rightarrow> (int list \<times> outcome) list option" where
  "priority_test f [] k = Some []"
| "priority_test f (md # mds) k = do {
     (out, r, k) \<leftarrow> priority_round f md k;
     rest \<leftarrow> priority_test f mds k;
     Some ((out, r) # rest)
   }"


section \<open>Witnesses\<close>

definition test_s0 :: test_state where
  "test_s0 = \<lparr>kern = (case mysema_init insertion_list_sort MAX_THREAD TARGET_SEMAPHORE 1 FIFO (kernel_boot (\<lambda>_. 120))
      of Some (r, k) \<Rightarrow> k | None \<Rightarrow> kernel_boot (\<lambda>_. 120)),
    shared_variable = 0, thr = (\<lambda>_. \<lparr>pc = LoopHead, i = 0, v = 0\<rparr>)\<rparr>"

lemma test_s0_start: "test_start test_s0"
  unfolding test_start_def test_s0_def
  by (rule exI [of _ insertion_list_sort], rule exI [of _ "\<lambda>_. 120"])
    (simp add: mysema_calls sys_mysema_init_def TARGET_SEMAPHORE_def MAX_SEMAPHORE_def kernel_boot_def)

lemma test_schedule_reachable:
  assumes "stable_sorter f" "reachable test_start (test_trans n) s"
  shows "run_schedule (test_step f n) ts s = Some s' \<Longrightarrow> reachable test_start (test_trans n) s'"
  using assms(2)
proof (induction ts arbitrary: s)
  case (Cons t ts)
  then obtain u where u: "test_step f n t s = Some u" "run_schedule (test_step f n) ts u = Some s'"
    by (auto split: option.splits)
  with assms(1) have "test_trans n s u" by (auto simp: test_trans_def moves_def)
  with Cons.prems u show ?case by (blast intro: Cons.IH reach_step)
qed simp

theorem semtest_mutual_exclusion_witness:
  "\<exists>s. reachable test_start (test_trans 1) s \<and> pc (thr s 3) = Load \<and> (\<forall>u<MAX_THREAD. pc (thr s u) = Load \<longrightarrow> 3 = u)"
proof -
  have "map_option (\<lambda>s. pc (thr s 3)) (run_schedule (test_step insertion_list_sort 1) [3, 3, 5, 5] test_s0) = Some Load"
    by code_simp
  then obtain s where s: "run_schedule (test_step insertion_list_sort 1) [3, 3, 5, 5] test_s0 = Some s" "pc (thr s 3) = Load"
    by blast
  have r: "reachable test_start (test_trans 1) s"
    using insertion_list_sort_stable reach_start s(1) by (rule test_schedule_reachable) (rule test_s0_start)
  have "3 = u" if "u < MAX_THREAD" "pc (thr s u) = Load" for u
    by (rule semtest_mutual_exclusion [OF r]) (use that s in \<open>simp_all add: MAX_THREAD_def\<close>)
  with r s(2) show ?thesis by blast
qed

theorem semtest_terminates_witness:
  "\<exists>s'. (test_trans 5 ^^ 1) test_s0 s' \<and> 1 \<le> 8 * MAX_THREAD * 5 + 7 * MAX_THREAD"
proof -
  have "test_step insertion_list_sort 5 0 test_s0 \<noteq> None" by code_simp
  then obtain s' where "test_step insertion_list_sort 5 0 test_s0 = Some s'" by blast
  with insertion_list_sort_stable have "(test_trans 5 ^^ 1) test_s0 s'"
    by (auto simp: test_trans_def moves_def OO_def)
  with semtest_terminates [OF test_s0_start this] show ?thesis by blast
qed

text \<open>A whole run of the test with one round per thread: five threads meet at the semaphore, and all
  eight finish.\<close>

definition full_schedule :: "tid list" where
  "full_schedule = [0, 0, 1, 1, 2, 2, 3, 3, 4, 4] @ replicate 5 0 @ concat (map (replicate 6) [1, 2, 3, 4]) @
     concat (map (replicate 7) [5, 6, 7])"

theorem semtest_result_witness:
  "\<exists>s. run_schedule (test_step insertion_list_sort 1) full_schedule test_s0 = Some s \<and> shared_variable s = 8"
proof -
  let ?f = insertion_list_sort
  have "map_option (\<lambda>s. map (\<lambda>t. pc (thr s t)) [0..<MAX_THREAD]) (run_schedule (test_step ?f 1) full_schedule test_s0)
      = Some (replicate 8 Finished)" by code_simp
  then obtain s where s: "run_schedule (test_step ?f 1) full_schedule test_s0 = Some s"
    "map (\<lambda>t. pc (thr s t)) [0..<MAX_THREAD] = replicate MAX_THREAD Finished" by (auto simp: MAX_THREAD_def)
  have r: "reachable test_start (test_trans 1) s"
    using insertion_list_sort_stable reach_start s(1) by (rule test_schedule_reachable) (rule test_s0_start)
  have "pc (thr s t) = Finished" if "t < MAX_THREAD" for t
    using arg_cong [OF s(2), of "\<lambda>xs. xs ! t"] that by simp
  then have "\<forall>t. test_step ?f 1 t s = None" by (simp add: test_step_def)
  with semtest_result [OF r insertion_list_sort_stable] s(1) show ?thesis by (simp add: MAX_THREAD_def)
qed

section \<open>Without the semaphore\<close>

text \<open>The first half of the test, \<open>threadfunctionWithoutSemaphore\<close>: the same additions with nothing around them.\<close>

record race =
  race_shared :: int
  race_thr :: "test_thread list"

definition race_step :: "nat \<Rightarrow> nat \<Rightarrow> race \<Rightarrow> race option" where
  "race_step n t s =
     (if t \<ge> length (race_thr s) then None else
      let l = race_thr s ! t; go = (\<lambda>l'. (race_thr s)[t := l']) in
      case pc l of
        LoopHead \<Rightarrow> Some (s\<lparr>race_thr := go (if i l < n then l\<lparr>pc := Load\<rparr> else l\<lparr>pc := Finished\<rparr>)\<rparr>)
      | Load \<Rightarrow> Some (s\<lparr>race_thr := go (l\<lparr>v := race_shared s, pc := Add\<rparr>)\<rparr>)
      | Add \<Rightarrow> Some (s\<lparr>race_thr := go (l\<lparr>v := v l + 1, pc := Store\<rparr>)\<rparr>)
      | Store \<Rightarrow> Some (s\<lparr>race_shared := v l, race_thr := go (l\<lparr>i := i l + 1, pc := LoopHead\<rparr>)\<rparr>)
      | _ \<Rightarrow> None)"

definition race_start :: race where
  "race_start = \<lparr>race_shared = 0, race_thr = replicate MAX_THREAD \<lparr>pc = LoopHead, i = 0, v = 0\<rparr>\<rparr>"

definition done_rounds :: "race \<Rightarrow> nat" where
  "done_rounds s = sum_list (map i (race_thr s))"

definition race_local :: "nat \<Rightarrow> int \<Rightarrow> test_thread \<Rightarrow> bool" where
  "race_local n d l \<longleftrightarrow> i l \<le> n \<and> (pc l \<in> {Load, Add, Store} \<longrightarrow> i l < n) \<and> (pc l = Add \<longrightarrow> v l \<le> d) \<and> (pc l = Store \<longrightarrow> v l \<le> d + 1)
     \<and> pc l \<in> {LoopHead, Load, Add, Store, Finished}"

definition race_inv :: "nat \<Rightarrow> race \<Rightarrow> bool" where
  "race_inv n s \<longleftrightarrow> length (race_thr s) = MAX_THREAD \<and> race_shared s \<le> int (done_rounds s)
     \<and> (\<forall>l \<in> set (race_thr s). race_local n (int (done_rounds s)) l)"

lemma race_local_mono: "race_local n d l \<Longrightarrow> d \<le> d' \<Longrightarrow> race_local n d' l"
  by (auto simp: race_local_def)

lemma race_inv_step:
  assumes inv: "race_inv n s" and step: "race_step n t s = Some s'"
  shows "race_inv n s'"
proof -
  have t: "t < length (race_thr s)" using step by (auto simp: race_step_def split: if_splits)
  let ?l = "race_thr s ! t" and ?d = "int (done_rounds s)"
  have l: "race_local n ?d ?l" using inv t by (simp add: race_inv_def)
  have upd: "race_inv n (s\<lparr>race_shared := x, race_thr := (race_thr s)[t := l']\<rparr>)"
    if "i ?l \<le> i l'" "x \<le> ?d + int (i l') - int (i ?l)" "race_local n (?d + int (i l') - int (i ?l)) l'" for x l'
  proof -
    have d: "done_rounds (s\<lparr>race_shared := x, race_thr := (race_thr s)[t := l']\<rparr>) + i ?l = done_rounds s + i l'"
      using t elem_le_sum_list [of t "map i (race_thr s)"] by (simp add: done_rounds_def map_update sum_list_update)
    then have d': "int (done_rounds (s\<lparr>race_shared := x, race_thr := (race_thr s)[t := l']\<rparr>)) = ?d + int (i l') - int (i ?l)" by linarith
    have "race_local n (?d + int (i l') - int (i ?l)) m" if "m \<in> set ((race_thr s)[t := l'])" for m
    proof -
      from that have "m = l' \<or> m \<in> set (race_thr s)" using set_update_subset_insert by fast
      then show ?thesis using \<open>race_local n (?d + int (i l') - int (i ?l)) l'\<close> race_local_mono [of n ?d m] inv \<open>i ?l \<le> i l'\<close>
        by (auto simp: race_inv_def)
    qed
    with inv that(2) d' show ?thesis by (simp add: race_inv_def)
  qed
  have sh: "race_shared s \<le> ?d" using inv by (simp add: race_inv_def)
  have keep: "race_inv n (s\<lparr>race_thr := (race_thr s)[t := l']\<rparr>)" if "i l' = i ?l" "race_local n ?d l'" for l'
    using upd [of l' "race_shared s"] that sh by simp
  show ?thesis
  proof (cases "pc ?l")
    case LoopHead
    with step t l keep [of "?l\<lparr>pc := Load\<rparr>"] keep [of "?l\<lparr>pc := Finished\<rparr>"] show ?thesis
      by (cases "i ?l < n") (auto simp: race_step_def race_local_def Let_def)
  next
    case Load
    with step t l sh keep [of "?l\<lparr>v := race_shared s, pc := Add\<rparr>"] show ?thesis by (auto simp: race_step_def race_local_def Let_def)
  next
    case Add
    with step t l keep [of "?l\<lparr>v := v ?l + 1, pc := Store\<rparr>"] show ?thesis by (auto simp: race_step_def race_local_def Let_def)
  next
    case Store
    with step t l upd [of "?l\<lparr>i := i ?l + 1, pc := LoopHead\<rparr>" "v ?l"] show ?thesis by (auto simp: race_step_def race_local_def Let_def)
  qed (use step t in \<open>simp_all add: race_step_def\<close>)
qed

interpretation race: inductive_invariant "\<lambda>s. s = race_start" "moves (race_step n)" "race_inv n" for n
proof
  show "s = race_start \<Longrightarrow> race_inv n s" for s
    by (simp add: race_inv_def race_start_def done_rounds_def race_local_def)
  show "moves (race_step n) s s' \<Longrightarrow> race_inv n s \<Longrightarrow> race_inv n s'" for s s'
    using race_inv_step by (auto simp: moves_def)
qed

text \<open>When the threads have finished, the shared variable is at most the expected value, and it can be far less: with one
  round per thread there is an execution that ends with 1 instead of 8.\<close>

lemma race_upper:
  assumes "reachable (\<lambda>s. s = race_start) (moves (race_step n)) s" "\<forall>t. race_step n t s = None"
  shows "race_shared s \<le> int (MAX_THREAD * n)"
proof -
  from race.reachable_inv [OF assms(1)] have inv: "race_inv n s" .
  have "i l \<le> n" if "l \<in> set (race_thr s)" for l using inv that by (simp add: race_inv_def race_local_def)
  then have "sum_list (map i (race_thr s)) \<le> sum_list (map (\<lambda>_. n) (race_thr s))" by (intro sum_list_mono) auto
  then have "done_rounds s \<le> MAX_THREAD * n" using inv by (simp add: done_rounds_def race_inv_def sum_list_triv)
  with inv show ?thesis unfolding race_inv_def by linarith
qed

lemma race_loses:
  "map_option (\<lambda>s. (race_shared s, map pc (race_thr s)))
     (run_schedule (race_step 1) (concat (map (\<lambda>k. [0..<MAX_THREAD]) [0..<5])) race_start) = Some (1, replicate 8 Finished)"
  by code_simp

end
