(* ===== verification/ProCon.thy ===== *)
theory ProCon
  imports Prelude
begin

text \<open>
  \<open>src/hw2/pro_con.c\<close>: two producers and two consumers over a buffer of 100 places used as a stack,
  with the POSIX semaphores \<open>mutex\<close>, \<open>empty\<close> and \<open>full\<close>. Every statement of the two
  loops is a step, in any interleaving. The theorems: no access outside the buffer, one thread at a
  time in the critical section, no deadlock, a bound on the length of every execution, and at the end
  a buffer that is empty with exactly the produced items consumed.
\<close>

section \<open>The buffer\<close>

record item_buffer =
  buffer :: "int list"
  buf_count :: int

definition insert_item :: "int \<Rightarrow> item_buffer \<Rightarrow> item_buffer option" where
  "insert_item v b = do {
     bs \<leftarrow> arr_set (buffer b) (buf_count b) v;
     Some (b\<lparr>buffer := bs, buf_count := buf_count b + 1\<rparr>)
   }"

definition remove_item :: "item_buffer \<Rightarrow> (int \<times> item_buffer) option" where
  "remove_item b = do {
     ret \<leftarrow> arr_get (buffer b) (buf_count b - 1);
     Some (ret, b\<lparr>buf_count := buf_count b - 1\<rparr>)
   }"

definition produce_item :: "nat \<Rightarrow> int" where
  "produce_item r = int r mod 256"

text \<open>The result of \<open>consume_item\<close>, which the caller does not see: the argument is passed by value.\<close>

definition consume_item :: "int \<Rightarrow> int" where
  "consume_item v = (let v = v + v; v = v - v; v = v + 1; v = v - 1 in v)"

definition buffer_ok :: "item_buffer \<Rightarrow> bool" where
  "buffer_ok b \<longleftrightarrow> length (buffer b) = 100 \<and> 0 \<le> buf_count b \<and> buf_count b \<le> 100"

definition buffer_items :: "item_buffer \<Rightarrow> int list" where
  "buffer_items b = rev (take (nat (buf_count b)) (buffer b))"

lemma take_nat_snoc: "n < length xs \<Longrightarrow> take (Suc n) (xs[n := v]) = take n xs @ [v]"
  by (simp add: take_Suc_conv_app_nth)

interpretation procon_buf: bounded_stack 100 buffer_ok buffer_items insert_item remove_item
proof
  show "length (buffer_items s) \<le> 100" if "buffer_ok s" for s
    using that by (simp add: buffer_ok_def buffer_items_def)
  show "\<exists>s'. insert_item v s = Some s' \<and> buffer_ok s' \<and> buffer_items s' = v # buffer_items s"
    if "buffer_ok s" "length (buffer_items s) < 100" for s v
  proof -
    from that have b: "length (buffer s) = 100" "0 \<le> buf_count s" "buf_count s < 100"
      by (auto simp: buffer_ok_def buffer_items_def)
    then have "nat (buf_count s + 1) = Suc (nat (buf_count s))" by simp
    with b show ?thesis
      by (simp add: insert_item_def buffer_ok_def buffer_items_def take_nat_snoc)
  qed
  show "\<exists>s'. remove_item s = Some (v, s') \<and> buffer_ok s' \<and> buffer_items s' = vs"
    if "buffer_ok s" "buffer_items s = v # vs" for s v vs
  proof -
    from that have b: "length (buffer s) = 100" "0 < buf_count s" "buf_count s \<le> 100"
      by (cases "buf_count s = 0"; simp add: buffer_ok_def buffer_items_def)+
    then obtain m where m: "buf_count s = int (Suc m)" by (metis gr0_implies_Suc zero_less_imp_eq_int)
    then have "nat (buf_count s) = Suc m" by simp
    with that b m have "v # vs = buffer s ! m # rev (take m (buffer s))"
      by (auto simp: buffer_items_def take_Suc_conv_app_nth)
    with b m show ?thesis
      by (simp add: remove_item_def buffer_ok_def buffer_items_def nat_add_distrib)
  qed
qed

section \<open>The threads\<close>

text \<open>Program points: one per statement of the loops of \<open>producer\<close> and \<open>consumer\<close>.\<close>

datatype procon_pc =
    PHead | PProduce | PWaitEmpty | PWaitMutex | PInsert | PPostMutex | PPostFull | PDone
  | CHead | CWaitFull | CWaitMutex | CRemove | CPostMutex | CPostEmpty | CConsume | CDone

record procon_thread =
  at :: procon_pc
  rnd :: nat
  item :: int

record procon_state =
  sem_mutex :: nat
  sem_empty :: nat
  sem_full :: nat
  store :: item_buffer
  threads :: "nat \<Rightarrow> procon_thread"
  produced :: "int list"
  consumed :: "int list"

text \<open>Threads 0 and 1 run \<open>producer\<close>, threads 2 and 3 \<open>consumer\<close>. The two lists are what the
  program has printed.\<close>

definition procon_main :: procon_state where
  "procon_main = \<lparr>sem_mutex = 1, sem_empty = 100, sem_full = 0,
     store = \<lparr>buffer = replicate 100 0, buf_count = 0\<rparr>,
     threads = (\<lambda>t. \<lparr>at = (if t < 2 then PHead else CHead), rnd = 1, item = 0\<rparr>),
     produced = [], consumed = []\<rparr>"

text \<open>A step of thread \<open>t\<close>; \<open>r\<close> is what \<open>rand\<close> returns, if it is called. A
  \<open>sem_wait\<close> on a zero semaphore blocks.\<close>

definition procon_step :: "nat \<times> nat \<Rightarrow> procon_state \<Rightarrow> procon_state option" where
  "procon_step tr s = (case tr of (t, r) \<Rightarrow>
     if t \<ge> 4 then None else
     let l = threads s t; upd = (\<lambda>l'. (threads s)(t := l')); goto = (\<lambda>p. upd (l\<lparr>at := p\<rparr>)) in
     case at l of
       PHead \<Rightarrow> Some (s\<lparr>threads := goto (if rnd l \<le> 100 then PProduce else PDone)\<rparr>)
     | PProduce \<Rightarrow> Some (s\<lparr>threads := upd (l\<lparr>item := produce_item r, at := PWaitEmpty\<rparr>),
         produced := produce_item r # produced s\<rparr>)
     | PWaitEmpty \<Rightarrow> if sem_empty s = 0 then None
         else Some (s\<lparr>sem_empty := sem_empty s - 1, threads := goto PWaitMutex\<rparr>)
     | PWaitMutex \<Rightarrow> if sem_mutex s = 0 then None
         else Some (s\<lparr>sem_mutex := sem_mutex s - 1, threads := goto PInsert\<rparr>)
     | PInsert \<Rightarrow> do {
         b \<leftarrow> insert_item (item l) (store s);
         Some (s\<lparr>store := b, threads := goto PPostMutex\<rparr>)
       }
     | PPostMutex \<Rightarrow> Some (s\<lparr>sem_mutex := sem_mutex s + 1, threads := goto PPostFull\<rparr>)
     | PPostFull \<Rightarrow> Some (s\<lparr>sem_full := sem_full s + 1,
         threads := upd (l\<lparr>rnd := rnd l + 1, at := PHead\<rparr>)\<rparr>)
     | CHead \<Rightarrow> Some (s\<lparr>threads := goto (if rnd l \<le> 100 then CWaitFull else CDone)\<rparr>)
     | CWaitFull \<Rightarrow> if sem_full s = 0 then None
         else Some (s\<lparr>sem_full := sem_full s - 1, threads := goto CWaitMutex\<rparr>)
     | CWaitMutex \<Rightarrow> if sem_mutex s = 0 then None
         else Some (s\<lparr>sem_mutex := sem_mutex s - 1, threads := goto CRemove\<rparr>)
     | CRemove \<Rightarrow> do {
         (v, b) \<leftarrow> remove_item (store s);
         Some (s\<lparr>store := b, threads := upd (l\<lparr>item := v, at := CPostMutex\<rparr>)\<rparr>)
       }
     | CPostMutex \<Rightarrow> Some (s\<lparr>sem_mutex := sem_mutex s + 1, threads := goto CPostEmpty\<rparr>)
     | CPostEmpty \<Rightarrow> Some (s\<lparr>sem_empty := sem_empty s + 1, threads := goto CConsume\<rparr>)
     | CConsume \<Rightarrow> Some (s\<lparr>threads := upd (l\<lparr>rnd := rnd l + 1, at := CHead\<rparr>),
         consumed := item l # consumed s\<rparr>)
     | _ \<Rightarrow> None)"

section \<open>Invariant\<close>

fun crit :: "procon_pc \<Rightarrow> nat" where
  "crit PInsert = 1" | "crit PPostMutex = 1" | "crit CRemove = 1" | "crit CPostMutex = 1" | "crit _ = 0"

text \<open>Items in the buffer that \<open>full\<close> does not count, and free places that \<open>empty\<close> does not
  count.\<close>

fun uncounted :: "procon_pc \<Rightarrow> nat" where
  "uncounted PPostMutex = 1" | "uncounted PPostFull = 1" | "uncounted CWaitMutex = 1"
| "uncounted CRemove = 1" | "uncounted _ = 0"

fun reserved :: "procon_pc \<Rightarrow> nat" where
  "reserved PWaitMutex = 1" | "reserved PInsert = 1" | "reserved CPostMutex = 1"
| "reserved CPostEmpty = 1" | "reserved _ = 0"

text \<open>Insertions and removals a thread has made, and the item it holds.\<close>

definition inserts :: "nat \<Rightarrow> procon_thread \<Rightarrow> nat" where
  "inserts t l = (if t < 2 then (rnd l - 1) + (if at l \<in> {PPostMutex, PPostFull} then 1 else 0) else 0)"

definition removes :: "nat \<Rightarrow> procon_thread \<Rightarrow> nat" where
  "removes t l = (if t < 2 then 0
     else (rnd l - 1) + (if at l \<in> {CPostMutex, CPostEmpty, CConsume} then 1 else 0))"

definition in_hand :: "procon_thread \<Rightarrow> int multiset" where
  "in_hand l = (if at l \<in> {PWaitEmpty, PWaitMutex, PInsert, CPostMutex, CPostEmpty, CConsume}
     then {#item l#} else {#})"

definition producer_pcs :: "procon_pc set" where
  "producer_pcs = {PHead, PProduce, PWaitEmpty, PWaitMutex, PInsert, PPostMutex, PPostFull, PDone}"

definition procon_thread_ok :: "nat \<Rightarrow> procon_thread \<Rightarrow> bool" where
  "procon_thread_ok t l \<longleftrightarrow> (t < 2 \<longleftrightarrow> at l \<in> producer_pcs) \<and> 1 \<le> rnd l \<and> rnd l \<le> 101 \<and>
     (at l \<in> {PDone, CDone} \<longrightarrow> rnd l = 101) \<and> (at l \<notin> {PHead, CHead, PDone, CDone} \<longrightarrow> rnd l \<le> 100)"

abbreviation n_items :: "procon_state \<Rightarrow> nat" where
  "n_items s \<equiv> length (buffer_items (store s))"

definition procon_inv :: "procon_state \<Rightarrow> bool" where
  "procon_inv s \<longleftrightarrow> buffer_ok (store s) \<and>
     sem_mutex s + (\<Sum>t<4. crit (at (threads s t))) = 1 \<and>
     n_items s = sem_full s + (\<Sum>t<4. uncounted (at (threads s t))) \<and>
     n_items s + sem_empty s + (\<Sum>t<4. reserved (at (threads s t))) = 100 \<and>
     (\<Sum>t<4. inserts t (threads s t)) = n_items s + (\<Sum>t<4. removes t (threads s t)) \<and>
     mset (produced s) = mset (buffer_items (store s)) + mset (consumed s) + (\<Sum>t<4. in_hand (threads s t)) \<and>
     (\<forall>t<4. procon_thread_ok t (threads s t))"

lemma procon_inv_upd:
  fixes s :: procon_state
  assumes inv: "procon_inv s" and t: "t < 4" and b: "buffer_ok b" and ok: "procon_thread_ok t l'"
    and mutex: "m' + crit (at l') = sem_mutex s + crit (at (threads s t))"
    and full: "length (buffer_items b) + sem_full s + uncounted (at (threads s t)) = n_items s + f' + uncounted (at l')"
    and empty: "length (buffer_items b) + e' + reserved (at l') = n_items s + sem_empty s + reserved (at (threads s t))"
    and moved: "length (buffer_items b) + removes t l' + inserts t (threads s t) =
      n_items s + removes t (threads s t) + inserts t l'"
    and held: "mset p' + mset (buffer_items (store s)) + mset (consumed s) + in_hand (threads s t) =
      mset (produced s) + mset (buffer_items b) + mset c' + in_hand l'"
  shows "procon_inv (s\<lparr>sem_mutex := m', sem_empty := e', sem_full := f', store := b,
    threads := (threads s)(t := l'), produced := p', consumed := c'\<rparr>)"
proof -
  let ?th = "(threads s)(t := l')"
  have upd: "(\<Sum>u<4. g u (?th u)) + g t (threads s t) = (\<Sum>u<4. g u (threads s u)) + g t l'"
    for g :: "nat \<Rightarrow> procon_thread \<Rightarrow> 'b::comm_monoid_add"
    using t by (intro sum_upd) simp_all
  have "m' + (\<Sum>t<4. crit (at (?th t))) = 1"
    using inv mutex upd [of "\<lambda>_ l. crit (at l)"] unfolding procon_inv_def by linarith
  moreover have "length (buffer_items b) = f' + (\<Sum>t<4. uncounted (at (?th t)))"
    using inv full upd [of "\<lambda>_ l. uncounted (at l)"] unfolding procon_inv_def by linarith
  moreover have "length (buffer_items b) + e' + (\<Sum>t<4. reserved (at (?th t))) = 100"
    using inv empty upd [of "\<lambda>_ l. reserved (at l)"] unfolding procon_inv_def by linarith
  moreover have "(\<Sum>t<4. inserts t (?th t)) = length (buffer_items b) + (\<Sum>t<4. removes t (?th t))"
    using inv moved upd [of inserts] upd [of removes] unfolding procon_inv_def by linarith
  moreover have "mset p' = mset (buffer_items b) + mset c' + (\<Sum>t<4. in_hand (?th t))"
  proof (rule multiset_eqI)
    fix x
    have "count (mset (produced s)) x = count (mset (buffer_items (store s)) + mset (consumed s)
        + (\<Sum>t<4. in_hand (threads s t))) x"
      using inv by (simp only: procon_inv_def)
    with arg_cong [OF held, of "\<lambda>M. count M x"] arg_cong [OF upd [of "\<lambda>_. in_hand"], of "\<lambda>M. count M x"]
    show "count (mset p') x = count (mset (buffer_items b) + mset c' + (\<Sum>t<4. in_hand (?th t))) x"
      unfolding count_union by linarith
  qed
  ultimately show ?thesis using inv b ok by (simp add: procon_inv_def)
qed


lemma procon_ready:
  assumes inv: "procon_inv s" and t: "t < 4"
  shows "at (threads s t) = PInsert \<Longrightarrow> n_items s < 100"
    and "at (threads s t) = CRemove \<Longrightarrow> buffer_items (store s) \<noteq> []"
proof -
  have le: "reserved (at (threads s t)) \<le> (\<Sum>t<4. reserved (at (threads s t)))"
    "uncounted (at (threads s t)) \<le> (\<Sum>t<4. uncounted (at (threads s t)))"
    using t sum_upd_le [of "{..<4}" t "\<lambda>_ l. reserved (at l)" "threads s"]
      sum_upd_le [of "{..<4}" t "\<lambda>_ l. uncounted (at l)" "threads s"] by simp_all
  show "n_items s < 100" if "at (threads s t) = PInsert"
    using inv le(1) that unfolding procon_inv_def by simp
  show "buffer_items (store s) \<noteq> []" if "at (threads s t) = CRemove"
    using inv le(2) that unfolding procon_inv_def by auto
qed

lemmas procon_counts = inserts_def removes_def in_hand_def procon_thread_ok_def producer_pcs_def

lemma procon_insert_step:
  assumes inv: "procon_inv s" and t: "t < 4" and at: "at (threads s t) = PInsert"
  shows "\<exists>b. insert_item (item (threads s t)) (store s) = Some b \<and>
    procon_inv (s\<lparr>store := b, threads := (threads s)(t := (threads s t)\<lparr>at := PPostMutex\<rparr>)\<rparr>)"
proof -
  have ok: "procon_thread_ok t (threads s t)" "buffer_ok (store s)" using inv t by (auto simp: procon_inv_def)
  from procon_buf.push_ok [OF ok(2) procon_ready(1) [OF inv t at]] obtain b where
    b: "insert_item (item (threads s t)) (store s) = Some b" "buffer_ok b"
      "buffer_items b = item (threads s t) # buffer_items (store s)" by blast
  moreover have "procon_inv (s\<lparr>sem_mutex := sem_mutex s, sem_empty := sem_empty s, sem_full := sem_full s, store := b,
      threads := (threads s)(t := (threads s t)\<lparr>at := PPostMutex\<rparr>), produced := produced s, consumed := consumed s\<rparr>)"
    by (rule procon_inv_upd [OF inv t]) (use ok b at in \<open>auto simp: procon_counts\<close>)
  ultimately show ?thesis by simp
qed

lemma procon_remove_step:
  assumes inv: "procon_inv s" and t: "t < 4" and at: "at (threads s t) = CRemove"
  shows "\<exists>v b. remove_item (store s) = Some (v, b) \<and>
    procon_inv (s\<lparr>store := b, threads := (threads s)(t := (threads s t)\<lparr>item := v, at := CPostMutex\<rparr>)\<rparr>)"
proof -
  have ok: "procon_thread_ok t (threads s t)" "buffer_ok (store s)" using inv t by (auto simp: procon_inv_def)
  from procon_ready(2) [OF inv t at] obtain v vs where vs: "buffer_items (store s) = v # vs"
    by (cases "buffer_items (store s)") auto
  from procon_buf.pop_ok [OF ok(2) vs] obtain b where
    b: "remove_item (store s) = Some (v, b)" "buffer_ok b" "buffer_items b = vs" by blast
  moreover have "procon_inv (s\<lparr>sem_mutex := sem_mutex s, sem_empty := sem_empty s, sem_full := sem_full s, store := b,
      threads := (threads s)(t := (threads s t)\<lparr>item := v, at := CPostMutex\<rparr>), produced := produced s, consumed := consumed s\<rparr>)"
    by (rule procon_inv_upd [OF inv t]) (use ok b at vs in \<open>auto simp: procon_counts\<close>)
  ultimately show ?thesis by simp
qed

text \<open>The steps that leave the buffer and the printed lists alone.\<close>

lemma procon_inv_goto:
  assumes inv: "procon_inv s" and t: "t < 4"
    and ok: "procon_thread_ok t ((threads s t)\<lparr>rnd := j, at := p\<rparr>)"
    and "m' + crit p = sem_mutex s + crit (at (threads s t))"
    and "sem_full s + uncounted (at (threads s t)) = f' + uncounted p"
    and "e' + reserved p = sem_empty s + reserved (at (threads s t))"
    and "removes t ((threads s t)\<lparr>rnd := j, at := p\<rparr>) + inserts t (threads s t) =
      removes t (threads s t) + inserts t ((threads s t)\<lparr>rnd := j, at := p\<rparr>)"
    and "in_hand (threads s t) = in_hand ((threads s t)\<lparr>rnd := j, at := p\<rparr>)"
  shows "procon_inv (s\<lparr>sem_mutex := m', sem_empty := e', sem_full := f',
    threads := (threads s)(t := (threads s t)\<lparr>rnd := j, at := p\<rparr>)\<rparr>)"
proof -
  have "buffer_ok (store s)" using inv by (simp add: procon_inv_def)
  from procon_inv_upd [OF inv t this ok, of m' f' e' "produced s" "consumed s"] assms(4-) show ?thesis
    by simp
qed

lemma procon_inv_step:
  assumes inv: "procon_inv s" and step: "procon_step (t, r) s = Some s'"
  shows "procon_inv s'"
proof -
  from step have t: "t < 4" by (auto simp: procon_step_def split: if_splits)
  let ?l = "threads s t"
  have ok: "procon_thread_ok t ?l" "buffer_ok (store s)" using inv t by (auto simp: procon_inv_def)
  have goto: "procon_inv (s\<lparr>sem_mutex := m', sem_empty := e', sem_full := f', threads := (threads s)(t := ?l\<lparr>at := p\<rparr>)\<rparr>)"
    if "procon_thread_ok t (?l\<lparr>at := p\<rparr>)" "m' + crit p = sem_mutex s + crit (at ?l)"
      "sem_full s + uncounted (at ?l) = f' + uncounted p" "e' + reserved p = sem_empty s + reserved (at ?l)"
      "removes t (?l\<lparr>at := p\<rparr>) + inserts t ?l = removes t ?l + inserts t (?l\<lparr>at := p\<rparr>)"
      "in_hand ?l = in_hand (?l\<lparr>at := p\<rparr>)" for p m' f' e'
    using procon_inv_goto [OF inv t, of _ "rnd ?l"] that by simp
  note defs = procon_step_def Let_def procon_counts
  show ?thesis
  proof (cases "at ?l")
    case PHead
    with step t ok goto [of PProduce "sem_mutex s" "sem_full s" "sem_empty s"]
      goto [of PDone "sem_mutex s" "sem_full s" "sem_empty s"] show ?thesis
      by (auto simp: defs split: if_splits)
  next
    case PProduce
    have "procon_inv (s\<lparr>sem_mutex := sem_mutex s, sem_empty := sem_empty s, sem_full := sem_full s, store := store s,
        threads := (threads s)(t := ?l\<lparr>item := produce_item r, at := PWaitEmpty\<rparr>),
        produced := produce_item r # produced s, consumed := consumed s\<rparr>)"
      by (rule procon_inv_upd [OF inv t]) (use ok PProduce in \<open>auto simp: procon_counts\<close>)
    with step t PProduce show ?thesis by (auto simp: defs)
  next
    case PWaitEmpty
    with step t ok goto [of PWaitMutex "sem_mutex s" "sem_full s" "sem_empty s - 1"] show ?thesis
      by (auto simp: defs split: if_splits)
  next
    case PWaitMutex
    with step t ok goto [of PInsert "sem_mutex s - 1" "sem_full s" "sem_empty s"] show ?thesis
      by (auto simp: defs split: if_splits)
  next
    case PInsert
    with step t procon_insert_step [OF inv t PInsert] show ?thesis by (auto simp: procon_step_def Let_def)
  next
    case PPostMutex
    with step t ok goto [of PPostFull "sem_mutex s + 1" "sem_full s" "sem_empty s"] show ?thesis
      by (auto simp: defs)
  next
    case PPostFull
    with step t ok procon_inv_goto [OF inv t, of PHead "rnd ?l + 1" "sem_mutex s" "sem_full s + 1" "sem_empty s"]
    show ?thesis by (auto simp: defs)
  next
    case CHead
    with step t ok goto [of CWaitFull "sem_mutex s" "sem_full s" "sem_empty s"]
      goto [of CDone "sem_mutex s" "sem_full s" "sem_empty s"] show ?thesis
      by (auto simp: defs split: if_splits)
  next
    case CWaitFull
    with step t ok goto [of CWaitMutex "sem_mutex s" "sem_full s - 1" "sem_empty s"] show ?thesis
      by (auto simp: defs split: if_splits)
  next
    case CWaitMutex
    with step t ok goto [of CRemove "sem_mutex s - 1" "sem_full s" "sem_empty s"] show ?thesis
      by (auto simp: defs split: if_splits)
  next
    case CRemove
    with step t procon_remove_step [OF inv t CRemove] show ?thesis by (auto simp: procon_step_def Let_def)
  next
    case CPostMutex
    with step t ok goto [of CPostEmpty "sem_mutex s + 1" "sem_full s" "sem_empty s"] show ?thesis
      by (auto simp: defs)
  next
    case CPostEmpty
    with step t ok goto [of CConsume "sem_mutex s" "sem_full s" "sem_empty s + 1"] show ?thesis
      by (auto simp: defs)
  next
    case CConsume
    have "procon_inv (s\<lparr>sem_mutex := sem_mutex s, sem_empty := sem_empty s, sem_full := sem_full s, store := store s,
        threads := (threads s)(t := ?l\<lparr>rnd := rnd ?l + 1, at := CHead\<rparr>),
        produced := produced s, consumed := item ?l # consumed s\<rparr>)"
      by (rule procon_inv_upd [OF inv t]) (use ok CConsume in \<open>auto simp: procon_counts\<close>)
    with step t CConsume show ?thesis by (auto simp: defs)
  qed (use step t in \<open>simp_all add: defs\<close>)
qed


lemma procon_inv_main: "procon_inv procon_main"
proof -
  let ?l = "threads procon_main"
  have "crit (at (?l t)) = 0" "uncounted (at (?l t)) = 0" "reserved (at (?l t)) = 0"
    "inserts t (?l t) = 0" "removes t (?l t) = 0" "in_hand (?l t) = {#}" "procon_thread_ok t (?l t)" for t
    by (simp_all add: procon_main_def procon_counts)
  then show ?thesis
    by (simp add: procon_inv_def) (simp add: procon_main_def buffer_items_def buffer_ok_def)
qed

section \<open>Termination and progress\<close>

fun procon_pc_rank :: "procon_pc \<Rightarrow> nat" where
  "procon_pc_rank PHead = 7" | "procon_pc_rank PProduce = 6" | "procon_pc_rank PWaitEmpty = 5"
| "procon_pc_rank PWaitMutex = 4" | "procon_pc_rank PInsert = 3" | "procon_pc_rank PPostMutex = 2"
| "procon_pc_rank PPostFull = 1" | "procon_pc_rank PDone = 0"
| "procon_pc_rank CHead = 7" | "procon_pc_rank CWaitFull = 6" | "procon_pc_rank CWaitMutex = 5"
| "procon_pc_rank CRemove = 4" | "procon_pc_rank CPostMutex = 3" | "procon_pc_rank CPostEmpty = 2"
| "procon_pc_rank CConsume = 1" | "procon_pc_rank CDone = 0"

definition procon_thread_rank :: "procon_thread \<Rightarrow> nat" where
  "procon_thread_rank l = (101 - rnd l) * 8 + procon_pc_rank (at l)"

definition procon_rank :: "procon_state \<Rightarrow> nat" where
  "procon_rank s = (\<Sum>t<4. procon_thread_rank (threads s t))"

lemma procon_step_thread:
  assumes ok: "procon_thread_ok t (threads s t)" and step: "procon_step (t, r) s = Some s'"
  shows "t < 4 \<and> (\<exists>l'. threads s' = (threads s)(t := l') \<and> procon_thread_rank l' < procon_thread_rank (threads s t))"
proof -
  from step have t: "t < 4" by (auto simp: procon_step_def split: if_splits)
  have "at (threads s t) \<in> {PPostFull, CConsume} \<Longrightarrow> 101 - rnd (threads s t) = Suc (101 - Suc (rnd (threads s t)))"
    using ok by (auto simp: procon_thread_ok_def)
  with step t show ?thesis
    by (cases "at (threads s t)")
      (auto simp: procon_step_def Let_def procon_thread_rank_def bind_eq_Some_conv split: if_splits)
qed

lemma procon_rank_step:
  assumes "procon_inv s" "procon_step (t, r) s = Some s'"
  shows "procon_rank s' < procon_rank s"
proof -
  have "t < 4" using assms(2) by (auto simp: procon_step_def split: if_splits)
  then have "procon_thread_ok t (threads s t)" using assms(1) by (simp add: procon_inv_def)
  from procon_step_thread [OF this assms(2)] obtain l' where "t < 4" "threads s' = (threads s)(t := l')"
    "procon_thread_rank l' < procon_thread_rank (threads s t)" by blast
  with sum_upd [of "{..<4}" t "\<lambda>_. procon_thread_rank" "threads s" l'] show ?thesis
    by (simp add: procon_rank_def)
qed

interpretation procon: terminating_system "(=) procon_main" "moves procon_step" procon_inv procon_rank
proof
  show "procon_inv s" if "procon_main = s" for s using that procon_inv_main by simp
  show "procon_inv s'" if "moves procon_step s s'" "procon_inv s" for s s'
    using that procon_inv_step by (auto simp: moves_def)
  show "procon_rank s' < procon_rank s" if "moves procon_step s s'" "procon_inv s" for s s'
    using that procon_rank_step by (auto simp: moves_def)
qed

lemma sum_threads: "(\<Sum>t<4. g (t::nat)) = g 0 + g 1 + g 2 + (g 3 :: nat)"
  by (simp add: numeral_eq_Suc)

lemma less4_cases: "(t::nat) < 4 \<Longrightarrow> t = 0 \<or> t = 1 \<or> t = 2 \<or> t = 3"
  by auto

definition waiting :: "procon_pc \<Rightarrow> bool" where
  "waiting p \<longleftrightarrow> p \<in> {PWaitEmpty, PWaitMutex, CWaitFull, CWaitMutex, PDone, CDone}"

lemma procon_runs:
  assumes inv: "procon_inv s" and t: "t < 4" and "\<not> waiting (at (threads s t))"
  shows "procon_step (t, r) s \<noteq> None"
  using assms(3) t procon_insert_step [OF inv t] procon_remove_step [OF inv t]
  by (cases "at (threads s t)") (auto simp: waiting_def procon_step_def Let_def)

text \<open>When every thread waits or has ended, all have ended.\<close>

lemma procon_progress:
  assumes inv: "procon_inv s" and stuck: "\<forall>t<4. procon_step (t, 0) s = None"
  shows "\<forall>t<4. at (threads s t) \<in> {PDone, CDone}"
proof -
  let ?at = "\<lambda>t. at (threads s t)"
  have wait: "waiting (?at t)" if "t < 4" for t
    by (rule ccontr) (use procon_runs [OF inv that, of 0] stuck that in simp)
  have "crit (?at t) = 0" if "t < 4" for t using wait [OF that] by (auto simp: waiting_def)
  with inv have mutex: "sem_mutex s = 1" by (simp add: procon_inv_def)
  have no_mutex: "?at t \<noteq> PWaitMutex \<and> ?at t \<noteq> CWaitMutex" if "t < 4" for t
    using spec [OF stuck, of t] mutex that by (auto simp: procon_step_def Let_def)
  have zero: "uncounted (?at t) = 0" "reserved (?at t) = 0" if "t < 4" for t
    using wait [OF that] no_mutex [OF that] by (auto simp: waiting_def)
  with inv have cnt: "n_items s = sem_full s" "n_items s + sem_empty s = 100" by (simp_all add: procon_inv_def)
  have blocked: "?at t = PWaitEmpty \<Longrightarrow> sem_empty s = 0" "?at t = CWaitFull \<Longrightarrow> sem_full s = 0" if "t < 4" for t
    using spec [OF stuck, of t] that by (simp_all add: procon_step_def Let_def split: if_splits)
  have ok: "procon_thread_ok t (threads s t)" if "t < 4" for t using inv that by (simp add: procon_inv_def)
  have prod: "inserts t (threads s t) = (if ?at t = PDone then 100 else rnd (threads s t) - 1) \<and>
      rnd (threads s t) \<le> 101 \<and> (?at t = PDone \<or> ?at t = PWaitEmpty \<and> rnd (threads s t) \<le> 100) \<and> removes t (threads s t) = 0"
    if "t < 2" for t
    using ok [of t] wait [of t] no_mutex [of t] that by (cases "?at t") (simp_all add: procon_counts waiting_def)
  have cons: "removes t (threads s t) = (if ?at t = CDone then 100 else rnd (threads s t) - 1) \<and>
      rnd (threads s t) \<le> 101 \<and> (?at t = CDone \<or> ?at t = CWaitFull \<and> rnd (threads s t) \<le> 100) \<and> inserts t (threads s t) = 0"
    if "2 \<le> t" "t < 4" for t
    using ok [of t] wait [of t] no_mutex [of t] that by (cases "?at t") (simp_all add: procon_counts waiting_def)
  have bal: "inserts 0 (threads s 0) + inserts 1 (threads s 1) =
      n_items s + removes 2 (threads s 2) + removes 3 (threads s 3)"
    using inv prod [of 0] prod [of 1] cons [of 2] cons [of 3] by (simp add: procon_inv_def sum_threads)
  have "?at t = CDone" if t: "t = 2 \<or> t = 3" for t
  proof (rule ccontr)
    assume n: "?at t \<noteq> CDone"
    from t have "2 \<le> t" "t < 4" by auto
    with n cons [of t] blocked(2) [of t] have "sem_full s = 0" by blast
    with cnt have "n_items s = 0" "sem_empty s \<noteq> 0" by auto
    moreover from this have "?at 0 = PDone" "?at 1 = PDone"
      using prod [of 0] prod [of 1] blocked(1) [of 0] blocked(1) [of 1] by auto
    ultimately have "removes 2 (threads s 2) + removes 3 (threads s 3) = 200"
      using prod [of 0] prod [of 1] bal by simp
    moreover have "removes t (threads s t) < 100" "removes 2 (threads s 2) \<le> 100" "removes 3 (threads s 3) \<le> 100"
      using cons [of t] cons [of 2] cons [of 3] n \<open>2 \<le> t\<close> \<open>t < 4\<close> by (auto split: if_splits)
    ultimately show False using t by auto
  qed
  then have c: "?at 2 = CDone" "?at 3 = CDone" by blast+
  moreover have "?at t = PDone" if t: "t = 0 \<or> t = 1" for t
  proof (rule ccontr)
    assume n: "?at t \<noteq> PDone"
    have "inserts 0 (threads s 0) \<le> 100" "inserts 1 (threads s 1) \<le> 100" "inserts t (threads s t) < 100"
      using prod [of 0] prod [of 1] prod [of t] n t by (auto split: if_splits)
    with bal cons [of 2] cons [of 3] c t show False by auto
  qed
  ultimately show ?thesis using less4_cases by blast
qed


section \<open>Properties\<close>

text \<open>C26. In every reachable state of the producer-consumer program the buffer index is in range, the
  next insertion or removal of any thread stays inside the buffer, and at most one thread is in the
  critical section.\<close>

theorem procon_safety:
  assumes "reachable ((=) procon_main) (moves procon_step) s" "t < 4"
  shows "buffer_ok (store s)
    \<and> (at (threads s t) = PInsert \<longrightarrow> insert_item (item (threads s t)) (store s) \<noteq> None)
    \<and> (at (threads s t) = CRemove \<longrightarrow> remove_item (store s) \<noteq> None)
    \<and> (\<forall>u<4. crit (at (threads s t)) = 1 \<and> crit (at (threads s u)) = 1 \<longrightarrow> t = u)"
proof -
  have inv: "procon_inv s" using assms(1) by (rule procon.reachable_inv)
  have "t = u" if u: "u < 4" and c: "crit (at (threads s t)) = 1 \<and> crit (at (threads s u)) = 1" for u
  proof (rule ccontr)
    assume "t \<noteq> u"
    with assms(2) u have "crit (at (threads s t)) + crit (at (threads s u)) \<le> (\<Sum>t<4. crit (at (threads s t)))"
      by (intro sum_two_le) auto
    with c inv show False by (simp add: procon_inv_def)
  qed
  with inv procon_insert_step [OF inv assms(2)] procon_remove_step [OF inv assms(2)] show ?thesis
    by (auto simp: procon_inv_def)
qed

text \<open>C8. Every execution of the producer-consumer program has at most 3228 steps, and one that cannot go on
  has ended: all four threads are done, the final count is 0 and the consumed items are the produced
  ones.\<close>

theorem procon_ends:
  assumes "(moves procon_step ^^ n) procon_main s"
  shows "n \<le> 3228 \<and> ((\<forall>t<4. procon_step (t, 0) s = None) \<longrightarrow>
    (\<forall>t<4. at (threads s t) \<in> {PDone, CDone}) \<and> buf_count (store s) = 0 \<and> mset (consumed s) = mset (produced s))"
proof (intro conjI impI)
  have "n \<le> procon_rank procon_main" using assms by (intro procon.bounded_executions) auto
  also have "\<dots> = 3228" by (simp add: procon_rank_def procon_thread_rank_def procon_main_def sum_threads)
  finally show "n \<le> 3228" .
  assume stuck: "\<forall>t<4. procon_step (t, 0) s = None"
  have inv: "procon_inv s" using procon.relpowp_rank [OF assms] procon_inv_main by blast
  from procon_progress [OF inv stuck] have fin: "at (threads s t) \<in> {PDone, CDone}" if "t < 4" for t
    using that by blast
  then show "\<forall>t<4. at (threads s t) \<in> {PDone, CDone}" by blast
  have "inserts t (threads s t) = (if t < 2 then 100 else 0) \<and> removes t (threads s t) = (if t < 2 then 0 else 100)
      \<and> in_hand (threads s t) = {#}" if "t < 4" for t
    using inv fin [OF that] that unfolding procon_inv_def by (auto simp: procon_counts)
  with inv have "buffer_items (store s) = []" and m: "mset (produced s) = mset (buffer_items (store s)) + mset (consumed s)"
    by (simp_all add: procon_inv_def sum_threads)
  then show "buf_count (store s) = 0" "mset (consumed s) = mset (produced s)"
    using inv by (auto simp: procon_inv_def buffer_ok_def buffer_items_def)
qed

theorem procon_safety_witness:
  "\<exists>s. run_schedule procon_step (replicate 6 (0, 300) @ replicate 4 (1, 77)) procon_main = Some s \<and> buffer_ok (store s)"
proof -
  have "run_schedule procon_step (replicate 6 (0, 300) @ replicate 4 (1, 77)) procon_main \<noteq> None" by code_simp
  then obtain s where s: "run_schedule procon_step (replicate 6 (0, 300) @ replicate 4 (1, 77)) procon_main = Some s" by blast
  then have "reachable ((=) procon_main) (moves procon_step) s"
    by (intro run_schedule_reachable [OF reach_start]) auto
  from procon_safety [OF this, of 0] s show ?thesis by simp
qed

theorem procon_ends_witness:
  "\<exists>n s. (moves procon_step ^^ n) procon_main s \<and> (\<forall>t<4. at (threads s t) \<in> {PDone, CDone})
    \<and> buf_count (store s) = 0 \<and> mset (consumed s) = mset (produced s)"
proof -
  from procon.runs_to_end [OF procon_inv_main] obtain n s where
    s: "(moves procon_step ^^ n) procon_main s" "\<nexists>s'. moves procon_step s s'" by blast
  then have "\<forall>t<4. procon_step (t, 0) s = None"
    unfolding moves_def by (metis not_Some_eq)
  with procon_ends [OF s(1)] s(1) show ?thesis by blast
qed

end
