(* ===== verification/ReadWrite.thy ===== *)
theory ReadWrite
  imports Prelude
begin

text \<open>
  \<open>src/hw2/read_write.c\<close>: three readers and three writers over a one-byte database, with a mutex
  for the number of readers and a semaphore \<open>db\<close> that the first reader takes and the last one
  gives back. The loops never end; the theorems are about every reachable state: writers exclude
  everybody else, a value that was read stays current as long as its reader counts, and some thread
  can always move.
\<close>

section \<open>Threads\<close>

text \<open>Program points. The test of \<open>reader_num\<close> is made with the increment or decrement before it:
  both are under \<open>mutex\<close>, where no other thread touches the number.\<close>

datatype rw_pc =
    RWait1 | RInc | RWaitDb | RPost1 | RRead | RWait2 | RDec | RPostDb | RPrint | RPost2 | RSleep
  | WCoin | WWaitDb | WWrite | WPrint | WPostDb | WSleep

record rw_thread =
  rw_at :: rw_pc
  data :: int
  next_ms :: int
  coin :: int

record rw_state =
  rw_mutex :: nat
  db :: nat
  reader_num :: int
  db_file :: int
  rw_threads :: "nat \<Rightarrow> rw_thread"
  rw_output :: "(nat \<times> int) list"

definition rw_id :: "nat \<Rightarrow> int" where
  "rw_id t = [1, 2, 3, 1, 2, 3] ! t"

definition rw_main :: rw_state where
  "rw_main = \<lparr>rw_mutex = 1, db = 1, reader_num = 0, db_file = 0,
     rw_threads = (\<lambda>t. \<lparr>rw_at = (if t < 3 then RWait1 else WCoin), data = 0, next_ms = 0, coin = 0\<rparr>),
     rw_output = []\<rparr>"

text \<open>A step of thread \<open>t\<close>, a reader below 3 and a writer from 3 on; \<open>r\<close> is the result of
  \<open>rand\<close>, if it is called.\<close>

definition rw_step :: "nat \<times> nat \<Rightarrow> rw_state \<Rightarrow> rw_state option" where
  "rw_step tr s = (case tr of (t, r) \<Rightarrow>
     if t \<ge> 6 then None else
     let l = rw_threads s t; upd = (\<lambda>l'. (rw_threads s)(t := l')); goto = (\<lambda>p. upd (l\<lparr>rw_at := p\<rparr>)) in
     case rw_at l of
       RWait1 \<Rightarrow> if rw_mutex s = 0 then None
         else Some (s\<lparr>rw_mutex := rw_mutex s - 1, rw_threads := goto RInc\<rparr>)
     | RInc \<Rightarrow> Some (s\<lparr>reader_num := reader_num s + 1,
         rw_threads := goto (if reader_num s + 1 = 1 then RWaitDb else RPost1)\<rparr>)
     | RWaitDb \<Rightarrow> if db s = 0 then None else Some (s\<lparr>db := db s - 1, rw_threads := goto RPost1\<rparr>)
     | RPost1 \<Rightarrow> Some (s\<lparr>rw_mutex := rw_mutex s + 1, rw_threads := goto RRead\<rparr>)
     | RRead \<Rightarrow> Some (s\<lparr>rw_threads := upd (l\<lparr>data := db_file s, rw_at := RWait2\<rparr>)\<rparr>)
     | RWait2 \<Rightarrow> if rw_mutex s = 0 then None
         else Some (s\<lparr>rw_mutex := rw_mutex s - 1, rw_threads := goto RDec\<rparr>)
     | RDec \<Rightarrow> Some (s\<lparr>reader_num := reader_num s - 1,
         rw_threads := goto (if reader_num s - 1 = 0 then RPostDb else RPrint)\<rparr>)
     | RPostDb \<Rightarrow> Some (s\<lparr>db := db s + 1, rw_threads := goto RPrint\<rparr>)
     | RPrint \<Rightarrow> Some (s\<lparr>rw_threads := goto RPost2, rw_output := (t, data l) # rw_output s\<rparr>)
     | RPost2 \<Rightarrow> Some (s\<lparr>rw_mutex := rw_mutex s + 1, rw_threads := goto RSleep\<rparr>)
     | RSleep \<Rightarrow> Some (s\<lparr>rw_threads := upd (l\<lparr>next_ms := 250 + int r mod (1251 * rw_id t), rw_at := RWait1\<rparr>)\<rparr>)
     | WCoin \<Rightarrow> Some (s\<lparr>rw_threads := upd (l\<lparr>coin := int r mod 2, rw_at := WWaitDb\<rparr>)\<rparr>)
     | WWaitDb \<Rightarrow> if db s = 0 then None else Some (s\<lparr>db := db s - 1, rw_threads := goto WWrite\<rparr>)
     | WWrite \<Rightarrow> Some (s\<lparr>db_file := rw_id t, rw_threads := goto WPrint\<rparr>)
     | WPrint \<Rightarrow> Some (s\<lparr>rw_threads := goto WPostDb, rw_output := (t, rw_id t) # rw_output s\<rparr>)
     | WPostDb \<Rightarrow> Some (s\<lparr>db := db s + 1, rw_threads := goto WSleep\<rparr>)
     | WSleep \<Rightarrow> Some (s\<lparr>rw_threads := goto WCoin\<rparr>))"

section \<open>Invariant\<close>

fun in_mutex :: "rw_pc \<Rightarrow> nat" where
  "in_mutex RInc = 1" | "in_mutex RWaitDb = 1" | "in_mutex RPost1 = 1" | "in_mutex RDec = 1"
| "in_mutex RPostDb = 1" | "in_mutex RPrint = 1" | "in_mutex RPost2 = 1" | "in_mutex _ = 0"

fun counted :: "rw_pc \<Rightarrow> nat" where
  "counted RWaitDb = 1" | "counted RPost1 = 1" | "counted RRead = 1" | "counted RWait2 = 1"
| "counted RDec = 1" | "counted _ = 0"

fun writing :: "rw_pc \<Rightarrow> nat" where
  "writing WWrite = 1" | "writing WPrint = 1" | "writing WPostDb = 1" | "writing _ = 0"

fun acquiring :: "rw_pc \<Rightarrow> nat" where
  "acquiring RWaitDb = 1" | "acquiring _ = 0"

fun releasing :: "rw_pc \<Rightarrow> nat" where
  "releasing RPostDb = 1" | "releasing _ = 0"

definition reader_pcs :: "rw_pc set" where
  "reader_pcs = {RWait1, RInc, RWaitDb, RPost1, RRead, RWait2, RDec, RPostDb, RPrint, RPost2, RSleep}"

definition rw_thread_ok :: "int \<Rightarrow> int \<Rightarrow> nat \<Rightarrow> rw_thread \<Rightarrow> bool" where
  "rw_thread_ok n d t l \<longleftrightarrow> (t < 3 \<longleftrightarrow> rw_at l \<in> reader_pcs) \<and>
     (rw_at l = RWaitDb \<longrightarrow> n = 1) \<and> (rw_at l = RPostDb \<longrightarrow> n = 0) \<and>
     (rw_at l \<in> {RWait2, RDec} \<longrightarrow> data l = d)"

definition rw_inv :: "rw_state \<Rightarrow> bool" where
  "rw_inv s \<longleftrightarrow>
     rw_mutex s + (\<Sum>t<6. in_mutex (rw_at (rw_threads s t))) = 1 \<and>
     reader_num s = int (\<Sum>t<6. counted (rw_at (rw_threads s t))) \<and>
     db s + (\<Sum>t<6. writing (rw_at (rw_threads s t))) + (if reader_num s > 0 then 1 else 0)
       + (\<Sum>t<6. releasing (rw_at (rw_threads s t))) = 1 + (\<Sum>t<6. acquiring (rw_at (rw_threads s t))) \<and>
     (\<forall>t<6. rw_thread_ok (reader_num s) (db_file s) t (rw_threads s t))"

lemma rw_inv_ok: "rw_inv s \<Longrightarrow> t < 6 \<Longrightarrow> rw_thread_ok (reader_num s) (db_file s) t (rw_threads s t)"
  unfolding rw_inv_def by blast

lemma rw_inv_mutex: "rw_inv s \<Longrightarrow> rw_mutex s + (\<Sum>t<6. in_mutex (rw_at (rw_threads s t))) = 1"
  unfolding rw_inv_def by blast

lemma rw_inv_num: "rw_inv s \<Longrightarrow> reader_num s = int (\<Sum>t<6. counted (rw_at (rw_threads s t)))"
  unfolding rw_inv_def by blast

lemma rw_inv_db:
  "rw_inv s \<Longrightarrow> db s + (\<Sum>t<6. writing (rw_at (rw_threads s t))) + (if reader_num s > 0 then 1 else 0)
     + (\<Sum>t<6. releasing (rw_at (rw_threads s t))) = 1 + (\<Sum>t<6. acquiring (rw_at (rw_threads s t)))"
  unfolding rw_inv_def by blast

lemma rw_sum_le:
  assumes "t < 6" shows "g (rw_at (rw_threads s t)) \<le> (\<Sum>t<6. g (rw_at (rw_threads s t)) :: nat)"
  using sum_upd_le [of "{..<6}" t "\<lambda>_ l. g (rw_at l)" "rw_threads s"] assms by simp

lemma rw_sum_two:
  assumes "t < 6" "u < 6" "t \<noteq> u"
  shows "g (rw_at (rw_threads s t)) + g (rw_at (rw_threads s u)) \<le> (\<Sum>t<6. g (rw_at (rw_threads s t)) :: nat)"
  using assms by (intro sum_two_le) auto

lemma acquiring_le: "acquiring p \<le> in_mutex p" "releasing p \<le> in_mutex p" "acquiring p \<le> counted p"
  by (cases p; simp)+

lemma rw_mutex_excl:
  assumes "rw_inv s" "t < 6" "u < 6" "t \<noteq> u" "in_mutex (rw_at (rw_threads s t)) = 1"
  shows "in_mutex (rw_at (rw_threads s u)) = 0"
  using rw_sum_two [OF assms(2-4), of in_mutex s] assms(1,5) by (simp add: rw_inv_def)

text \<open>The semaphore \<open>db\<close> has one token: at most one writer has it, and none while a reader has it.\<close>

abbreviation writers :: "rw_state \<Rightarrow> nat" where
  "writers s \<equiv> \<Sum>t<6. writing (rw_at (rw_threads s t))"

lemma rw_one_writer:
  assumes inv: "rw_inv s"
  shows "writers s \<le> 1"
proof -
  let ?at = "\<lambda>t. rw_at (rw_threads s t)"
  have "(\<Sum>t<6. acquiring (?at t)) \<le> (\<Sum>t<6. counted (?at t))"
    by (intro sum_mono acquiring_le)
  moreover have "(\<Sum>t<6. acquiring (?at t)) \<le> (\<Sum>t<6. in_mutex (?at t))"
    by (intro sum_mono acquiring_le)
  ultimately show ?thesis using rw_inv_db [OF inv] rw_inv_num [OF inv] rw_inv_mutex [OF inv]
    by (cases "reader_num s > 0") (simp_all del: of_nat_sum)
qed

lemma rw_reader_excludes:
  assumes inv: "rw_inv s" and t: "t < 6" "counted (rw_at (rw_threads s t)) = 1" "rw_at (rw_threads s t) \<noteq> RWaitDb"
  shows "writers s = 0"
proof -
  let ?at = "\<lambda>t. rw_at (rw_threads s t)"
  have num: "reader_num s = int (\<Sum>t<6. counted (?at t))" using inv by (rule rw_inv_num)
  have "acquiring (?at v) = 0" if v: "v < 6" for v
  proof (rule ccontr)
    assume "acquiring (?at v) \<noteq> 0"
    then have vat: "?at v = RWaitDb" by (cases "?at v") auto
    moreover have "rw_thread_ok (reader_num s) (db_file s) v (rw_threads s v)"
      using inv v by (rule rw_inv_ok)
    ultimately have "reader_num s = 1" by (simp add: rw_thread_ok_def)
    moreover from vat t(3) have "t \<noteq> v" by auto
    ultimately show False
      using rw_sum_two [OF t(1) v, of counted s] arg_cong [OF vat, of counted] t(2) num
      by (simp del: of_nat_sum)
  qed
  moreover have "reader_num s > 0" using num rw_sum_le [OF t(1), of counted s] t(2) by linarith
  ultimately show ?thesis using rw_inv_db [OF inv] by simp
qed

lemma rw_writes_alone:
  assumes inv: "rw_inv s" and u: "u < 6" "writing (rw_at (rw_threads s u)) = 1" and t: "t < 6"
  shows "rw_at (rw_threads s t) \<notin> {RPost1, RRead, RWait2, RDec}"
    and "t \<noteq> u \<Longrightarrow> writing (rw_at (rw_threads s t)) = 0"
proof -
  have w: "writers s = 1" using rw_one_writer [OF inv] rw_sum_le [OF u(1), of writing s] u(2) by simp
  then show "rw_at (rw_threads s t) \<notin> {RPost1, RRead, RWait2, RDec}"
    using rw_reader_excludes [OF inv t] by auto
  show "writing (rw_at (rw_threads s t)) = 0" if "t \<noteq> u"
    using rw_sum_two [OF t u(1) that, of writing s] w u(2) by simp
qed

lemma rw_inv_upd:
  assumes inv: "rw_inv s" and t: "t < 6" and ok: "rw_thread_ok n' d' t l'"
    and mutex: "m' + in_mutex (rw_at l') = rw_mutex s + in_mutex (rw_at (rw_threads s t))"
    and num: "n' + int (counted (rw_at (rw_threads s t))) = reader_num s + int (counted (rw_at l'))"
    and tok: "b' + writing (rw_at l') + (if n' > 0 then 1 else 0) + releasing (rw_at l') + acquiring (rw_at (rw_threads s t)) =
      db s + writing (rw_at (rw_threads s t)) + (if reader_num s > 0 then 1 else 0) + releasing (rw_at (rw_threads s t))
        + acquiring (rw_at l')"
    and n': "n' = reader_num s \<or> in_mutex (rw_at (rw_threads s t)) = 1"
    and d': "d' = db_file s \<or> writing (rw_at (rw_threads s t)) = 1"
  shows "rw_inv (s\<lparr>rw_mutex := m', db := b', reader_num := n', db_file := d',
    rw_threads := (rw_threads s)(t := l'), rw_output := o'\<rparr>)"
proof -
  let ?th = "(rw_threads s)(t := l')"
  have upd: "(\<Sum>u<6. g (rw_at (?th u))) + g (rw_at (rw_threads s t)) = (\<Sum>u<6. g (rw_at (rw_threads s u))) + g (rw_at l')"
    for g :: "rw_pc \<Rightarrow> nat"
    using t sum_upd [of "{..<6}" t "\<lambda>_ l. g (rw_at l)"] by simp
  have "rw_thread_ok n' d' u (?th u)" if u: "u < 6" for u
  proof (cases "u = t")
    case False
    have old: "rw_thread_ok (reader_num s) (db_file s) u (rw_threads s u)"
      using inv u by (rule rw_inv_ok)
    moreover have "n' = reader_num s" if "rw_at (rw_threads s u) \<in> {RWaitDb, RPostDb}"
      using n' rw_mutex_excl [OF inv t u] False that by auto
    moreover have "d' = db_file s" if "rw_at (rw_threads s u) \<in> {RWait2, RDec}"
      using d' rw_writes_alone(1) [OF inv t _ u] that by auto
    ultimately show ?thesis using False by (auto simp: rw_thread_ok_def)
  qed (use ok in simp)
  moreover have "m' + (\<Sum>t<6. in_mutex (rw_at (?th t))) = 1"
    using inv mutex upd [of in_mutex] unfolding rw_inv_def by linarith
  moreover have "n' = int (\<Sum>t<6. counted (rw_at (?th t)))"
    using inv num upd [of counted] unfolding rw_inv_def by linarith
  moreover have "b' + (\<Sum>t<6. writing (rw_at (?th t))) + (if n' > 0 then 1 else 0)
       + (\<Sum>t<6. releasing (rw_at (?th t))) = 1 + (\<Sum>t<6. acquiring (rw_at (?th t)))"
    using inv tok upd [of writing] upd [of releasing] upd [of acquiring] unfolding rw_inv_def by linarith
  ultimately show ?thesis by (simp add: rw_inv_def)
qed

lemma rw_counted_pos:
  "rw_inv s \<Longrightarrow> t < 6 \<Longrightarrow> int (counted (rw_at (rw_threads s t))) \<le> reader_num s"
  using rw_sum_le [of t counted s] rw_inv_num [of s] by linarith

lemma rw_inv_step:
  assumes inv: "rw_inv s" and step: "rw_step (t, r) s = Some s'"
  shows "rw_inv s'"
proof -
  from step have t: "t < 6" by (auto simp: rw_step_def split: if_splits)
  let ?l = "rw_threads s t"
  have ok: "rw_thread_ok (reader_num s) (db_file s) t ?l" using inv t by (rule rw_inv_ok)
  have pos: "0 \<le> reader_num s" "int (counted (rw_at ?l)) \<le> reader_num s"
    using rw_inv_num [OF inv] rw_counted_pos [OF inv t] by linarith+
  note defs = rw_step_def Let_def rw_thread_ok_def reader_pcs_def
  note upd = rw_inv_upd [OF inv t]
  show ?thesis
  proof (cases "rw_at ?l")
    case RWait1
    with step t ok pos upd [of "reader_num s" "db_file s" "?l\<lparr>rw_at := RInc\<rparr>" "rw_mutex s - 1" "db s" "rw_output s"]
    show ?thesis by (auto simp: defs split: if_splits)
  next
    case RInc
    with step t ok pos upd [of "reader_num s + 1" "db_file s" "?l\<lparr>rw_at := RWaitDb\<rparr>" "rw_mutex s" "db s" "rw_output s"]
      upd [of "reader_num s + 1" "db_file s" "?l\<lparr>rw_at := RPost1\<rparr>" "rw_mutex s" "db s" "rw_output s"]
    show ?thesis by (auto simp: defs split: if_splits)
  next
    case RWaitDb
    with step t have s': "db s \<noteq> 0 \<and> s' = s\<lparr>db := db s - 1, rw_threads := (rw_threads s)(t := ?l\<lparr>rw_at := RPost1\<rparr>)\<rparr>"
      by (auto simp: defs split: if_splits)
    have "rw_inv (s\<lparr>rw_mutex := rw_mutex s, db := db s - 1, reader_num := reader_num s, db_file := db_file s,
        rw_threads := (rw_threads s)(t := ?l\<lparr>rw_at := RPost1\<rparr>), rw_output := rw_output s\<rparr>)"
      by (rule upd) (use RWaitDb ok pos s' in \<open>auto simp: defs\<close>)
    then show ?thesis using s' by simp
  next
    case RPost1
    with step t ok pos upd [of "reader_num s" "db_file s" "?l\<lparr>rw_at := RRead\<rparr>" "rw_mutex s + 1" "db s" "rw_output s"]
    show ?thesis by (auto simp: defs split: if_splits)
  next
    case RRead
    with step t ok pos upd [of "reader_num s" "db_file s" "?l\<lparr>data := db_file s, rw_at := RWait2\<rparr>" "rw_mutex s" "db s" "rw_output s"]
    show ?thesis by (auto simp: defs split: if_splits)
  next
    case RWait2
    with step t ok pos upd [of "reader_num s" "db_file s" "?l\<lparr>rw_at := RDec\<rparr>" "rw_mutex s - 1" "db s" "rw_output s"]
    show ?thesis by (auto simp: defs split: if_splits)
  next
    case RDec
    with step t ok pos upd [of "reader_num s - 1" "db_file s" "?l\<lparr>rw_at := RPostDb\<rparr>" "rw_mutex s" "db s" "rw_output s"]
      upd [of "reader_num s - 1" "db_file s" "?l\<lparr>rw_at := RPrint\<rparr>" "rw_mutex s" "db s" "rw_output s"]
    show ?thesis by (auto simp: defs split: if_splits)
  next
    case RPostDb
    with step t have s': "s' = s\<lparr>db := db s + 1, rw_threads := (rw_threads s)(t := ?l\<lparr>rw_at := RPrint\<rparr>)\<rparr>"
      by (auto simp: defs split: if_splits)
    have "rw_inv (s\<lparr>rw_mutex := rw_mutex s, db := db s + 1, reader_num := reader_num s, db_file := db_file s,
        rw_threads := (rw_threads s)(t := ?l\<lparr>rw_at := RPrint\<rparr>), rw_output := rw_output s\<rparr>)"
      by (rule upd) (use RPostDb ok pos s' in \<open>auto simp: defs\<close>)
    then show ?thesis using s' by simp
  next
    case RPrint
    with step t ok pos upd [of "reader_num s" "db_file s" "?l\<lparr>rw_at := RPost2\<rparr>" "rw_mutex s" "db s" "(t, data ?l) # rw_output s"]
    show ?thesis by (auto simp: defs split: if_splits)
  next
    case RPost2
    with step t ok pos upd [of "reader_num s" "db_file s" "?l\<lparr>rw_at := RSleep\<rparr>" "rw_mutex s + 1" "db s" "rw_output s"]
    show ?thesis by (auto simp: defs split: if_splits)
  next
    case RSleep
    with step t ok pos upd [of "reader_num s" "db_file s" "?l\<lparr>next_ms := 250 + int r mod (1251 * rw_id t), rw_at := RWait1\<rparr>" "rw_mutex s" "db s" "rw_output s"]
    show ?thesis by (auto simp: defs split: if_splits)
  next
    case WCoin
    with step t ok pos upd [of "reader_num s" "db_file s" "?l\<lparr>coin := int r mod 2, rw_at := WWaitDb\<rparr>" "rw_mutex s" "db s" "rw_output s"]
    show ?thesis by (auto simp: defs split: if_splits)
  next
    case WWaitDb
    with step t ok pos upd [of "reader_num s" "db_file s" "?l\<lparr>rw_at := WWrite\<rparr>" "rw_mutex s" "db s - 1" "rw_output s"]
    show ?thesis by (auto simp: defs split: if_splits)
  next
    case WWrite
    with step t ok pos upd [of "reader_num s" "rw_id t" "?l\<lparr>rw_at := WPrint\<rparr>" "rw_mutex s" "db s" "rw_output s"]
    show ?thesis by (auto simp: defs split: if_splits)
  next
    case WPrint
    with step t ok pos upd [of "reader_num s" "db_file s" "?l\<lparr>rw_at := WPostDb\<rparr>" "rw_mutex s" "db s" "(t, rw_id t) # rw_output s"]
    show ?thesis by (auto simp: defs split: if_splits)
  next
    case WPostDb
    with step t ok pos upd [of "reader_num s" "db_file s" "?l\<lparr>rw_at := WSleep\<rparr>" "rw_mutex s" "db s + 1" "rw_output s"]
    show ?thesis by (auto simp: defs split: if_splits)
  next
    case WSleep
    with step t ok pos upd [of "reader_num s" "db_file s" "?l\<lparr>rw_at := WCoin\<rparr>" "rw_mutex s" "db s" "rw_output s"]
    show ?thesis by (auto simp: defs split: if_splits)
  qed
qed


lemma rw_inv_main: "rw_inv rw_main"
proof -
  let ?l = "rw_threads rw_main"
  have "in_mutex (rw_at (?l t)) = 0" "counted (rw_at (?l t)) = 0" "writing (rw_at (?l t)) = 0"
    "releasing (rw_at (?l t)) = 0" "acquiring (rw_at (?l t)) = 0" "rw_thread_ok n d t (?l t)" for t n d
    by (simp_all add: rw_main_def rw_thread_ok_def reader_pcs_def)
  then show ?thesis by (simp add: rw_inv_def) (simp add: rw_main_def)
qed

interpretation rw: inductive_invariant "(=) rw_main" "moves rw_step" rw_inv
proof
  show "rw_inv s" if "rw_main = s" for s using that rw_inv_main by simp
  show "rw_inv s'" if "moves rw_step s s'" "rw_inv s" for s s'
    using that rw_inv_step by (auto simp: moves_def)
qed

section \<open>Properties\<close>

text \<open>C22. Readers and writers: in every reachable state, while a writer is between its wait and its post on
  \<open>db\<close> no other writer is, and no reader is between acquiring and giving back the database.\<close>

theorem rw_exclusion:
  assumes "reachable ((=) rw_main) (moves rw_step) s"
    and "u < 6" "rw_at (rw_threads s u) \<in> {WWrite, WPrint, WPostDb}" "t < 6" "t \<noteq> u"
  shows "rw_at (rw_threads s t) \<notin> {RPost1, RRead, RWait2, RDec, WWrite, WPrint, WPostDb}"
proof -
  have inv: "rw_inv s" using assms(1) by (rule rw.reachable_inv)
  have "writing (rw_at (rw_threads s u)) = 1" using assms(3) by auto
  from rw_writes_alone [OF inv assms(2) this assms(4)] assms(5) show ?thesis by auto
qed

text \<open>What a reader has read is still the content of the database when it comes back to the mutex, and
  until it has given up its place among the readers.\<close>

theorem rw_stable_read:
  assumes "reachable ((=) rw_main) (moves rw_step) s" "t < 6" "rw_at (rw_threads s t) \<in> {RWait2, RDec}"
  shows "data (rw_threads s t) = db_file s \<and> 0 < reader_num s"
proof -
  have inv: "rw_inv s" using assms(1) by (rule rw.reachable_inv)
  with rw_inv_ok [OF inv assms(2)] rw_counted_pos [OF inv assms(2)] assms(3) show ?thesis
    by (auto simp: rw_thread_ok_def)
qed

text \<open>C37. No deadlock: in every reachable state some thread of the readers-writers program can move.\<close>

theorem rw_no_deadlock:
  assumes "reachable ((=) rw_main) (moves rw_step) s"
  shows "\<exists>t<6. rw_step (t, 0) s \<noteq> None"
proof -
  let ?at = "\<lambda>t. rw_at (rw_threads s t)"
  have inv: "rw_inv s" using assms by (rule rw.reachable_inv)
  have reader: "?at 0 \<in> reader_pcs" using rw_inv_ok [OF inv, of 0] by (simp add: rw_thread_ok_def)
  have free: "rw_step (t, 0) s \<noteq> None" if "t < 6" "?at t \<notin> {RWait1, RWait2, RWaitDb, WWaitDb}" for t
    using that by (cases "?at t") (simp_all add: rw_step_def Let_def)
  show ?thesis
  proof (cases "rw_mutex s = 0")
    case False
    then have "rw_step (0, 0) s \<noteq> None" if "?at 0 \<in> {RWait1, RWait2}" using that by (auto simp: rw_step_def Let_def)
    moreover have "?at 0 \<noteq> RWaitDb" using rw_sum_le [of 0 in_mutex s] rw_inv_mutex [OF inv] False by auto
    ultimately have "rw_step (0, 0) s \<noteq> None" using free [of 0] reader by (auto simp: reader_pcs_def)
    then show ?thesis by (intro exI [of _ 0]) simp
  next
    case True
    with rw_inv_mutex [OF inv] have "(\<Sum>t<6. in_mutex (?at t)) \<noteq> 0" by simp
    then obtain t where t: "t < 6" "in_mutex (?at t) \<noteq> 0" by (auto intro: sum.neutral)
    show ?thesis
    proof (cases "?at t = RWaitDb")
      case False
      with t free [of t] have "rw_step (t, 0) s \<noteq> None" by (cases "?at t") auto
      with t(1) show ?thesis by blast
    next
      case wait: True
      show ?thesis
      proof (cases "db s = 0")
        case False
        with wait t(1) have "rw_step (t, 0) s \<noteq> None" by (simp add: rw_step_def Let_def)
        with t(1) show ?thesis by blast
      next
        case True
        have n: "reader_num s = 1" using rw_inv_ok [OF inv t(1)] wait by (simp add: rw_thread_ok_def)
        have "releasing (?at v) = 0" if "v < 6" for v
          using rw_inv_ok [OF inv that] n by (cases "?at v") (simp_all add: rw_thread_ok_def)
        then have "(\<Sum>t<6. releasing (?at t)) = 0" by simp
        moreover have "1 \<le> (\<Sum>t<6. acquiring (?at t))" using rw_sum_le [OF t(1), of acquiring s] wait by simp
        ultimately have "writers s \<noteq> 0" using rw_inv_db [OF inv] True n
          by (simp del: sum_eq_0_iff)
        then obtain u where u: "u < 6" "writing (?at u) \<noteq> 0" by (auto intro: sum.neutral)
        then have "rw_step (u, 0) s \<noteq> None" using free [of u] by (cases "?at u") auto
        with u(1) show ?thesis by blast
      qed
    qed
  qed
qed

text \<open>The pause of a reader is at least 250 ms and below \<open>250 + 1251 * id\<close> ms; for the readers 2 and
  3 it can exceed the 2000 ms that the comment gives as its bound.\<close>

lemma reader_pause:
  "(\<forall>t r s s'. t < 3 \<and> rw_at (rw_threads s t) = RSleep \<and> rw_step (t, r) s = Some s' \<longrightarrow>
      250 \<le> next_ms (rw_threads s' t) \<and> next_ms (rw_threads s' t) < 250 + 1251 * (int t + 1))
   \<and> (\<exists>r s s'. rw_at (rw_threads s 2) = RSleep \<and> rw_step (2, r) s = Some s' \<and> next_ms (rw_threads s' 2) = 4002)"
proof (intro conjI allI impI)
  fix t r s s'
  assume a: "t < 3 \<and> rw_at (rw_threads s t) = RSleep \<and> rw_step (t, r) s = Some s'"
  then have "next_ms (rw_threads s' t) = 250 + int r mod (1251 * rw_id t)"
    by (auto simp: rw_step_def Let_def)
  moreover have "rw_id t = int t + 1" using a by (cases "t = 0 \<or> t = 1 \<or> t = 2") (auto simp: rw_id_def)
  moreover have "0 \<le> int r mod (1251 * (int t + 1))" "int r mod (1251 * (int t + 1)) < 1251 * (int t + 1)"
    by simp_all
  ultimately show "250 \<le> next_ms (rw_threads s' t)" "next_ms (rw_threads s' t) < 250 + 1251 * (int t + 1)"
    by (simp_all add: algebra_simps)
next
  let ?s = "rw_main\<lparr>rw_threads := (\<lambda>_. \<lparr>rw_at = RSleep, data = 0, next_ms = 0, coin = 0\<rparr>)\<rparr>"
  have "rw_at (rw_threads ?s 2) = RSleep \<and> (\<exists>s'. rw_step (2, 3752) ?s = Some s' \<and> next_ms (rw_threads s' 2) = 4002)"
    by (simp add: rw_step_def rw_id_def)
  then show "\<exists>r s s'. rw_at (rw_threads s 2) = RSleep \<and> rw_step (2, r) s = Some s' \<and> next_ms (rw_threads s' 2) = 4002"
    by blast
qed


theorem rw_exclusion_witness:
  "\<exists>s. run_schedule rw_step [(0, 0), (0, 0), (3, 1), (3, 0)] rw_main = Some s \<and> rw_at (rw_threads s 3) = WWrite
    \<and> rw_at (rw_threads s 0) \<notin> {RPost1, RRead, RWait2, RDec, WWrite, WPrint, WPostDb}"
proof -
  have "map_option (\<lambda>s. rw_at (rw_threads s 3)) (run_schedule rw_step [(0, 0), (0, 0), (3, 1), (3, 0)] rw_main) = Some WWrite"
    by code_simp
  then obtain s where s: "run_schedule rw_step [(0, 0), (0, 0), (3, 1), (3, 0)] rw_main = Some s"
    "rw_at (rw_threads s 3) = WWrite" by blast
  have "reachable ((=) rw_main) (moves rw_step) s" by (rule run_schedule_reachable [OF reach_start s(1)]) simp
  from rw_exclusion [OF this, of 3 0] s show ?thesis by auto
qed

theorem rw_stable_read_witness:
  "\<exists>s. run_schedule rw_step (replicate 5 (3, 0) @ replicate 5 (0, 0)) rw_main = Some s \<and>
    data (rw_threads s 0) = db_file s"
proof -
  have "map_option (\<lambda>s. rw_at (rw_threads s 0)) (run_schedule rw_step (replicate 5 (3, 0) @ replicate 5 (0, 0)) rw_main) = Some RWait2"
    by code_simp
  then obtain s where s: "run_schedule rw_step (replicate 5 (3, 0) @ replicate 5 (0, 0)) rw_main = Some s"
    "rw_at (rw_threads s 0) = RWait2" by blast
  have "reachable ((=) rw_main) (moves rw_step) s" by (rule run_schedule_reachable [OF reach_start s(1)]) simp
  from rw_stable_read [OF this, of 0] s show ?thesis by auto
qed

theorem rw_no_deadlock_witness: "\<exists>t<6. rw_step (t, 0) rw_main \<noteq> None"
  by (rule rw_no_deadlock) (rule reach_start, rule refl)

definition rw_sleeping :: rw_state where
  "rw_sleeping = rw_main\<lparr>rw_threads := (\<lambda>_. \<lparr>rw_at = RSleep, data = 0, next_ms = 0, coin = 0\<rparr>)\<rparr>"

theorem reader_pause_witness:
  "\<exists>s'. rw_step (1, 9) rw_sleeping = Some s' \<and> next_ms (rw_threads s' 1) < 250 + 1251 * 2"
proof -
  have a: "rw_at (rw_threads rw_sleeping 1) = RSleep" "rw_step (1, 9) rw_sleeping \<noteq> None"
    by (simp_all add: rw_sleeping_def rw_step_def)
  then obtain s' where s': "rw_step (1, 9) rw_sleeping = Some s'" by blast
  have "next_ms (rw_threads s' 1) < 250 + 1251 * (int 1 + 1)"
    using conjunct1 [OF reader_pause, rule_format, of 1 rw_sleeping 9 s'] a s' by simp
  with s' show ?thesis by simp
qed

end
