(* ===== verification/BbfsCrypt.thy ===== *)
theory BbfsCrypt
  imports Prelude
begin

unbundle bit_operations_syntax

text \<open>
  The policy file and the byte cipher of \<open>src/project4/bbfs.c\<close>: \<open>loadPolicyFromFile\<close>, which sets
  the encryption parameters and the cache policy from the three numbers of \<open>ee516.conf\<close>, and
  \<open>applyBitshift\<close> with the addition before or after it, which \<open>bb_write\<close> and \<open>bb_read\<close>
  apply to every byte. The theorems: what policies can be loaded, and that decryption undoes encryption.
\<close>

type_synonym byte = "8 word"

section \<open>The policy file\<close>

record policy =
  encryptEnabled :: int
  forAddition :: nat
  forShift :: nat
  cachePolicy :: int

text \<open>The conversion \<open>%d\<close> of \<open>fscanf\<close>: white space, an optional sign, digits.\<close>

definition is_space :: "char \<Rightarrow> bool" where
  "is_space c \<longleftrightarrow> c \<in> {CHR '' '', CHR 0x09, CHR 0x0A, CHR 0x0B, CHR 0x0C, CHR 0x0D}"

definition is_digit :: "char \<Rightarrow> bool" where
  "is_digit c \<longleftrightarrow> 48 \<le> (of_char c :: nat) \<and> (of_char c :: nat) \<le> 57"

definition digit_value :: "char \<Rightarrow> int" where
  "digit_value c = int (of_char c) - 48"

definition number_value :: "string \<Rightarrow> int" where
  "number_value ds = foldl (\<lambda>n d. 10 * n + digit_value d) 0 ds"

definition scan_int :: "string \<Rightarrow> (int \<times> string) option" where
  "scan_int s =
     (let s = dropWhile is_space s;
          neg = (s \<noteq> [] \<and> hd s = CHR ''-'');
          s = (if s \<noteq> [] \<and> hd s \<in> {CHR ''-'', CHR ''+''} then tl s else s);
          ds = takeWhile is_digit s
      in if ds = [] then None
         else Some (if neg then - number_value ds else number_value ds, dropWhile is_digit s))"

text \<open>\<open>fscanf (fp, "%d%d%d", ...)\<close> stores what it can convert and leaves the other variables alone.\<close>

definition scan_policy :: "string \<Rightarrow> int \<times> int \<times> int \<Rightarrow> int \<times> int \<times> int" where
  "scan_policy s vs = (case vs of (a, b, c) \<Rightarrow>
     case scan_int s of None \<Rightarrow> (a, b, c)
     | Some (a', s1) \<Rightarrow> (case scan_int s1 of None \<Rightarrow> (a', b, c)
       | Some (b', s2) \<Rightarrow> (case scan_int s2 of None \<Rightarrow> (a', b', c)
         | Some (c', s3) \<Rightarrow> (a', b', c'))))"

text \<open>The argument is the content of the policy file, \<open>None\<close> when it cannot be opened.\<close>

definition loadPolicyFromFile :: "string option \<Rightarrow> policy \<Rightarrow> policy" where
  "loadPolicyFromFile conf p =
     (case conf of
        None \<Rightarrow> p
      | Some text \<Rightarrow>
          let (firstValue, secondValue, thirdValue) = scan_policy text (-1, -1, -1) in
          if firstValue \<ge> 0 \<and> secondValue \<ge> 0 \<and> thirdValue \<ge> 0 then
            let p = (if firstValue = 0 \<and> secondValue = 0 then p\<lparr>encryptEnabled := 0\<rparr>
                     else p\<lparr>encryptEnabled := 1, forAddition := nat firstValue, forShift := nat secondValue\<rparr>)
            in (if thirdValue > 2 then p\<lparr>cachePolicy := 0\<rparr> else p\<lparr>cachePolicy := thirdValue\<rparr>)
          else p)"

definition policy_boot :: policy where
  "policy_boot = \<lparr>encryptEnabled = 0, forAddition = 0, forShift = 0, cachePolicy = 0\<rparr>"

definition policy_ok :: "policy \<Rightarrow> bool" where
  "policy_ok p \<longleftrightarrow> encryptEnabled p \<in> {0, 1} \<and> cachePolicy p \<in> {0, 1, 2}"

lemma load_policy_ok: "policy_ok p \<Longrightarrow> policy_ok (loadPolicyFromFile conf p)"
  by (auto simp: policy_ok_def loadPolicyFromFile_def Let_def split: option.splits prod.splits if_splits)

section \<open>The cipher\<close>

text \<open>The shifts are made on the byte promoted to \<open>int\<close>, and the result is cut to a byte.\<close>

definition applyBitshift :: "byte \<Rightarrow> int \<Rightarrow> nat \<Rightarrow> nat \<Rightarrow> byte" where
  "applyBitshift target direction shift sz =
     (let modres = shift mod sz; t = (ucast target :: 32 word) in
      if direction > 0 then ucast (drop_bit modres t OR push_bit (8 - modres) t)
      else ucast (push_bit modres t OR drop_bit (8 - modres) t))"

text \<open>The loops of \<open>bb_write\<close> (addition, then a rotation to the right) and of \<open>bb_read\<close> (a
  rotation to the left, then the subtraction), each over the whole buffer.\<close>

definition encrypt_buffer :: "policy \<Rightarrow> byte list \<Rightarrow> byte list" where
  "encrypt_buffer p bs =
     (if encryptEnabled p = 1
      then map (\<lambda>b. applyBitshift b 1 (forShift p) 8) (map (\<lambda>b. b + of_nat (forAddition p)) bs)
      else bs)"

definition decrypt_buffer :: "policy \<Rightarrow> byte list \<Rightarrow> byte list" where
  "decrypt_buffer p bs =
     (if encryptEnabled p = 1
      then map (\<lambda>b. b - of_nat (forAddition p)) (map (\<lambda>b. applyBitshift b (-1) (forShift p) 8) bs)
      else bs)"

lemma bit_right:
  "n < 8 \<Longrightarrow> m < 8 \<Longrightarrow> d > 0 \<Longrightarrow> bit (applyBitshift b d m 8) n = bit b ((m + n) mod 8)"
  by (auto simp: applyBitshift_def Let_def bit_simps mod_if not_le add.commute dest: bit_imp_le_length)

lemma bit_left:
  "n < 8 \<Longrightarrow> m < 8 \<Longrightarrow> d \<le> 0 \<Longrightarrow> bit (applyBitshift b d m 8) n = bit b ((n + (8 - m)) mod 8)"
  by (auto simp: applyBitshift_def Let_def bit_simps mod_if not_le add.commute dest: bit_imp_le_length)

lemma shift_mod: "applyBitshift b d s 8 = applyBitshift b d (s mod 8) 8"
  by (simp add: applyBitshift_def)

text \<open>The two directions are rotations of the byte, and undo each other.\<close>

lemma rotate_inverse:
  "applyBitshift (applyBitshift b 1 s 8) (-1) s 8 = b" "applyBitshift (applyBitshift b (-1) s 8) 1 s 8 = b"
proof -
  define m where "m = s mod 8"
  then have m: "m < 8" by simp
  have neg: "(-1 :: int) \<le> 0" by simp
  have idx: "(m + (n + (8 - m)) mod 8) mod 8 = n" "((m + n) mod 8 + (8 - m)) mod 8 = n" if "n < 8" for n
  proof -
    have "(m + (n + (8 - m))) mod 8 = n" using that m by simp
    then show "(m + (n + (8 - m)) mod 8) mod 8 = n" by (simp only: mod_add_right_eq)
    have "((m + n) + (8 - m)) mod 8 = n" using that m by simp
    then show "((m + n) mod 8 + (8 - m)) mod 8 = n" by (simp only: mod_add_left_eq)
  qed
  have "applyBitshift (applyBitshift b 1 m 8) (-1) m 8 = b"
  proof (rule bit_word_eqI)
    fix n assume "n < LENGTH(8)"
    then have n: "n < 8" by simp
    have "bit (applyBitshift (applyBitshift b 1 m 8) (-1) m 8) n = bit b ((m + (n + (8 - m)) mod 8) mod 8)"
      unfolding bit_left [OF n m neg] by (rule bit_right) (use m in simp_all)
    then show "bit (applyBitshift (applyBitshift b 1 m 8) (-1) m 8) n = bit b n" by (simp only: idx [OF n])
  qed
  then show "applyBitshift (applyBitshift b 1 s 8) (-1) s 8 = b" using shift_mod [of _ _ s] by (metis m_def)
  have "applyBitshift (applyBitshift b (-1) m 8) 1 m 8 = b"
  proof (rule bit_word_eqI)
    fix n assume "n < LENGTH(8)"
    then have n: "n < 8" by simp
    have "bit (applyBitshift (applyBitshift b (-1) m 8) 1 m 8) n = bit b (((m + n) mod 8 + (8 - m)) mod 8)"
      unfolding bit_right [OF n m zero_less_one] by (rule bit_left) (use m in simp_all)
    then show "bit (applyBitshift (applyBitshift b (-1) m 8) 1 m 8) n = bit b n" by (simp only: idx [OF n])
  qed
  then show "applyBitshift (applyBitshift b (-1) s 8) 1 s 8 = b" using shift_mod [of _ _ s] by (metis m_def)
qed

lemma decrypt_encrypt: "decrypt_buffer p (encrypt_buffer p bs) = bs"
  by (simp add: decrypt_buffer_def encrypt_buffer_def rotate_inverse comp_def)

lemma encrypt_decrypt: "encrypt_buffer p (decrypt_buffer p bs) = bs"
  by (simp add: decrypt_buffer_def encrypt_buffer_def rotate_inverse comp_def)

lemma length_crypt [simp]: "length (encrypt_buffer p bs) = length bs" "length (decrypt_buffer p bs) = length bs"
  by (simp_all add: encrypt_buffer_def decrypt_buffer_def)

section \<open>Properties\<close>

text \<open>C35. The cipher of the file system is lossless: for every policy, whatever its addition and shift,
  decryption undoes encryption and encryption undoes decryption, byte for byte.\<close>

theorem cipher_roundtrip:
  "decrypt_buffer p (encrypt_buffer p bs) = bs \<and> encrypt_buffer p (decrypt_buffer p bs) = bs
   \<and> length (encrypt_buffer p bs) = length bs"
  by (simp add: decrypt_encrypt encrypt_decrypt)

lemma scan_int_digits:
  assumes "\<forall>d \<in> set ds. is_digit d" "ds \<noteq> []" "rest = [] \<or> \<not> is_digit (hd rest)" "\<forall>c \<in> set sp. is_space c"
  shows "scan_int (sp @ ds @ rest) = Some (number_value ds, rest)"
proof -
  have space: "\<not> is_space (hd ds)" "hd ds \<noteq> CHR ''-''" "hd ds \<noteq> CHR ''+''"
    using assms(1,2) by (cases ds; auto simp: is_digit_def is_space_def)+
  have 1: "dropWhile is_space (sp @ ds @ rest) = ds @ rest"
    using assms(2,4) space(1) by (cases ds) (simp_all add: dropWhile_append2)
  have "takeWhile is_digit rest = []" "dropWhile is_digit rest = rest" using assms(3) by (cases rest; auto)+
  then have 2: "takeWhile is_digit (ds @ rest) = ds" "dropWhile is_digit (ds @ rest) = rest"
    using assms(1) by (simp_all add: takeWhile_append2 dropWhile_append2)
  have "hd (ds @ rest) = hd ds" "ds @ rest \<noteq> []" using assms(2) by simp_all
  then show ?thesis unfolding scan_int_def 1 Let_def using space(2,3) assms(2) 2 by simp
qed

lemma number_value_nonneg: "\<forall>d \<in> set ds. is_digit d \<Longrightarrow> 0 \<le> number_value ds"
proof -
  have "0 \<le> n \<Longrightarrow> \<forall>d \<in> set ds. is_digit d \<Longrightarrow> 0 \<le> foldl (\<lambda>n d. 10 * n + digit_value d) n ds" for n
    by (induction ds arbitrary: n) (auto simp: digit_value_def is_digit_def)
  then show "\<forall>d \<in> set ds. is_digit d \<Longrightarrow> 0 \<le> number_value ds" by (simp add: number_value_def)
qed

text \<open>A policy file with three decimal numbers separated by blanks sets the addition, the shift and the
  cache policy to them: encryption is on unless the first two are both 0, and a cache policy above 2
  means no cache. A missing file, or one whose first three numbers are not there, changes nothing.\<close>

lemma policy_file_loaded:
  assumes "\<forall>d \<in> set (a @ b @ c). is_digit d" "a \<noteq> []" "b \<noteq> []" "c \<noteq> []"
  shows "loadPolicyFromFile (Some (a @ '' '' @ b @ '' '' @ c)) p =
      p\<lparr>encryptEnabled := (if number_value a = 0 \<and> number_value b = 0 then 0 else 1),
        forAddition := (if number_value a = 0 \<and> number_value b = 0 then forAddition p else nat (number_value a)),
        forShift := (if number_value a = 0 \<and> number_value b = 0 then forShift p else nat (number_value b)),
        cachePolicy := (if number_value c > 2 then 0 else number_value c)\<rparr>
    \<and> loadPolicyFromFile None p = p \<and> loadPolicyFromFile (Some (a @ '' '' @ b)) p = p"
proof -
  have sp: "\<not> is_digit (CHR '' '')" "is_space (CHR '' '')" by (simp_all add: is_digit_def is_space_def)
  have 1: "scan_int (a @ '' '' @ r) = Some (number_value a, '' '' @ r)" for r
    using scan_int_digits [of a "'' '' @ r" "[]"] assms sp by simp
  have 2: "scan_int ('' '' @ b @ '' '' @ c) = Some (number_value b, '' '' @ c)"
    using scan_int_digits [of b "'' '' @ c" "'' ''"] assms sp by simp
  have 3: "scan_int ('' '' @ c) = Some (number_value c, [])" "scan_int ('' '' @ b) = Some (number_value b, [])"
    using scan_int_digits [of c "[]" "'' ''"] scan_int_digits [of b "[]" "'' ''"] assms sp by simp_all
  have 4: "scan_int [] = None" by (simp add: scan_int_def)
  have nn: "0 \<le> number_value a" "0 \<le> number_value b" "0 \<le> number_value c"
    using assms(1) by (auto intro: number_value_nonneg)
  have "scan_policy (a @ '' '' @ b @ '' '' @ c) (-1, -1, -1) = (number_value a, number_value b, number_value c)"
    unfolding scan_policy_def by (simp only: 1 2 3 prod.case option.case)
  moreover have "scan_policy (a @ '' '' @ b) (-1, -1, -1) = (number_value a, number_value b, -1)"
    unfolding scan_policy_def by (simp only: 1 3 4 prod.case option.case)
  ultimately show ?thesis using nn by (simp add: loadPolicyFromFile_def Let_def)
qed

theorem policy_file_loaded_witness:
  "loadPolicyFromFile (Some (''17'' @ '' '' @ ''3'' @ '' '' @ ''2'')) policy_boot =
     \<lparr>encryptEnabled = 1, forAddition = 17, forShift = 3, cachePolicy = 2\<rparr>"
  using policy_file_loaded [of "''17''" "''3''" "''2''" policy_boot]
  by (simp add: is_digit_def number_value_def digit_value_def policy_boot_def)

end
