(* ===== verification/KList.thy ===== *)
theory KList
  imports Prelude
begin

text \<open>
  \<open>src/project4/list.h\<close>: the circular doubly linked lists of the Linux kernel, on a heap of
  nodes. Every pointer write of the C code is one update of the heap, in the order of the code, and
  an access to an address with no node is a fault. The abstraction relates a list head to the sequence
  of its entries; each operation is shown to do on the heap what its name says on the sequence,
  without a fault and without touching any other node.
\<close>

section \<open>Nodes and pointers\<close>

type_synonym ptr = nat

record list_head =
  nxt :: ptr
  prv :: ptr

type_synonym list_heap = "ptr \<rightharpoonup> list_head"

definition LIST_POISON1 :: ptr where "LIST_POISON1 = 0x00100100"
definition LIST_POISON2 :: ptr where "LIST_POISON2 = 0x00200200"

definition next_of :: "ptr \<Rightarrow> list_heap \<Rightarrow> ptr option" where
  "next_of p h = map_option nxt (h p)"

definition prev_of :: "ptr \<Rightarrow> list_heap \<Rightarrow> ptr option" where
  "prev_of p h = map_option prv (h p)"

definition set_next :: "ptr \<Rightarrow> ptr \<Rightarrow> list_heap \<Rightarrow> list_heap option" where
  "set_next p v h = map_option (\<lambda>n. h(p \<mapsto> n\<lparr>nxt := v\<rparr>)) (h p)"

definition set_prev :: "ptr \<Rightarrow> ptr \<Rightarrow> list_heap \<Rightarrow> list_heap option" where
  "set_prev p v h = map_option (\<lambda>n. h(p \<mapsto> n\<lparr>prv := v\<rparr>)) (h p)"

section \<open>The operations\<close>

definition INIT_LIST_HEAD :: "ptr \<Rightarrow> list_heap \<Rightarrow> list_heap option" where
  "INIT_LIST_HEAD p h = do { h \<leftarrow> set_next p p h; set_prev p p h }"

definition list_add_between :: "ptr \<Rightarrow> ptr \<Rightarrow> ptr \<Rightarrow> list_heap \<Rightarrow> list_heap option" where
  "list_add_between new prev next h = do {
     h \<leftarrow> set_prev next new h;
     h \<leftarrow> set_next new next h;
     h \<leftarrow> set_prev new prev h;
     set_next prev new h
   }"

definition list_add :: "ptr \<Rightarrow> ptr \<Rightarrow> list_heap \<Rightarrow> list_heap option" where
  "list_add new head h = do { n \<leftarrow> next_of head h; list_add_between new head n h }"

definition list_add_tail :: "ptr \<Rightarrow> ptr \<Rightarrow> list_heap \<Rightarrow> list_heap option" where
  "list_add_tail new head h = do { p \<leftarrow> prev_of head h; list_add_between new p head h }"

definition list_del_between :: "ptr \<Rightarrow> ptr \<Rightarrow> list_heap \<Rightarrow> list_heap option" where
  "list_del_between prev next h = do { h \<leftarrow> set_prev next prev h; set_next prev next h }"

definition list_unlink :: "ptr \<Rightarrow> list_heap \<Rightarrow> list_heap option" where
  "list_unlink entry h = do {
     p \<leftarrow> prev_of entry h;
     n \<leftarrow> next_of entry h;
     list_del_between p n h
   }"

definition list_del :: "ptr \<Rightarrow> list_heap \<Rightarrow> list_heap option" where
  "list_del entry h = do {
     h \<leftarrow> list_unlink entry h;
     h \<leftarrow> set_next entry LIST_POISON1 h;
     set_prev entry LIST_POISON2 h
   }"

definition list_del_init :: "ptr \<Rightarrow> list_heap \<Rightarrow> list_heap option" where
  "list_del_init entry h = do { h \<leftarrow> list_unlink entry h; INIT_LIST_HEAD entry h }"

definition list_move :: "ptr \<Rightarrow> ptr \<Rightarrow> list_heap \<Rightarrow> list_heap option" where
  "list_move entry head h = do { h \<leftarrow> list_unlink entry h; list_add entry head h }"

definition list_move_tail :: "ptr \<Rightarrow> ptr \<Rightarrow> list_heap \<Rightarrow> list_heap option" where
  "list_move_tail entry head h = do { h \<leftarrow> list_unlink entry h; list_add_tail entry head h }"

definition list_empty :: "ptr \<Rightarrow> list_heap \<Rightarrow> bool option" where
  "list_empty head h = map_option (\<lambda>n. n = head) (next_of head h)"

definition list_splice_at :: "ptr \<Rightarrow> ptr \<Rightarrow> list_heap \<Rightarrow> list_heap option" where
  "list_splice_at lst head h = do {
     first \<leftarrow> next_of lst h;
     last \<leftarrow> prev_of lst h;
     at \<leftarrow> next_of head h;
     h \<leftarrow> set_prev first head h;
     h \<leftarrow> set_next head first h;
     h \<leftarrow> set_next last at h;
     set_prev at last h
   }"

definition list_splice :: "ptr \<Rightarrow> ptr \<Rightarrow> list_heap \<Rightarrow> list_heap option" where
  "list_splice lst head h = do {
     e \<leftarrow> list_empty lst h;
     if \<not> e then list_splice_at lst head h else Some h
   }"

definition list_splice_init :: "ptr \<Rightarrow> ptr \<Rightarrow> list_heap \<Rightarrow> list_heap option" where
  "list_splice_init lst head h = do {
     e \<leftarrow> list_empty lst h;
     if \<not> e then do { h \<leftarrow> list_splice_at lst head h; INIT_LIST_HEAD lst h } else Some h
   }"

definition list_first_entry :: "ptr \<Rightarrow> list_heap \<Rightarrow> ptr option" where
  "list_first_entry head h = next_of head h"

definition list_last_entry :: "ptr \<Rightarrow> list_heap \<Rightarrow> ptr option" where
  "list_last_entry head h = prev_of head h"

text \<open>The loops \<open>list_for_each\<close> and \<open>list_for_each_entry\<close>, for a body that does not change the
  list: the entries visited, in order. The fuel bounds the number of turns; \<open>None\<close> also when it is
  spent before the head comes round.\<close>

fun for_each_from :: "nat \<Rightarrow> ptr \<Rightarrow> ptr \<Rightarrow> list_heap \<Rightarrow> ptr list option" where
  "for_each_from 0 pos head h = (if pos = head then Some [] else None)"
| "for_each_from (Suc fuel) pos head h =
     (if pos = head then Some []
      else do {
        n \<leftarrow> next_of pos h;
        ps \<leftarrow> for_each_from fuel n head h;
        Some (pos # ps)
      })"

definition list_for_each :: "nat \<Rightarrow> ptr \<Rightarrow> list_heap \<Rightarrow> ptr list option" where
  "list_for_each fuel head h = do { n \<leftarrow> next_of head h; for_each_from fuel n head h }"

fun for_each_rev_from :: "nat \<Rightarrow> ptr \<Rightarrow> ptr \<Rightarrow> list_heap \<Rightarrow> ptr list option" where
  "for_each_rev_from 0 pos head h = (if pos = head then Some [] else None)"
| "for_each_rev_from (Suc fuel) pos head h =
     (if pos = head then Some []
      else do {
        n \<leftarrow> prev_of pos h;
        ps \<leftarrow> for_each_rev_from fuel n head h;
        Some (pos # ps)
      })"

definition list_for_each_prev :: "nat \<Rightarrow> ptr \<Rightarrow> list_heap \<Rightarrow> ptr list option" where
  "list_for_each_prev fuel head h = do { n \<leftarrow> prev_of head h; for_each_rev_from fuel n head h }"

text \<open>\<open>list_for_each_safe\<close> reads the successor of an entry before the body runs, so the body may delete the entry.\<close>

fun safe_from :: "nat \<Rightarrow> (ptr \<Rightarrow> list_heap \<Rightarrow> list_heap option) \<Rightarrow> ptr \<Rightarrow> ptr \<Rightarrow> ptr \<Rightarrow> list_heap \<Rightarrow> (ptr list \<times> list_heap) option" where
  "safe_from 0 body pos n head h = (if pos = head then Some ([], h) else None)"
| "safe_from (Suc fuel) body pos n head h =
     (if pos = head then Some ([], h)
      else do {
        h \<leftarrow> body pos h;
        nn \<leftarrow> next_of n h;
        (ps, h) \<leftarrow> safe_from fuel body n nn head h;
        Some (pos # ps, h)
      })"

definition list_for_each_safe :: "nat \<Rightarrow> (ptr \<Rightarrow> list_heap \<Rightarrow> list_heap option) \<Rightarrow> ptr \<Rightarrow> list_heap \<Rightarrow> (ptr list \<times> list_heap) option" where
  "list_for_each_safe fuel body head h = do { pos \<leftarrow> next_of head h; n \<leftarrow> next_of pos h; safe_from fuel body pos n head h }"

section \<open>Abstraction\<close>

text \<open>Neighbours in the sequence point to each other.\<close>

fun linked :: "list_heap \<Rightarrow> ptr list \<Rightarrow> bool" where
  "linked h (a # b # r) \<longleftrightarrow> next_of a h = Some b \<and> prev_of b h = Some a \<and> linked h (b # r)"
| "linked h _ \<longleftrightarrow> True"

definition is_list :: "list_heap \<Rightarrow> ptr \<Rightarrow> ptr list \<Rightarrow> bool" where
  "is_list h head xs \<longleftrightarrow> distinct (head # xs) \<and> linked h (head # xs @ [head])"

definition succ_in :: "ptr \<Rightarrow> ptr list \<Rightarrow> ptr" where
  "succ_in head bs = (case bs of [] \<Rightarrow> head | b # _ \<Rightarrow> b)"

definition pred_in :: "ptr \<Rightarrow> ptr list \<Rightarrow> ptr" where
  "pred_in head as = last (head # as)"

lemma linked_append: "linked h (xs @ y # ys) \<longleftrightarrow> linked h (xs @ [y]) \<and> linked h (y # ys)"
proof (induction xs)
  case (Cons x xs)
  then show ?case by (cases xs) auto
qed (cases ys; simp)

lemma linked_join:
  "linked h ((z # as) @ c # cs) \<longleftrightarrow> linked h (z # as) \<and> next_of (pred_in z as) h = Some c
     \<and> prev_of c h = Some (pred_in z as) \<and> linked h (c # cs)"
proof (induction as arbitrary: z)
  case (Cons a as)
  then show ?case by (auto simp: pred_in_def)
qed (simp add: pred_in_def)

lemma linked_cong:
  assumes "\<And>p. p \<in> set (butlast xs) \<Longrightarrow> next_of p h' = next_of p h"
    "\<And>p. p \<in> set (tl xs) \<Longrightarrow> prev_of p h' = prev_of p h"
  shows "linked h' xs \<longleftrightarrow> linked h xs"
  using assms by (induction h xs rule: linked.induct) auto

text \<open>A list cut at any place: the two halves, and the two pointers across the cut.\<close>

lemma is_list_split:
  "is_list h head (as @ bs) \<longleftrightarrow> distinct (head # as @ bs) \<and> linked h (head # as) \<and> linked h (bs @ [head]) \<and>
     next_of (pred_in head as) h = Some (succ_in head bs) \<and> prev_of (succ_in head bs) h = Some (pred_in head as)"
  using linked_join [of h head as head "[]"] linked_join [of h head as "hd bs" "tl bs @ [head]"]
  by (cases bs) (auto simp: is_list_def succ_in_def)

lemma pred_in_mem: "pred_in head as \<in> set (head # as)"
  by (simp add: pred_in_def)

lemma succ_in_mem: "succ_in head bs \<in> set (head # bs)"
  by (cases bs) (simp_all add: succ_in_def)

lemma next_of_dom: "next_of p h = Some q \<Longrightarrow> p \<in> dom h" "prev_of p h = Some q \<Longrightarrow> p \<in> dom h"
  by (auto simp: next_of_def prev_of_def)

lemma heap_eqI: "next_of q h' = next_of q h \<Longrightarrow> prev_of q h' = prev_of q h \<Longrightarrow> h' q = h q"
  by (cases "h' q"; cases "h q") (auto simp: next_of_def prev_of_def)

section \<open>What the internal routines write\<close>

lemma set_ptr:
  assumes "p \<in> dom h"
  shows "\<exists>h'. set_next p v h = Some h' \<and> dom h' = dom h
      \<and> (\<forall>q. next_of q h' = (if q = p then Some v else next_of q h)) \<and> (\<forall>q. prev_of q h' = prev_of q h)"
    and "\<exists>h'. set_prev p v h = Some h' \<and> dom h' = dom h
      \<and> (\<forall>q. prev_of q h' = (if q = p then Some v else prev_of q h)) \<and> (\<forall>q. next_of q h' = next_of q h)"
  using assms by (auto simp: set_next_def set_prev_def next_of_def prev_of_def)

lemma add_between_spec:
  assumes "p \<in> dom h" "n \<in> dom h" "new \<in> dom h"
  shows "\<exists>h'. list_add_between new p n h = Some h' \<and> dom h' = dom h
    \<and> (\<forall>q. next_of q h' = (if q = p then Some new else if q = new then Some n else next_of q h))
    \<and> (\<forall>q. prev_of q h' = (if q = new then Some p else if q = n then Some new else prev_of q h))"
proof -
  from set_ptr(2) [OF assms(2), of new] obtain h1 where
    h1: "set_prev n new h = Some h1" "dom h1 = dom h" "\<And>q. prev_of q h1 = (if q = n then Some new else prev_of q h)"
      "\<And>q. next_of q h1 = next_of q h" by blast
  from set_ptr(1) [of new h1 n] h1 assms obtain h2 where
    h2: "set_next new n h1 = Some h2" "dom h2 = dom h" "\<And>q. next_of q h2 = (if q = new then Some n else next_of q h)"
      "\<And>q. prev_of q h2 = (if q = n then Some new else prev_of q h)" by auto
  from set_ptr(2) [of new h2 p] h2 assms obtain h3 where
    h3: "set_prev new p h2 = Some h3" "dom h3 = dom h" "\<And>q. next_of q h3 = (if q = new then Some n else next_of q h)"
      "\<And>q. prev_of q h3 = (if q = new then Some p else if q = n then Some new else prev_of q h)" by auto
  from set_ptr(1) [of p h3 new] h3 assms obtain h4 where
    h4: "set_next p new h3 = Some h4" "dom h4 = dom h"
      "\<And>q. next_of q h4 = (if q = p then Some new else if q = new then Some n else next_of q h)"
      "\<And>q. prev_of q h4 = (if q = new then Some p else if q = n then Some new else prev_of q h)" by auto
  from h1(1) h2(1) h3(1) h4 show ?thesis by (simp add: list_add_between_def)
qed

lemma del_between_spec:
  assumes "p \<in> dom h" "n \<in> dom h"
  shows "\<exists>h'. list_del_between p n h = Some h' \<and> dom h' = dom h
    \<and> (\<forall>q. next_of q h' = (if q = p then Some n else next_of q h))
    \<and> (\<forall>q. prev_of q h' = (if q = n then Some p else prev_of q h))"
proof -
  from set_ptr(2) [OF assms(2), of p] obtain h1 where
    h1: "set_prev n p h = Some h1" "dom h1 = dom h" "\<And>q. prev_of q h1 = (if q = n then Some p else prev_of q h)"
      "\<And>q. next_of q h1 = next_of q h" by blast
  from set_ptr(1) [of p h1 n] h1 assms obtain h2 where
    h2: "set_next p n h1 = Some h2" "dom h2 = dom h" "\<And>q. next_of q h2 = (if q = p then Some n else next_of q h)"
      "\<And>q. prev_of q h2 = (if q = n then Some p else prev_of q h)" by auto
  from h1(1) h2 show ?thesis by (simp add: list_del_between_def)
qed

text \<open>The two halves of a cut list do not use the pointers across the cut.\<close>

lemma last_notin_butlast: "distinct xs \<Longrightarrow> xs \<noteq> [] \<Longrightarrow> last xs \<notin> set (butlast xs)"
  by (induction xs rule: rev_induct) auto

lemma halves_cong:
  assumes dist: "distinct (head # as @ bs)"
    and nx: "\<And>q. q \<in> set (head # as @ bs) \<Longrightarrow> q \<noteq> pred_in head as \<Longrightarrow> next_of q h' = next_of q h"
    and pv: "\<And>q. q \<in> set (head # as @ bs) \<Longrightarrow> q \<noteq> succ_in head bs \<Longrightarrow> prev_of q h' = prev_of q h"
  shows "linked h' (head # as) = linked h (head # as)" "linked h' (bs @ [head]) = linked h (bs @ [head])"
proof -
  have d: "distinct (head # as)" using dist by simp
  show "linked h' (head # as) = linked h (head # as)"
  proof (rule linked_cong)
    fix q assume "q \<in> set (butlast (head # as))"
    moreover have "pred_in head as \<notin> set (butlast (head # as))"
      unfolding pred_in_def using last_notin_butlast [OF d] by blast
    ultimately show "next_of q h' = next_of q h" by (intro nx) (auto dest: in_set_butlastD split: if_splits)
  next
    fix q assume "q \<in> set (tl (head # as))"
    with dist show "prev_of q h' = prev_of q h" by (intro pv) (cases bs; auto simp: succ_in_def)+
  qed
  show "linked h' (bs @ [head]) = linked h (bs @ [head])"
  proof (rule linked_cong)
    fix q assume "q \<in> set (butlast (bs @ [head]))"
    with dist pred_in_mem [of head as] show "next_of q h' = next_of q h" by (intro nx) auto
  next
    fix q assume "q \<in> set (tl (bs @ [head]))"
    with dist show "prev_of q h' = prev_of q h" by (intro pv) (cases bs; auto simp: succ_in_def)+
  qed
qed

lemma linked_Cons: "linked h (x # bs @ [head]) \<longleftrightarrow>
   next_of x h = Some (succ_in head bs) \<and> prev_of (succ_in head bs) h = Some x \<and> linked h (bs @ [head])"
  by (cases bs) (simp_all add: succ_in_def)

text \<open>Inserting at a cut and removing an entry, on the sequence. Nodes outside are not touched.\<close>

lemma insert_at_cut:
  assumes l: "is_list h head (as @ bs)" and new: "new \<in> dom h" "new \<notin> set (head # as @ bs)"
  shows "\<exists>h'. list_add_between new (pred_in head as) (succ_in head bs) h = Some h' \<and> dom h' = dom h
    \<and> is_list h' head (as @ new # bs) \<and> (\<forall>q. q \<notin> set (head # as @ new # bs) \<longrightarrow> h' q = h q)"
proof -
  let ?p = "pred_in head as" and ?n = "succ_in head bs"
  have cut: "next_of ?p h = Some ?n" "prev_of ?n h = Some ?p" and halves: "linked h (head # as)" "linked h (bs @ [head])"
    and dist: "distinct (head # as @ bs)" using l by (simp_all add: is_list_split)
  from cut have "?p \<in> dom h" "?n \<in> dom h" by (auto dest: next_of_dom)
  from add_between_spec [OF this new(1)] obtain h' where
    h': "list_add_between new ?p ?n h = Some h'" "dom h' = dom h"
      "\<And>q. next_of q h' = (if q = ?p then Some new else if q = new then Some ?n else next_of q h)"
      "\<And>q. prev_of q h' = (if q = new then Some ?p else if q = ?n then Some new else prev_of q h)" by blast
  have p: "?p \<in> set (head # as)" and n: "?n \<in> set (head # bs)" by (rule pred_in_mem succ_in_mem)+
  with new(2) have neq: "?p \<noteq> new" "?n \<noteq> new" by auto
  have "linked h' (head # as) = linked h (head # as)" "linked h' (bs @ [head]) = linked h (bs @ [head])"
    by (rule halves_cong [OF dist]; use h' new(2) in auto)+
  moreover have "succ_in head (new # bs) = new" by (simp add: succ_in_def)
  ultimately have "is_list h' head (as @ new # bs)"
    using halves dist new(2) neq h'(3,4) by (auto simp: is_list_split linked_Cons)
  moreover have "h' q = h q" if "q \<notin> set (head # as @ new # bs)" for q
    using that p n h'(3,4) by (intro heap_eqI) auto
  ultimately show ?thesis using h'(1,2) by blast
qed

lemma unlink_entry:
  assumes l: "is_list h head (as @ e # bs)"
  shows "\<exists>h'. list_unlink e h = Some h' \<and> dom h' = dom h \<and> is_list h' head (as @ bs)
    \<and> (\<forall>q. q \<notin> set (head # as @ bs) \<longrightarrow> h' q = h q)"
proof -
  let ?p = "pred_in head as" and ?n = "succ_in head bs"
  have e: "next_of ?p h = Some e" "prev_of e h = Some ?p" "next_of e h = Some ?n" "prev_of ?n h = Some e"
    and halves: "linked h (head # as)" "linked h (bs @ [head])" and dist: "distinct (head # as @ e # bs)"
    using l by (simp_all add: is_list_split linked_Cons) (simp_all add: succ_in_def)
  from e have "?p \<in> dom h" "?n \<in> dom h" by (auto dest: next_of_dom)
  from del_between_spec [OF this] obtain h' where
    h': "list_del_between ?p ?n h = Some h'" "dom h' = dom h"
      "\<And>q. next_of q h' = (if q = ?p then Some ?n else next_of q h)"
      "\<And>q. prev_of q h' = (if q = ?n then Some ?p else prev_of q h)" by blast
  have p: "?p \<in> set (head # as)" and n: "?n \<in> set (head # bs)" by (rule pred_in_mem succ_in_mem)+
  have d: "distinct (head # as @ bs)" using dist by auto
  have "linked h' (head # as) = linked h (head # as)" "linked h' (bs @ [head]) = linked h (bs @ [head])"
    by (rule halves_cong [OF d]; use h' in auto)+
  with halves d h'(3,4) have "is_list h' head (as @ bs)" by (auto simp: is_list_split)
  moreover have "h' q = h q" if "q \<notin> set (head # as @ bs)" for q
    using that p n h'(3,4) by (intro heap_eqI) auto
  moreover have "list_unlink e h = Some h'" using e h'(1) by (simp add: list_unlink_def)
  ultimately show ?thesis using h'(2) by blast
qed

text \<open>A heap that agrees on the nodes of a list has the same list.\<close>

lemma is_list_frame:
  assumes "is_list h head xs" "\<And>q. q \<in> set (head # xs) \<Longrightarrow> h' q = h q"
  shows "is_list h' head xs"
proof -
  have "next_of q h' = next_of q h" "prev_of q h' = prev_of q h" if "q \<in> set (head # xs)" for q
    using assms(2) [OF that] by (simp_all add: next_of_def prev_of_def)
  then have "linked h' (head # xs @ [head]) = linked h (head # xs @ [head])"
    by (intro linked_cong) (auto dest: in_set_butlastD split: if_splits)
  with assms(1) show ?thesis by (simp add: is_list_def)
qed

section \<open>The operations on sequences\<close>

lemma is_list_ends: "is_list h head xs \<Longrightarrow> next_of head h = Some (succ_in head xs) \<and> prev_of head h = Some (pred_in head xs)"
  using is_list_split [of h head "[]" xs] is_list_split [of h head xs "[]"]
  by (simp add: pred_in_def succ_in_def)

lemma init_spec:
  assumes "p \<in> dom h"
  shows "\<exists>h'. INIT_LIST_HEAD p h = Some h' \<and> dom h' = dom h \<and> is_list h' p [] \<and> (\<forall>q. q \<noteq> p \<longrightarrow> h' q = h q)"
proof -
  from set_ptr(1) [OF assms, of p] obtain h1 where
    h1: "set_next p p h = Some h1" "dom h1 = dom h" "\<And>q. next_of q h1 = (if q = p then Some p else next_of q h)"
      "\<And>q. prev_of q h1 = prev_of q h" by blast
  from set_ptr(2) [of p h1 p] h1 assms obtain h2 where
    h2: "set_prev p p h1 = Some h2" "dom h2 = dom h" "\<And>q. next_of q h2 = (if q = p then Some p else next_of q h)"
      "\<And>q. prev_of q h2 = (if q = p then Some p else prev_of q h)" by auto
  then have "\<forall>q. q \<noteq> p \<longrightarrow> h2 q = h q" by (auto intro: heap_eqI)
  with h1(1) h2 show ?thesis by (auto simp: INIT_LIST_HEAD_def is_list_def)
qed

lemma add_spec:
  assumes "is_list h head xs" "new \<in> dom h" "new \<notin> set (head # xs)"
  shows "\<exists>h'. list_add new head h = Some h' \<and> dom h' = dom h \<and> is_list h' head (new # xs)
    \<and> (\<forall>q. q \<notin> set (head # new # xs) \<longrightarrow> h' q = h q)"
  using insert_at_cut [of h head "[]" xs new] assms is_list_ends [OF assms(1)]
  by (auto simp: list_add_def pred_in_def)

lemma add_tail_spec:
  assumes "is_list h head xs" "new \<in> dom h" "new \<notin> set (head # xs)"
  shows "\<exists>h'. list_add_tail new head h = Some h' \<and> dom h' = dom h \<and> is_list h' head (xs @ [new])
    \<and> (\<forall>q. q \<notin> set (head # new # xs) \<longrightarrow> h' q = h q)"
  using insert_at_cut [of h head xs "[]" new] assms is_list_ends [OF assms(1)]
  by (auto simp: list_add_tail_def succ_in_def)


lemma del_spec:
  assumes "is_list h head (as @ e # bs)"
  shows "\<exists>h'. list_del e h = Some h' \<and> dom h' = dom h \<and> is_list h' head (as @ bs)
    \<and> h' e = Some \<lparr>nxt = LIST_POISON1, prv = LIST_POISON2\<rparr> \<and> (\<forall>q. q \<notin> set (head # as @ e # bs) \<longrightarrow> h' q = h q)"
proof -
  from unlink_entry [OF assms] obtain h1 where
    h1: "list_unlink e h = Some h1" "dom h1 = dom h" "is_list h1 head (as @ bs)"
      "\<And>q. q \<notin> set (head # as @ bs) \<Longrightarrow> h1 q = h q" by blast
  have e: "e \<notin> set (head # as @ bs)" using assms by (auto simp: is_list_def)
  have "e \<in> dom h" using assms by (auto simp: is_list_split linked_Cons dest: next_of_dom)
  with h1(2) obtain n where n: "h1 e = Some n" by blast
  let ?h = "h1(e \<mapsto> \<lparr>nxt = LIST_POISON1, prv = LIST_POISON2\<rparr>)"
  have "list_del e h = Some ?h"
    using h1(1) n by (cases n) (simp add: list_del_def set_next_def set_prev_def)
  moreover have "is_list ?h head (as @ bs)" by (rule is_list_frame [OF h1(3)]) (use e in auto)
  moreover have "\<forall>q. q \<notin> set (head # as @ e # bs) \<longrightarrow> ?h q = h q" using h1(4) by auto
  ultimately show ?thesis using h1(2) \<open>e \<in> dom h\<close> by (intro exI [of _ ?h]) auto
qed

lemma del_init_spec:
  assumes "is_list h head (as @ e # bs)"
  shows "\<exists>h'. list_del_init e h = Some h' \<and> dom h' = dom h \<and> is_list h' head (as @ bs) \<and> is_list h' e []
    \<and> (\<forall>q. q \<notin> set (head # as @ e # bs) \<longrightarrow> h' q = h q)"
proof -
  from unlink_entry [OF assms] obtain h1 where
    h1: "list_unlink e h = Some h1" "dom h1 = dom h" "is_list h1 head (as @ bs)"
      "\<And>q. q \<notin> set (head # as @ bs) \<Longrightarrow> h1 q = h q" by blast
  have e: "e \<notin> set (head # as @ bs)" using assms by (auto simp: is_list_def)
  have "e \<in> dom h1" using assms h1(2) by (auto simp: is_list_split linked_Cons dest: next_of_dom)
  from init_spec [OF this] obtain h2 where
    h2: "INIT_LIST_HEAD e h1 = Some h2" "dom h2 = dom h1" "is_list h2 e []" "\<And>q. q \<noteq> e \<Longrightarrow> h2 q = h1 q" by blast
  have "is_list h2 head (as @ bs)" by (rule is_list_frame [OF h1(3) h2(4)]) (use e in auto)
  with h1 h2 show ?thesis by (auto simp: list_del_init_def)
qed

lemma move_spec:
  assumes "is_list h head (as @ e # bs)"
  shows "\<exists>h'. list_move e head h = Some h' \<and> dom h' = dom h \<and> is_list h' head (e # as @ bs)
    \<and> (\<forall>q. q \<notin> set (head # as @ e # bs) \<longrightarrow> h' q = h q)"
proof -
  from unlink_entry [OF assms] obtain h1 where
    h1: "list_unlink e h = Some h1" "dom h1 = dom h" "is_list h1 head (as @ bs)"
      "\<And>q. q \<notin> set (head # as @ bs) \<Longrightarrow> h1 q = h q" by blast
  have e: "e \<notin> set (head # as @ bs)" using assms by (auto simp: is_list_def)
  have "e \<in> dom h1" using assms h1(2) by (auto simp: is_list_split linked_Cons dest: next_of_dom)
  from add_spec [OF h1(3) this e] obtain h2 where
    "list_add e head h1 = Some h2" "dom h2 = dom h1" "is_list h2 head (e # as @ bs)"
      "\<And>q. q \<notin> set (head # e # as @ bs) \<Longrightarrow> h2 q = h1 q" by blast
  with h1 show ?thesis by (auto simp: list_move_def)
qed

lemma move_tail_spec:
  assumes "is_list h head (as @ e # bs)"
  shows "\<exists>h'. list_move_tail e head h = Some h' \<and> dom h' = dom h \<and> is_list h' head (as @ bs @ [e])
    \<and> (\<forall>q. q \<notin> set (head # as @ e # bs) \<longrightarrow> h' q = h q)"
proof -
  from unlink_entry [OF assms] obtain h1 where
    h1: "list_unlink e h = Some h1" "dom h1 = dom h" "is_list h1 head (as @ bs)"
      "\<And>q. q \<notin> set (head # as @ bs) \<Longrightarrow> h1 q = h q" by blast
  have e: "e \<notin> set (head # as @ bs)" using assms by (auto simp: is_list_def)
  have "e \<in> dom h1" using assms h1(2) by (auto simp: is_list_split linked_Cons dest: next_of_dom)
  from add_tail_spec [OF h1(3) this e] obtain h2 where
    "list_add_tail e head h1 = Some h2" "dom h2 = dom h1" "is_list h2 head ((as @ bs) @ [e])"
      "\<And>q. q \<notin> set (head # e # as @ bs) \<Longrightarrow> h2 q = h1 q" by blast
  with h1 show ?thesis by (auto simp: list_move_tail_def)
qed

lemma empty_spec: "is_list h head xs \<Longrightarrow> list_empty head h = Some (xs = [])"
proof -
  assume l: "is_list h head xs"
  then have "head \<notin> set xs" by (simp add: is_list_def)
  with is_list_ends [OF l] show ?thesis by (cases xs) (simp_all add: list_empty_def succ_in_def)
qed

lemma first_last_spec:
  "is_list h head (x # xs) \<Longrightarrow> list_first_entry head h = Some x \<and> list_last_entry head h = Some (last (x # xs))"
  using is_list_ends [of h head "x # xs"]
  by (simp add: list_first_entry_def list_last_entry_def succ_in_def pred_in_def)

lemma for_each_from_spec:
  "linked h (xs @ [head]) \<Longrightarrow> head \<notin> set xs \<Longrightarrow> length xs \<le> fuel \<Longrightarrow>
   for_each_from fuel (succ_in head xs) head h = Some xs"
proof (induction xs arbitrary: fuel)
  case Nil
  then show ?case by (cases fuel) (simp_all add: succ_in_def)
next
  case (Cons x xs)
  then obtain f where f: "fuel = Suc f" "length xs \<le> f" by (cases fuel) auto
  from Cons.prems have "next_of x h = Some (succ_in head xs)" "linked h (xs @ [head])" by (simp_all add: linked_Cons)
  with Cons.IH [of f] Cons.prems f show ?case by (simp add: succ_in_def)
qed

lemma for_each_spec: "is_list h head xs \<Longrightarrow> length xs \<le> fuel \<Longrightarrow> list_for_each fuel head h = Some xs"
  using is_list_ends [of h head xs] for_each_from_spec [of h xs head fuel] is_list_split [of h head "[]" xs]
  by (simp add: list_for_each_def is_list_def)

lemma for_each_rev_from_spec:
  "linked h (head # xs) \<Longrightarrow> head \<notin> set xs \<Longrightarrow> length xs \<le> fuel \<Longrightarrow>
   for_each_rev_from fuel (pred_in head xs) head h = Some (rev xs)"
proof (induction xs arbitrary: fuel rule: rev_induct)
  case Nil
  then show ?case by (cases fuel) (simp_all add: pred_in_def)
next
  case (snoc x xs)
  then obtain f where f: "fuel = Suc f" "length xs \<le> f" by (cases fuel) auto
  from snoc.prems linked_join [of h head xs x "[]"]
  have "prev_of x h = Some (pred_in head xs)" "linked h (head # xs)" by simp_all
  with snoc.IH [of f] snoc.prems f show ?case by (simp add: pred_in_def)
qed

lemma for_each_prev_spec: "is_list h head xs \<Longrightarrow> length xs \<le> fuel \<Longrightarrow> list_for_each_prev fuel head h = Some (rev xs)"
  using is_list_ends [of h head xs] for_each_rev_from_spec [of h head xs fuel] is_list_split [of h head xs "[]"]
  by (simp add: list_for_each_prev_def is_list_def)

text \<open>Deleting what a safe loop visits empties the list.\<close>

lemma safe_del_spec:
  "is_list h head xs \<Longrightarrow> length xs \<le> fuel \<Longrightarrow>
   \<exists>h'. safe_from fuel list_del (succ_in head xs) n head h = Some (xs, h') \<and> is_list h' head []"
  if "xs \<noteq> [] \<Longrightarrow> n = succ_in head (tl xs)"
  using that
proof (induction xs arbitrary: h fuel n)
  case Nil
  then show ?case by (cases fuel) (auto simp: succ_in_def)
next
  case (Cons x xs)
  then obtain f where f: "fuel = Suc f" "length xs \<le> f" by (cases fuel) auto
  from del_spec [of h head "[]" x xs] Cons.prems(1) obtain h1 where h1: "list_del x h = Some h1" "is_list h1 head xs" by auto
  have x: "x \<noteq> head" using Cons.prems(1) by (simp add: is_list_def)
  have n: "n = succ_in head xs" using Cons.prems(3) by simp
  obtain nn where nn: "next_of n h1 = Some nn" "xs \<noteq> [] \<Longrightarrow> nn = succ_in head (tl xs)"
  proof (cases xs)
    case Nil
    with is_list_ends [OF h1(2)] that n show thesis by (simp add: succ_in_def)
  next
    case (Cons y ys)
    have "next_of y h1 = Some (succ_in head ys)" using h1(2) Cons by (simp add: is_list_def linked_Cons)
    with Cons that n show thesis by (simp add: succ_in_def)
  qed
  from Cons.IH [OF h1(2) f(2) nn(2)] h1(1) nn(1) f(1) x n show ?case by (auto simp: succ_in_def)
qed

lemma list_for_each_safe_del:
  assumes l: "is_list h head xs" and fuel: "length xs \<le> fuel"
  shows "\<exists>h'. list_for_each_safe fuel list_del head h = Some (xs, h') \<and> is_list h' head []"
proof -
  obtain n where n: "next_of (succ_in head xs) h = Some n" "xs \<noteq> [] \<Longrightarrow> n = succ_in head (tl xs)"
  proof (cases xs)
    case Nil
    with is_list_ends [OF l] that show thesis by (simp add: succ_in_def)
  next
    case (Cons y ys)
    have "next_of y h = Some (succ_in head ys)" using l Cons by (simp add: is_list_def linked_Cons)
    with Cons that show thesis by (simp add: succ_in_def)
  qed
  with safe_del_spec [OF n(2) l fuel] is_list_ends [OF l] show ?thesis by (simp add: list_for_each_safe_def)
qed

lemma splice_at_writes:
  assumes "head \<in> dom h" "first \<in> dom h" "lst' \<in> dom h" "at' \<in> dom h"
    and "next_of lst h = Some first" "prev_of lst h = Some lst'" "next_of head h = Some at'" "lst' \<noteq> head" "at' \<noteq> first"
  shows "\<exists>h'. list_splice_at lst head h = Some h' \<and> dom h' = dom h
    \<and> (\<forall>q. next_of q h' = (if q = head then Some first else if q = lst' then Some at' else next_of q h))
    \<and> (\<forall>q. prev_of q h' = (if q = first then Some head else if q = at' then Some lst' else prev_of q h))"
proof -
  from set_ptr(2) [OF assms(2), of head] obtain h1 where
    h1: "set_prev first head h = Some h1" "dom h1 = dom h" "\<And>q. prev_of q h1 = (if q = first then Some head else prev_of q h)"
      "\<And>q. next_of q h1 = next_of q h" by blast
  from set_ptr(1) [of head h1 first] h1 assms obtain h2 where
    h2: "set_next head first h1 = Some h2" "dom h2 = dom h" "\<And>q. next_of q h2 = (if q = head then Some first else next_of q h)"
      "\<And>q. prev_of q h2 = (if q = first then Some head else prev_of q h)" by auto
  from set_ptr(1) [of lst' h2 at'] h2 assms obtain h3 where
    h3: "set_next lst' at' h2 = Some h3" "dom h3 = dom h"
      "\<And>q. next_of q h3 = (if q = lst' then Some at' else if q = head then Some first else next_of q h)"
      "\<And>q. prev_of q h3 = (if q = first then Some head else prev_of q h)" by auto
  from set_ptr(2) [of at' h3 lst'] h3 assms obtain h4 where
    h4: "set_prev at' lst' h3 = Some h4" "dom h4 = dom h"
      "\<And>q. next_of q h4 = (if q = head then Some first else if q = lst' then Some at' else next_of q h)"
      "\<And>q. prev_of q h4 = (if q = first then Some head else if q = at' then Some lst' else prev_of q h)" by auto
  from assms h1(1) h2(1) h3(1) h4 show ?thesis by (simp add: list_splice_at_def)
qed


lemma splice_at_spec:
  assumes lx: "is_list h lst (x # xs)" and ly: "is_list h head ys" and dis: "set (lst # x # xs) \<inter> set (head # ys) = {}"
  shows "\<exists>h'. list_splice_at lst head h = Some h' \<and> dom h' = dom h \<and> is_list h' head (x # xs @ ys)
    \<and> (\<forall>q. q \<notin> set (head # x # xs @ ys) \<longrightarrow> h' q = h q)"
proof -
  let ?l = "last (x # xs)" and ?a = "succ_in head ys"
  note ex = is_list_ends [OF lx] and ey = is_list_ends [OF ly]
  have l: "?l \<in> set (x # xs)" by (rule last_in_set) simp
  have a: "?a \<in> set (head # ys)" by (rule succ_in_mem)
  have lk: "linked h (x # xs)" "linked h (ys @ [head])" "distinct (x # xs)" "distinct (head # ys)" "lst \<notin> set (x # xs)"
    and up: "prev_of x h = Some lst" "next_of ?l h = Some lst"
    using lx ly is_list_split [of h lst "x # xs" "[]"] is_list_split [of h head "[]" ys]
    by (auto simp: is_list_def succ_in_def pred_in_def)
  from ex have nx: "next_of lst h = Some x" "prev_of lst h = Some ?l" by (simp_all add: succ_in_def pred_in_def)
  have "head \<in> dom h" "x \<in> dom h" "?l \<in> dom h" "?a \<in> dom h"
    using ey up is_list_split [of h head "[]" ys] ly by (auto dest: next_of_dom)
  moreover have "?l \<noteq> head" "?a \<noteq> x" using l a dis by auto
  ultimately obtain h' where h': "list_splice_at lst head h = Some h'" "dom h' = dom h"
    "\<And>q. next_of q h' = (if q = head then Some x else if q = ?l then Some ?a else next_of q h)"
    "\<And>q. prev_of q h' = (if q = x then Some head else if q = ?a then Some ?l else prev_of q h)"
    using splice_at_writes [of head h x ?l ?a lst] nx ey by blast
  have "linked h' (x # xs) = linked h (x # xs)"
    using last_notin_butlast [OF lk(3)] dis a lk(3)
    by (intro linked_cong) (auto simp: h'(3,4) dest: in_set_butlastD split: if_splits)
  moreover have "linked h' (ys @ [head]) = linked h (ys @ [head])"
    using dis l lk(4) by (intro linked_cong) (cases ys; auto simp: h'(3,4) succ_in_def)+
  moreover have "x \<noteq> ?a" using a dis by auto
  moreover have "head \<noteq> x" using dis by auto
  ultimately have "is_list h' head ((x # xs) @ ys)"
    unfolding is_list_split using lk dis h'(3,4) \<open>?l \<noteq> head\<close> by (auto simp: pred_in_def)
  moreover have "h' q = h q" if "q \<notin> set (head # x # xs @ ys)" for q
    using that l a h'(3,4) by (intro heap_eqI) auto
  ultimately show ?thesis using h'(1,2) by auto
qed

lemma splice_init_spec:
  assumes lx: "is_list h lst xs" and ly: "is_list h head ys" and dis: "set (lst # xs) \<inter> set (head # ys) = {}"
  shows "\<exists>h'. list_splice_init lst head h = Some h' \<and> dom h' = dom h \<and> is_list h' head (xs @ ys) \<and> is_list h' lst []"
proof (cases xs)
  case Nil
  with assms show ?thesis by (auto simp: list_splice_init_def empty_spec)
next
  case (Cons x zs)
  with splice_at_spec [of h lst x zs head ys] assms obtain h1 where
    h1: "list_splice_at lst head h = Some h1" "dom h1 = dom h" "is_list h1 head (xs @ ys)" by auto
  have "lst \<in> dom h1" using h1(2) is_list_ends [OF lx] by (auto dest: next_of_dom)
  from init_spec [OF this] obtain h2 where
    h2: "INIT_LIST_HEAD lst h1 = Some h2" "dom h2 = dom h1" "is_list h2 lst []" "\<And>q. q \<noteq> lst \<Longrightarrow> h2 q = h1 q" by blast
  have "lst \<notin> set (head # xs @ ys)" using lx dis by (auto simp: is_list_def)
  then have "is_list h2 head (xs @ ys)" by (intro is_list_frame [OF h1(3) h2(4)]) auto
  with Cons lx h1 h2 show ?thesis by (auto simp: list_splice_init_def empty_spec)
qed

section \<open>The interface\<close>

text \<open>
  What a client of a linked sequence relies on. The client code in the repository fills a list, moves
  entries to the front and empties it with the loop
  \<open>while (!list_empty(head)) { pos = first entry; list_del(pos); }\<close>, which is proved once here, for
  every implementation of the interface.
\<close>

fun drain_loop :: "('h \<Rightarrow> bool option) \<Rightarrow> ('h \<Rightarrow> 'p option) \<Rightarrow> ('p \<Rightarrow> 'h \<Rightarrow> 'h option) \<Rightarrow> nat \<Rightarrow> 'h \<Rightarrow> ('p list \<times> 'h) option" where
  "drain_loop emp fst_entry del 0 h = do { e \<leftarrow> emp h; if e then Some ([], h) else None }"
| "drain_loop emp fst_entry del (Suc fuel) h = do {
     e \<leftarrow> emp h;
     if e then Some ([], h)
     else do {
       pos \<leftarrow> fst_entry h;
       h \<leftarrow> del pos h;
       (ps, h) \<leftarrow> drain_loop emp fst_entry del fuel h;
       Some (pos # ps, h)
     }
   }"

locale linked_sequence =
  fixes seq :: "'h \<Rightarrow> 'p list \<Rightarrow> bool"
    and free_node :: "'h \<Rightarrow> 'p \<Rightarrow> bool"
    and emp :: "'h \<Rightarrow> bool option"
    and fst_entry :: "'h \<Rightarrow> 'p option"
    and add :: "'p \<Rightarrow> 'h \<Rightarrow> 'h option"
    and del :: "'p \<Rightarrow> 'h \<Rightarrow> 'h option"
  assumes emp_law: "seq h xs \<Longrightarrow> emp h = Some (xs = [])"
    and fst_law: "seq h (x # xs) \<Longrightarrow> fst_entry h = Some x"
    and add_law: "seq h xs \<Longrightarrow> free_node h p \<Longrightarrow> p \<notin> set xs \<Longrightarrow>
      \<exists>h'. add p h = Some h' \<and> seq h' (p # xs) \<and> (\<forall>q. free_node h' q = free_node h q)"
    and del_law: "seq h (as @ p # bs) \<Longrightarrow>
      \<exists>h'. del p h = Some h' \<and> seq h' (as @ bs) \<and> (\<forall>q. free_node h' q = free_node h q)"
begin

lemma add_each:
  "seq h xs \<Longrightarrow> \<forall>p \<in> set ps. free_node h p \<Longrightarrow> distinct ps \<Longrightarrow> set ps \<inter> set xs = {} \<Longrightarrow>
   \<exists>h'. each add ps h = Some h' \<and> seq h' (rev ps @ xs) \<and> (\<forall>q. free_node h' q = free_node h q)"
proof (induction ps arbitrary: h xs)
  case Nil
  then show ?case by simp
next
  case (Cons p ps)
  then have "free_node h p" "p \<notin> set xs" by simp_all
  from add_law [OF Cons.prems(1) this] obtain h1 where
    h1: "add p h = Some h1" "seq h1 (p # xs)" "\<forall>q. free_node h1 q = free_node h q" by blast
  moreover have "\<forall>q \<in> set ps. free_node h1 q" "distinct ps" "set ps \<inter> set (p # xs) = {}" using Cons.prems h1(3) by auto
  from Cons.IH [OF h1(2) this] obtain h' where "each add ps h1 = Some h'" "seq h' (rev ps @ p # xs)"
    "\<forall>q. free_node h' q = free_node h1 q" by blast
  ultimately show ?case by auto
qed

lemma drain_all:
  "seq h xs \<Longrightarrow> length xs \<le> fuel \<Longrightarrow> \<exists>h'. drain_loop emp fst_entry del fuel h = Some (xs, h') \<and> seq h' []"
proof (induction xs arbitrary: h fuel)
  case Nil
  with emp_law show ?case by (cases fuel) auto
next
  case (Cons x xs)
  then obtain f where f: "fuel = Suc f" "length xs \<le> f" by (cases fuel) auto
  from del_law [of h "[]" x xs] Cons.prems(1) obtain h1 where "del x h = Some h1" "seq h1 xs" by auto
  with Cons.IH [of h1 f] f emp_law [OF Cons.prems(1)] fst_law [OF Cons.prems(1)] show ?case by auto
qed

text \<open>Last in, first out, when entries are added at the front and the list is then emptied.\<close>

lemma fill_drain:
  assumes "seq h []" "\<forall>p \<in> set ps. free_node h p" "distinct ps"
  shows "\<exists>h1 h2. each add ps h = Some h1 \<and> drain_loop emp fst_entry del (length ps) h1 = Some (rev ps, h2) \<and> seq h2 []"
  using add_each [OF assms(1-3)] drain_all [of _ "rev ps" "length ps"] by auto

end

interpretation klist: linked_sequence "\<lambda>h. is_list h head" "\<lambda>h p. p \<in> dom h \<and> p \<noteq> head"
  "list_empty head" "list_first_entry head" "\<lambda>p. list_add p head" "list_del" for head
proof
  show "list_empty head h = Some (xs = [])" if "is_list h head xs" for head h xs
    using that by (rule empty_spec)
  show "list_first_entry head h = Some x" if "is_list h head (x # xs)" for head h x xs
    using first_last_spec [OF that] by blast
  show "\<exists>h'. list_add p head h = Some h' \<and> is_list h' head (p # xs) \<and> (\<forall>q. (q \<in> dom h' \<and> q \<noteq> head) = (q \<in> dom h \<and> q \<noteq> head))"
    if "is_list h head xs" "p \<in> dom h \<and> p \<noteq> head" "p \<notin> set xs" for head h p xs
    using add_spec [of h head xs p] that by auto
  show "\<exists>h'. list_del p h = Some h' \<and> is_list h' head (as @ bs) \<and> (\<forall>q. (q \<in> dom h' \<and> q \<noteq> head) = (q \<in> dom h \<and> q \<noteq> head))"
    if "is_list h head (as @ p # bs)" for head h as p bs
    using del_spec [OF that] by auto
qed

section \<open>Sequences of operations\<close>

datatype list_op = OpAdd ptr | OpAddTail ptr | OpDel ptr | OpDelInit ptr | OpMove ptr | OpMoveTail ptr

fun exec_op :: "ptr \<Rightarrow> list_op \<Rightarrow> list_heap \<Rightarrow> list_heap option" where
  "exec_op head (OpAdd p) = list_add p head"
| "exec_op head (OpAddTail p) = list_add_tail p head"
| "exec_op head (OpDel p) = list_del p"
| "exec_op head (OpDelInit p) = list_del_init p"
| "exec_op head (OpMove p) = list_move p head"
| "exec_op head (OpMoveTail p) = list_move_tail p head"

text \<open>The same on sequences; \<open>None\<close> for what the functions do not allow: adding an entry that is in
  the list or is not a node, removing or moving one that is not in the list.\<close>

fun abs_op :: "ptr set \<Rightarrow> list_op \<Rightarrow> ptr list \<Rightarrow> ptr list option" where
  "abs_op D (OpAdd p) xs = (if p \<in> D \<and> p \<notin> set xs then Some (p # xs) else None)"
| "abs_op D (OpAddTail p) xs = (if p \<in> D \<and> p \<notin> set xs then Some (xs @ [p]) else None)"
| "abs_op D (OpDel p) xs = (if p \<in> set xs then Some (remove1 p xs) else None)"
| "abs_op D (OpDelInit p) xs = (if p \<in> set xs then Some (remove1 p xs) else None)"
| "abs_op D (OpMove p) xs = (if p \<in> set xs then Some (p # remove1 p xs) else None)"
| "abs_op D (OpMoveTail p) xs = (if p \<in> set xs then Some (remove1 p xs @ [p]) else None)"

lemma exec_op_refines:
  assumes l: "is_list h head xs" and abs: "abs_op (dom h - {head}) op xs = Some ys"
  shows "\<exists>h'. exec_op head op h = Some h' \<and> is_list h' head ys \<and> dom h' = dom h"
proof -
  have cut: "\<exists>as bs. xs = as @ p # bs \<and> remove1 p xs = as @ bs" if "p \<in> set xs" for p
  proof -
    from split_list_first [OF that] obtain as bs where "xs = as @ p # bs" "p \<notin> set as" by blast
    then show ?thesis by (intro exI [of _ as] exI [of _ bs]) (simp add: remove1_append)
  qed
  show ?thesis
  proof (cases op)
    case (OpAdd p)
    with abs add_spec [OF l, of p] show ?thesis by (auto split: if_splits)
  next
    case (OpAddTail p)
    with abs add_tail_spec [OF l, of p] show ?thesis by (auto split: if_splits)
  next
    case (OpDel p)
    with abs cut [of p] obtain as bs where "xs = as @ p # bs" "ys = as @ bs" by (auto split: if_splits)
    with OpDel l del_spec [of h head as p bs] show ?thesis by auto
  next
    case (OpDelInit p)
    with abs cut [of p] obtain as bs where "xs = as @ p # bs" "ys = as @ bs" by (auto split: if_splits)
    with OpDelInit l del_init_spec [of h head as p bs] show ?thesis by auto
  next
    case (OpMove p)
    with abs cut [of p] obtain as bs where "xs = as @ p # bs" "ys = p # as @ bs" by (auto split: if_splits)
    with OpMove l move_spec [of h head as p bs] show ?thesis by auto
  next
    case (OpMoveTail p)
    with abs cut [of p] obtain as bs where "xs = as @ p # bs" "ys = as @ bs @ [p]" by (auto split: if_splits)
    with OpMoveTail l move_tail_spec [of h head as p bs] show ?thesis by auto
  qed
qed

interpretation klist_ops: op_refinement "exec_op head" "abs_op (D - {head})" "\<lambda>h xs. is_list h head xs \<and> dom h = D"
  for head D
  by unfold_locales (use exec_op_refines in blast)

text \<open>C5. The list functions implement sequences: a series of additions, removals and moves that makes sense
  on the sequence of entries runs without a fault on the heap, and afterwards the list holds the
  resulting sequence, read forwards by \<open>list_for_each\<close>, backwards by \<open>list_for_each_prev\<close>, and
  \<open>list_empty\<close> tells whether it is empty.\<close>

theorem klist_refines:
  assumes "is_list h head xs" "each (abs_op (dom h - {head})) ops xs = Some ys" "length ys \<le> fuel"
  shows "\<exists>h'. each (exec_op head) ops h = Some h' \<and> is_list h' head ys \<and> list_for_each fuel head h' = Some ys
    \<and> list_for_each_prev fuel head h' = Some (rev ys) \<and> list_empty head h' = Some (ys = [])"
proof -
  from klist_ops.each_refines [of h head xs "dom h" ops ys] assms(1,2)
  have "\<exists>h'. each (exec_op head) ops h = Some h' \<and> is_list h' head ys" by auto
  with for_each_spec for_each_prev_spec empty_spec assms(3) show ?thesis by blast
qed

text \<open>Joining two lists: after \<open>list_splice_init\<close> of one non-overlapping list into another the second
  holds the entries of both, those of the first in front, and the first is empty.\<close>

theorem klist_splice:
  assumes "is_list h lst xs" "is_list h head ys" "set (lst # xs) \<inter> set (head # ys) = {}"
  shows "\<exists>h'. list_splice_init lst head h = Some h' \<and> is_list h' head (xs @ ys) \<and> is_list h' lst []"
  using splice_init_spec [OF assms] by blast

text \<open>The loop with which the file system empties its buffer list ends within as many turns as there are
  entries, visits every entry once, in order, never follows a pointer out of the heap, and leaves the list
  empty.\<close>

lemma klist_drain:
  assumes "is_list h head xs" "length xs \<le> fuel"
  shows "\<exists>h'. drain_loop (list_empty head) (list_first_entry head) list_del fuel h = Some (xs, h') \<and> is_list h' head []"
  using assms by (rule klist.drain_all)

section \<open>Witnesses\<close>

definition five_nodes :: list_heap where
  "five_nodes = (\<lambda>p. if p < 6 then Some \<lparr>nxt = 0, prv = 0\<rparr> else None)"

lemma five_nodes_dom: "dom five_nodes = {..<6}"
  by (auto simp: five_nodes_def split: if_splits)

lemma five_nodes_list: "\<exists>h. INIT_LIST_HEAD 0 five_nodes = Some h \<and> is_list h 0 [] \<and> dom h = {..<6}"
  using init_spec [of 0 five_nodes] five_nodes_dom by auto

definition demo_ops :: "list_op list" where
  "demo_ops = [OpAdd 1, OpAdd 2, OpAddTail 3, OpMove 3, OpDel 2, OpAddTail 4, OpMoveTail 1]"

theorem klist_refines_witness:
  "\<exists>h h'. INIT_LIST_HEAD 0 five_nodes = Some h \<and> each (exec_op 0) demo_ops h = Some h' \<and> list_for_each 3 0 h' = Some [3, 4, 1]"
proof -
  from five_nodes_list obtain h where h: "INIT_LIST_HEAD 0 five_nodes = Some h" "is_list h 0 []" "dom h = {..<6}" by blast
  have "each (abs_op (dom h - {0})) demo_ops [] = Some [3, 4, 1]" by (simp add: h(3) demo_ops_def)
  from klist_refines [OF h(2) this, of 3] h(1) show ?thesis by auto
qed

theorem klist_splice_witness:
  "\<exists>h h'. is_list h 0 [1, 2] \<and> is_list h 3 [4] \<and> list_splice_init 0 3 h = Some h' \<and> is_list h' 3 [1, 2, 4]"
proof -
  let ?h = "[0 \<mapsto> \<lparr>nxt = 1, prv = 2\<rparr>, 1 \<mapsto> \<lparr>nxt = 2, prv = 0\<rparr>, 2 \<mapsto> \<lparr>nxt = 0, prv = 1\<rparr>,
    3 \<mapsto> \<lparr>nxt = 4, prv = 4\<rparr>, 4 \<mapsto> \<lparr>nxt = 3, prv = 3\<rparr>]"
  have "is_list ?h 0 [1, 2]" "is_list ?h 3 [4]" by (simp_all add: is_list_def next_of_def prev_of_def)
  with klist_splice [of ?h 0 "[1, 2]" 3 "[4]"] show ?thesis by auto
qed

theorem klist_drain_witness:
  "\<exists>h h'. is_list h 0 [1, 2] \<and> drain_loop (list_empty 0) (list_first_entry 0) list_del 2 h = Some ([1, 2], h') \<and> is_list h' 0 []"
proof -
  let ?h = "[0 \<mapsto> \<lparr>nxt = 1, prv = 2\<rparr>, 1 \<mapsto> \<lparr>nxt = 2, prv = 0\<rparr>, 2 \<mapsto> \<lparr>nxt = 0, prv = 1\<rparr>]"
  have "is_list ?h 0 [1, 2]" by (simp add: is_list_def next_of_def prev_of_def)
  from klist_drain [OF this, of 2] this show ?thesis by auto
qed

end
