(* ===== verification/BbfsCache.thy ===== *)
theory BbfsCache
  imports BbfsCrypt KList
begin

text \<open>
  The chunk cache of \<open>src/project4/bbfs.c\<close>: \<open>bufferHitCheck\<close>, \<open>addFileBuffer\<close> with its two
  eviction policies, \<open>releaseFileBuffer\<close>, and the requests \<open>bb_read\<close> and \<open>bb_write\<close> on top of
  them. The buffer list is the sequence of the addresses of its nodes, on which the functions of
  \<open>list.h\<close> act as shown in \<open>KList\<close>; the nodes themselves are a heap, so that a use of a freed
  node is a fault. The file below the file system is a byte sequence per open descriptor.
\<close>

section \<open>The file below\<close>

type_synonym fd = int

definition EBADF :: int where "EBADF = 9"
definition EINVAL :: int where "EINVAL = 22"

type_synonym disk = "fd \<Rightarrow> byte list option"

text \<open>\<open>pread\<close>: the result, the error number and the bytes read.\<close>

definition pread :: "disk \<Rightarrow> fd \<Rightarrow> nat \<Rightarrow> int \<Rightarrow> int \<times> int \<times> byte list" where
  "pread d f n off =
     (case d f of
        None \<Rightarrow> (-1, EBADF, [])
      | Some c \<Rightarrow> if off < 0 then (-1, EINVAL, [])
                  else let bs = take n (drop (nat off) c) in (int (length bs), 0, bs))"

text \<open>\<open>pwrite\<close>: a write beyond the end fills the gap with zeros.\<close>

definition write_at :: "byte list \<Rightarrow> nat \<Rightarrow> byte list \<Rightarrow> byte list" where
  "write_at c off bs = take off (c @ replicate (off - length c) 0) @ bs @ drop (off + length bs) c"

definition pwrite :: "disk \<Rightarrow> fd \<Rightarrow> byte list \<Rightarrow> int \<Rightarrow> int \<times> int \<times> disk" where
  "pwrite d f bs off =
     (case d f of
        None \<Rightarrow> (-1, EBADF, d)
      | Some c \<Rightarrow> if off < 0 then (-1, EINVAL, d)
                  else (int (length bs), 0, d(f \<mapsto> write_at c (nat off) bs)))"

section \<open>Cache state\<close>

definition MAX_CHUNK_SIZE :: nat where "MAX_CHUNK_SIZE = 4096"
definition MAX_LIST_SIZE :: nat where "MAX_LIST_SIZE = 1280"

datatype hit_type = PERFECT_HIT | PARTIAL_HIT | PARTIAL_MISS | PERFECT_MISS

record filebuffer =
  fb_from :: int
  fb_to :: int
  fb_dirty :: int
  fb_fd :: fd
  fb_buf :: "byte list"

record hitinfo =
  hit_type :: hit_type
  firstpart :: "ptr option"
  secondpart :: "ptr option"

record bbfs =
  pol :: policy
  bufferCount :: int
  accessCount :: int
  hitCount :: int
  missCount :: int
  headptr :: "ptr list"
  nodes :: "ptr \<rightharpoonup> filebuffer"
  next_node :: ptr
  files :: disk

definition bbfs_boot :: "disk \<Rightarrow> bbfs" where
  "bbfs_boot d = \<lparr>pol = policy_boot, bufferCount = 0, accessCount = 0, hitCount = 0, missCount = 0,
     headptr = [], nodes = Map.empty, next_node = 1, files = d\<rparr>"

text \<open>The conversion of an offset to \<open>int\<close>.\<close>

definition int32 :: "int \<Rightarrow> int" where
  "int32 x = sint (word_of_int x :: 32 word)"

definition move_front :: "ptr \<Rightarrow> bbfs \<Rightarrow> bbfs" where
  "move_front p s = s\<lparr>headptr := p # remove1 p (headptr s)\<rparr>"

section \<open>Looking up a request\<close>

text \<open>The search loop: the flag tells that it was left by the \<open>break\<close> of a perfect hit.\<close>

fun hit_scan :: "(ptr \<rightharpoonup> filebuffer) \<Rightarrow> int \<Rightarrow> int \<Rightarrow> fd \<Rightarrow> ptr list \<Rightarrow> ptr option \<Rightarrow> ptr option
    \<Rightarrow> (bool \<times> ptr option \<times> ptr option) option" where
  "hit_scan nds tfrom tto f [] fp sp = Some (False, fp, sp)"
| "hit_scan nds tfrom tto f (p # ps) fp sp = do {
     b \<leftarrow> nds p;
     if fb_fd b = f \<and> fb_from b = tfrom then Some (True, Some p, sp)
     else
       let fp' = (if fb_fd b = f \<and> fb_from b < tfrom \<and> tfrom < fb_to b then Some p else fp);
           sp' = (if fb_fd b = f \<and> fb_from b < tto \<and> tto < fb_to b then Some p else sp)
       in hit_scan nds tfrom tto f ps fp' sp'
   }"

definition bufferHitCheck :: "int \<Rightarrow> int \<Rightarrow> fd \<Rightarrow> bbfs \<Rightarrow> (hitinfo \<times> bbfs) option" where
  "bufferHitCheck offset reqSize f s = do {
     let s = s\<lparr>accessCount := accessCount s + 1\<rparr>;
     (perfect, fp, sp) \<leftarrow> hit_scan (nodes s) offset (int32 (offset + reqSize)) f (headptr s) None None;
     if perfect then do {
       p \<leftarrow> fp;
       Some (\<lparr>hit_type = PERFECT_HIT, firstpart = fp, secondpart = sp\<rparr>,
         move_front p (s\<lparr>hitCount := hitCount s + 1\<rparr>))
     }
     else (case (fp, sp) of
         (Some p, Some q) \<Rightarrow> Some (\<lparr>hit_type = PARTIAL_HIT, firstpart = fp, secondpart = sp\<rparr>,
           move_front p (move_front q (s\<lparr>hitCount := hitCount s + 1\<rparr>)))
       | (Some p, None) \<Rightarrow> Some (\<lparr>hit_type = PARTIAL_MISS, firstpart = fp, secondpart = sp\<rparr>,
           move_front p (s\<lparr>missCount := missCount s + 1\<rparr>))
       | (None, Some q) \<Rightarrow> Some (\<lparr>hit_type = PARTIAL_MISS, firstpart = fp, secondpart = sp\<rparr>,
           move_front q (s\<lparr>missCount := missCount s + 1\<rparr>))
       | (None, None) \<Rightarrow> Some (\<lparr>hit_type = PERFECT_MISS, firstpart = fp, secondpart = sp\<rparr>,
           s\<lparr>missCount := missCount s + 1\<rparr>))
   }"

section \<open>Eviction and insertion\<close>

text \<open>\<open>list_del\<close>, the write-back of a dirty buffer to \<open>f\<close>, and \<open>free\<close>.\<close>

definition drop_node :: "fd option \<Rightarrow> ptr \<Rightarrow> bbfs \<Rightarrow> bbfs option" where
  "drop_node target p s = do {
     b \<leftarrow> nodes s p;
     let f = (case target of Some f \<Rightarrow> f | None \<Rightarrow> fb_fd b);
     let d = (if fb_dirty b = 1 then snd (snd (pwrite (files s) f (fb_buf b) (fb_from b))) else files s);
     Some (s\<lparr>headptr := remove1 p (headptr s), nodes := (nodes s)(p := None), files := d\<rparr>)
   }"

text \<open>One eviction; \<open>r\<close> is the value of \<open>rand\<close>. The loop of the random policy stops at the chosen
  position, and evicts nothing when the list is shorter than that.\<close>

definition evict :: "nat \<Rightarrow> bbfs \<Rightarrow> bbfs option" where
  "evict r s =
     (if cachePolicy (pol s) = 1 then
        (let targetEviction = 1 + int r mod bufferCount s in
         if targetEviction \<le> int (length (headptr s))
         then drop_node None (headptr s ! nat (targetEviction - 1)) s
         else Some s)
      else if headptr s = [] then None
      else drop_node None (last (headptr s)) s)"

definition addFileBuffer :: "string option \<Rightarrow> nat \<Rightarrow> byte list \<Rightarrow> int \<Rightarrow> int \<Rightarrow> fd \<Rightarrow> bbfs \<Rightarrow> bbfs option" where
  "addFileBuffer conf r bytes frm tto f s = do {
     s \<leftarrow> (if bufferCount s \<ge> int MAX_LIST_SIZE then do {
              s \<leftarrow> evict r (s\<lparr>pol := loadPolicyFromFile conf (pol s)\<rparr>);
              Some (s\<lparr>bufferCount := bufferCount s - 1\<rparr>)
            }
            else Some s);
     if length bytes < MAX_CHUNK_SIZE then None
     else
       let b = \<lparr>fb_from = int32 frm, fb_to = int32 tto, fb_dirty = 0, fb_fd = f, fb_buf = take MAX_CHUNK_SIZE bytes\<rparr>;
           p = next_node s
       in Some (s\<lparr>nodes := (nodes s)(p \<mapsto> b), next_node := p + 1, headptr := p # headptr s,
            bufferCount := bufferCount s + 1\<rparr>)
   }"

text \<open>The loops of \<open>releaseFileBuffer\<close> and \<open>removeAllBufferCache\<close>: the first entry goes until the
  list is empty. \<open>releaseFileBuffer\<close> writes every dirty buffer to the descriptor that is closed.\<close>

fun drop_all :: "fd option \<Rightarrow> ptr list \<Rightarrow> bbfs \<Rightarrow> bbfs option" where
  "drop_all target [] s = Some s"
| "drop_all target (p # ps) s = do { s \<leftarrow> drop_node target p s; drop_all target ps s }"

definition releaseFileBuffer :: "fd \<Rightarrow> bbfs \<Rightarrow> bbfs option" where
  "releaseFileBuffer f s = do {
     s \<leftarrow> drop_all (Some f) (headptr s) s;
     Some (s\<lparr>accessCount := 0, hitCount := 0, missCount := 0, bufferCount := 0, headptr := []\<rparr>)
   }"

text \<open>\<open>removeAllBufferCache\<close> frees the nodes without writing anything back.\<close>

fun free_all :: "ptr list \<Rightarrow> bbfs \<Rightarrow> bbfs option" where
  "free_all [] s = Some s"
| "free_all (p # ps) s = do {
     b \<leftarrow> nodes s p;
     free_all ps (s\<lparr>headptr := remove1 p (headptr s), nodes := (nodes s)(p := None)\<rparr>)
   }"

definition removeAllBufferCache :: "bbfs \<Rightarrow> bbfs option" where
  "removeAllBufferCache s = do {
     s \<leftarrow> free_all (headptr s) s;
     Some (s\<lparr>bufferCount := 0, headptr := []\<rparr>)
   }"

section \<open>Read\<close>

text \<open>A buffer from \<open>calloc\<close> into which \<open>pread\<close> has read; its result is ignored.\<close>

definition pread_into :: "nat \<Rightarrow> disk \<Rightarrow> fd \<Rightarrow> int \<Rightarrow> byte list" where
  "pread_into n d f off = (let bs = snd (snd (pread d f n off)) in bs @ replicate (n - length bs) 0)"

text \<open>\<open>sprintf (totalbuf, "%s%s", a, b)\<close> into a zeroed buffer of two chunks: each \<open>%s\<close> stops at the
  first zero byte, and reads past the end of the chunk when there is none.\<close>

definition sprintf_ss :: "byte list \<Rightarrow> byte list \<Rightarrow> byte list option" where
  "sprintf_ss a b =
     (if 0 \<in> set a \<and> 0 \<in> set b then
        (let t = takeWhile (\<lambda>x. x \<noteq> 0) a @ takeWhile (\<lambda>x. x \<noteq> 0) b
         in Some (t @ replicate (2 * MAX_CHUNK_SIZE - length t) 0))
      else None)"

definition chunk_slice :: "nat \<Rightarrow> nat \<Rightarrow> byte list \<Rightarrow> byte list" where
  "chunk_slice off n bs = take n (drop off bs)"

definition read_partial_hit :: "int \<Rightarrow> hitinfo \<Rightarrow> bbfs \<Rightarrow> (byte list \<times> bbfs) option" where
  "read_partial_hit offset info s = do {
     p \<leftarrow> firstpart info; q \<leftarrow> secondpart info;
     a \<leftarrow> nodes s p; b \<leftarrow> nodes s q;
     totalbuf \<leftarrow> sprintf_ss (fb_buf a) (fb_buf b);
     Some (chunk_slice (nat (offset mod int MAX_CHUNK_SIZE)) MAX_CHUNK_SIZE totalbuf, s)
   }"

definition read_partial_miss :: "string option \<Rightarrow> nat \<Rightarrow> int \<Rightarrow> fd \<Rightarrow> hitinfo \<Rightarrow> bbfs \<Rightarrow> (byte list \<times> bbfs) option" where
  "read_partial_miss conf r offset f info s =
     (let n = MAX_CHUNK_SIZE; refinedOffset = nat (offset mod int n) in
      case firstpart info of
        Some p \<Rightarrow> do {
          a \<leftarrow> nodes s p;
          let start = fb_to a;
          let tempbuf = pread_into n (files s) f start;
          s \<leftarrow> addFileBuffer conf r tempbuf start (start + int n) f s;
          a \<leftarrow> nodes s p;
          totalbuf \<leftarrow> sprintf_ss (fb_buf a) tempbuf;
          Some (chunk_slice refinedOffset n totalbuf, s)
        }
      | None \<Rightarrow> do {
          q \<leftarrow> secondpart info;
          b \<leftarrow> nodes s q;
          let start = fb_to b - int n;
          let tempbuf = pread_into n (files s) f start;
          s \<leftarrow> addFileBuffer conf r tempbuf start (start + int n) f s;
          b \<leftarrow> nodes s q;
          totalbuf \<leftarrow> sprintf_ss tempbuf (fb_buf b);
          Some (chunk_slice refinedOffset n totalbuf, s)
        })"

definition read_perfect_miss :: "string option \<Rightarrow> nat \<times> nat \<Rightarrow> int \<Rightarrow> fd \<Rightarrow> bbfs \<Rightarrow> (byte list \<times> bbfs) option" where
  "read_perfect_miss conf rs offset f s =
     (let n = MAX_CHUNK_SIZE; p = offset mod int n in
      if p = 0 then
        let start = int32 offset; tempbuf = pread_into n (files s) f start in do {
          s \<leftarrow> addFileBuffer conf (fst rs) tempbuf start (start + int n) f s;
          Some (tempbuf, s)
        }
      else
        let start = int32 (offset - p); tempbuf = pread_into (2 * n) (files s) f start in do {
          s \<leftarrow> addFileBuffer conf (fst rs) tempbuf start (start + int n) f s;
          s \<leftarrow> addFileBuffer conf (snd rs) (drop n tempbuf) (start + int n) (start + int n + int n) f s;
          Some (chunk_slice (nat p) n tempbuf, s)
        })"

definition cached_read :: "string option \<Rightarrow> nat \<times> nat \<Rightarrow> int \<Rightarrow> fd \<Rightarrow> bbfs \<Rightarrow> (byte list \<times> bbfs) option" where
  "cached_read conf rs offset f s = do {
     (info, s) \<leftarrow> bufferHitCheck (int32 offset) (int MAX_CHUNK_SIZE) f s;
     case hit_type info of
       PERFECT_HIT \<Rightarrow> do { p \<leftarrow> firstpart info; a \<leftarrow> nodes s p; Some (fb_buf a, s) }
     | PARTIAL_HIT \<Rightarrow> read_partial_hit offset info s
     | PARTIAL_MISS \<Rightarrow> read_partial_miss conf (fst rs) offset f info s
     | PERFECT_MISS \<Rightarrow> read_perfect_miss conf rs offset f s
   }"

text \<open>\<open>bb_read\<close>: the value returned and the bytes stored in the caller's buffer. The policy file does
  not change during a request; \<open>rs\<close> are the values of \<open>rand\<close>.\<close>

definition bb_read :: "string option \<Rightarrow> nat \<times> nat \<Rightarrow> nat \<Rightarrow> int \<Rightarrow> fd \<Rightarrow> bbfs \<Rightarrow> (int \<times> byte list \<times> bbfs) option" where
  "bb_read conf rs sz offset f s =
     (let s = s\<lparr>pol := loadPolicyFromFile conf (pol s)\<rparr> in
      if cachePolicy (pol s) \<noteq> 0 \<and> sz = MAX_CHUNK_SIZE then do {
        (bytes, s) \<leftarrow> cached_read conf rs offset f s;
        Some (int sz, decrypt_buffer (pol s) bytes, s)
      }
      else
        let (retstat, errno, bytes) = pread (files s) f sz offset in
        if retstat < 0 then Some (- errno, [], s)
        else Some (retstat, decrypt_buffer (pol s) bytes, s))"

section \<open>Write\<close>

text \<open>\<open>strncpy\<close> stops at the first zero byte and fills up with zeros.\<close>

definition strncpy :: "byte list \<Rightarrow> byte list" where
  "strncpy bs = (let t = takeWhile (\<lambda>x. x \<noteq> 0) bs in t @ replicate (length bs - length t) 0)"

definition overlay :: "byte list \<Rightarrow> nat \<Rightarrow> byte list \<Rightarrow> byte list" where
  "overlay dst off bs = take off dst @ bs @ drop (off + length bs) dst"

definition write_partial_hit :: "int \<Rightarrow> byte list \<Rightarrow> hitinfo \<Rightarrow> bbfs \<Rightarrow> bbfs option" where
  "write_partial_hit offset bytes info s = do {
     p \<leftarrow> firstpart info; q \<leftarrow> secondpart info;
     a \<leftarrow> nodes s p; b \<leftarrow> nodes s q;
     totalbuf \<leftarrow> sprintf_ss (fb_buf a) (fb_buf b);
     let totalbuf = overlay totalbuf (nat (offset mod int MAX_CHUNK_SIZE)) bytes;
     let nds = (nodes s)(p \<mapsto> a\<lparr>fb_buf := take MAX_CHUNK_SIZE totalbuf, fb_dirty := 1\<rparr>);
     b \<leftarrow> nds q;
     Some (s\<lparr>nodes := nds(q \<mapsto> b\<lparr>fb_buf := drop MAX_CHUNK_SIZE totalbuf, fb_dirty := 1\<rparr>)\<rparr>)
   }"

definition write_partial_miss :: "string option \<Rightarrow> nat \<Rightarrow> int \<Rightarrow> fd \<Rightarrow> byte list \<Rightarrow> hitinfo \<Rightarrow> bbfs \<Rightarrow> bbfs option" where
  "write_partial_miss conf r offset f bytes info s =
     (let n = MAX_CHUNK_SIZE; refinedOffset = nat (offset mod int n) in
      case firstpart info of
        Some p \<Rightarrow> do {
          a \<leftarrow> nodes s p;
          let start = fb_to a;
          let tempbuf = pread_into n (files s) f start;
          totalbuf \<leftarrow> sprintf_ss (fb_buf a) tempbuf;
          let totalbuf = overlay totalbuf refinedOffset bytes;
          addFileBuffer conf r (drop n totalbuf) (start + int n) (start + int n + int n) f
            (s\<lparr>nodes := (nodes s)(p \<mapsto> a\<lparr>fb_buf := take n totalbuf, fb_dirty := 1\<rparr>)\<rparr>)
        }
      | None \<Rightarrow> do {
          q \<leftarrow> secondpart info;
          b \<leftarrow> nodes s q;
          let start = fb_from b - int n;
          let tempbuf = pread_into n (files s) f start;
          totalbuf \<leftarrow> sprintf_ss tempbuf (fb_buf b);
          let totalbuf = overlay totalbuf refinedOffset bytes;
          addFileBuffer conf r (take n totalbuf) start (start + int n) f
            (s\<lparr>nodes := (nodes s)(q \<mapsto> b\<lparr>fb_buf := drop n totalbuf\<rparr>)\<rparr>)
        })"

definition write_perfect_miss :: "string option \<Rightarrow> nat \<times> nat \<Rightarrow> int \<Rightarrow> fd \<Rightarrow> byte list \<Rightarrow> bbfs \<Rightarrow> bbfs option" where
  "write_perfect_miss conf rs offset f bytes s =
     (let n = MAX_CHUNK_SIZE; p = offset mod int n in
      if p = 0 then
        let start = int32 offset in addFileBuffer conf (fst rs) bytes start (start + int n) f s
      else
        let start = int32 (offset - p);
            tempbuf = overlay (pread_into (2 * n) (files s) f start) (nat p) bytes in do {
          s \<leftarrow> addFileBuffer conf (fst rs) tempbuf start (start + int n) f s;
          addFileBuffer conf (snd rs) (drop n tempbuf) (start + int n) (start + int n + int n) f s
        })"

definition cached_write :: "string option \<Rightarrow> nat \<times> nat \<Rightarrow> int \<Rightarrow> fd \<Rightarrow> byte list \<Rightarrow> bbfs \<Rightarrow> bbfs option" where
  "cached_write conf rs offset f bytes s = do {
     (info, s) \<leftarrow> bufferHitCheck (int32 offset) (int MAX_CHUNK_SIZE) f s;
     case hit_type info of
       PERFECT_HIT \<Rightarrow> do {
         p \<leftarrow> firstpart info; a \<leftarrow> nodes s p;
         Some (s\<lparr>nodes := (nodes s)(p \<mapsto> a\<lparr>fb_buf := bytes, fb_dirty := 1\<rparr>)\<rparr>)
       }
     | PARTIAL_HIT \<Rightarrow> write_partial_hit offset bytes info s
     | PARTIAL_MISS \<Rightarrow> write_partial_miss conf (fst rs) offset f bytes info s
     | PERFECT_MISS \<Rightarrow> write_perfect_miss conf rs offset f bytes s
   }"

definition bb_write :: "string option \<Rightarrow> nat \<times> nat \<Rightarrow> byte list \<Rightarrow> int \<Rightarrow> fd \<Rightarrow> bbfs \<Rightarrow> (int \<times> bbfs) option" where
  "bb_write conf rs bytes offset f s =
     (let s = s\<lparr>pol := loadPolicyFromFile conf (pol s)\<rparr>;
          intermediateBuf = encrypt_buffer (pol s) (strncpy bytes) in
      if cachePolicy (pol s) \<noteq> 0 \<and> length bytes = MAX_CHUNK_SIZE then do {
        s \<leftarrow> cached_write conf rs offset f intermediateBuf s;
        Some (int (length bytes), s)
      }
      else
        let (retstat, errno, d) = pwrite (files s) f intermediateBuf offset in
        if retstat < 0 then Some (- errno, s) else Some (retstat, s\<lparr>files := d\<rparr>))"


section \<open>Well-formed caches\<close>

text \<open>The count is the length of the list and within the bound, the nodes of the list are exactly the
  allocated ones, and every buffer holds a whole chunk.\<close>

definition cache_wf :: "bbfs \<Rightarrow> bool" where
  "cache_wf s \<longleftrightarrow> policy_ok (pol s) \<and> bufferCount s = int (length (headptr s)) \<and> length (headptr s) \<le> MAX_LIST_SIZE \<and>
     distinct (headptr s) \<and> dom (nodes s) = set (headptr s) \<and> (\<forall>p \<in> set (headptr s). p < next_node s) \<and>
     (\<forall>p b. nodes s p = Some b \<longrightarrow> length (fb_buf b) = MAX_CHUNK_SIZE)"

lemma cache_wf_boot: "cache_wf (bbfs_boot d)"
  by (simp add: cache_wf_def bbfs_boot_def policy_ok_def policy_boot_def)

lemma cache_wf_load: "cache_wf s \<Longrightarrow> cache_wf (s\<lparr>pol := loadPolicyFromFile conf (pol s)\<rparr>)"
  by (simp add: cache_wf_def load_policy_ok)

lemma wf_node: "cache_wf s \<Longrightarrow> p \<in> set (headptr s) \<Longrightarrow> \<exists>b. nodes s p = Some b \<and> length (fb_buf b) = MAX_CHUNK_SIZE"
  unfolding cache_wf_def by blast

lemma length_move: "p \<in> set xs \<Longrightarrow> Suc (length (remove1 p xs)) = length xs"
  using length_pos_if_in_set [of p xs] by (simp add: length_remove1)

lemma move_front_wf: "cache_wf s \<Longrightarrow> p \<in> set (headptr s) \<Longrightarrow> cache_wf (move_front p s)"
  using length_move [of p "headptr s"] by (auto simp: cache_wf_def move_front_def set_remove1_eq)

lemma stats_wf [simp]:
  "cache_wf (s\<lparr>accessCount := x\<rparr>) = cache_wf s" "cache_wf (s\<lparr>hitCount := x\<rparr>) = cache_wf s"
  "cache_wf (s\<lparr>missCount := x\<rparr>) = cache_wf s" "cache_wf (s\<lparr>files := d\<rparr>) = cache_wf s"
  by (simp_all add: cache_wf_def)

lemma hit_scan_mem:
  "hit_scan nds a b f ps fp sp = Some (e, x, y) \<Longrightarrow>
   set_option x \<subseteq> set ps \<union> set_option fp \<and> set_option y \<subseteq> set ps \<union> set_option sp \<and> (e \<longrightarrow> x \<noteq> None)"
proof (induction ps arbitrary: fp sp)
  case (Cons p ps)
  then obtain c where "nds p = Some c" by (auto simp: bind_eq_Some_conv)
  with Cons.prems Cons.IH show ?case by (fastforce simp: Let_def split: if_splits)
qed simp

lemma hit_check_wf:
  assumes wf: "cache_wf s" and hit: "bufferHitCheck off n f s = Some (info, s')"
  shows "cache_wf s' \<and> set (headptr s') = set (headptr s) \<and> nodes s' = nodes s \<and> files s' = files s \<and> pol s' = pol s \<and>
    set_option (firstpart info) \<subseteq> set (headptr s) \<and> set_option (secondpart info) \<subseteq> set (headptr s)"
proof -
  let ?s = "s\<lparr>accessCount := accessCount s + 1\<rparr>"
  from hit obtain e fp sp where scan: "hit_scan (nodes s) off (int32 (off + n)) f (headptr s) None None = Some (e, fp, sp)"
    by (auto simp: bufferHitCheck_def Let_def bind_eq_Some_conv)
  from hit_scan_mem [OF scan] have mem: "set_option fp \<subseteq> set (headptr s)" "set_option sp \<subseteq> set (headptr s)" "e \<longrightarrow> fp \<noteq> None"
    by auto
  have mf: "cache_wf (move_front p u) \<and> set (headptr (move_front p u)) = set (headptr u)"
    if "cache_wf u" "p \<in> set (headptr u)" for u p
    using that move_front_wf [OF that] by (auto simp: move_front_def cache_wf_def set_remove1_eq)
  have keep: "nodes (move_front p u) = nodes u" "files (move_front p u) = files u" "pol (move_front p u) = pol u" for p u
    by (simp_all add: move_front_def)
  show ?thesis
    using hit scan mem wf mf [of "?s\<lparr>hitCount := hitCount s + 1\<rparr>"] mf [of "?s\<lparr>missCount := missCount s + 1\<rparr>"]
      mf [of "move_front (the sp) (?s\<lparr>hitCount := hitCount s + 1\<rparr>)"]
    by (cases fp; cases sp) (auto simp: bufferHitCheck_def Let_def keep split: if_splits)
qed

lemma drop_node_wf:
  assumes wf: "cache_wf s" and p: "p \<in> set (headptr s)"
  shows "\<exists>s'. drop_node t p s = Some s' \<and> cache_wf (s'\<lparr>bufferCount := bufferCount s - 1\<rparr>) \<and> headptr s' = remove1 p (headptr s)
    \<and> nodes s' = (nodes s)(p := None) \<and> bufferCount s' = bufferCount s \<and> next_node s' = next_node s \<and> pol s' = pol s"
proof -
  from wf_node [OF wf p] obtain b where "nodes s p = Some b" by blast
  with wf p length_move [OF p] show ?thesis
    by (auto simp: drop_node_def cache_wf_def set_remove1_eq split: option.splits if_splits)
qed

lemma evict_wf:
  assumes wf: "cache_wf s" and ne: "headptr s \<noteq> []"
  shows "\<exists>s' p. evict r s = Some s' \<and> drop_node None p s = Some s' \<and> p \<in> set (headptr s)
    \<and> cache_wf (s'\<lparr>bufferCount := bufferCount s' - 1\<rparr>) \<and> length (headptr s') = length (headptr s) - 1
    \<and> (cachePolicy (pol s) \<noteq> 1 \<longrightarrow> p = last (headptr s))"
proof -
  have cnt: "bufferCount s = int (length (headptr s))" "0 < bufferCount s" using wf ne by (auto simp: cache_wf_def)
  then have lim: "1 + int r mod bufferCount s \<le> bufferCount s" "0 \<le> int r mod bufferCount s"
    using pos_mod_bound [of "bufferCount s" "int r"] pos_mod_sign [of "bufferCount s" "int r"] by linarith+
  define p where "p = (if cachePolicy (pol s) = 1 then headptr s ! nat (int r mod bufferCount s) else last (headptr s))"
  have "nat (int r mod bufferCount s) < length (headptr s)" using lim cnt by linarith
  then have p: "p \<in> set (headptr s)" using ne by (auto simp: p_def)
  from drop_node_wf [OF wf this, of None] obtain s' where
    s': "drop_node None p s = Some s'" "cache_wf (s'\<lparr>bufferCount := bufferCount s - 1\<rparr>)"
      "headptr s' = remove1 p (headptr s)" "bufferCount s' = bufferCount s" by blast
  moreover have "evict r s = drop_node None p s" using lim cnt ne by (simp add: evict_def p_def Let_def)
  ultimately show ?thesis using p by (auto simp: p_def length_remove1 split: if_splits)
qed


text \<open>Adding a buffer: at most one node leaves the cache, and the new one comes to the front.\<close>

lemma add_wf:
  assumes wf: "cache_wf s" and len: "MAX_CHUNK_SIZE \<le> length bytes"
  shows "\<exists>s'. addFileBuffer conf r bytes a b f s = Some s' \<and> cache_wf s'"
proof -
  let ?s = "s\<lparr>pol := loadPolicyFromFile conf (pol s)\<rparr>"
  have new: "cache_wf (u\<lparr>nodes := (nodes u)(next_node u \<mapsto> c), next_node := next_node u + 1,
      headptr := next_node u # headptr u, bufferCount := bufferCount u + 1\<rparr>)"
    if "cache_wf u" "length (headptr u) < MAX_LIST_SIZE" "length (fb_buf c) = MAX_CHUNK_SIZE" for u c
    using that by (auto simp: cache_wf_def)
  show ?thesis
  proof (cases "bufferCount s \<ge> int MAX_LIST_SIZE")
    case True
    have ne: "headptr ?s \<noteq> []" using wf True by (auto simp: cache_wf_def MAX_LIST_SIZE_def)
    from evict_wf [OF cache_wf_load [OF wf] this] obtain u where
      u: "evict r ?s = Some u" "cache_wf (u\<lparr>bufferCount := bufferCount u - 1\<rparr>)" "length (headptr u) = length (headptr s) - 1"
      by auto
    have "length (headptr u) < MAX_LIST_SIZE" using u(3) wf by (auto simp: cache_wf_def MAX_LIST_SIZE_def)
    with new [OF u(2)] u(1) len True show ?thesis by (simp add: addFileBuffer_def Let_def)
  next
    case False
    with wf have "length (headptr s) < MAX_LIST_SIZE" by (simp add: cache_wf_def)
    with new [OF wf] len False show ?thesis by (simp add: addFileBuffer_def Let_def)
  qed
qed

lemma add_keeps_wf:
  "addFileBuffer conf r t a b f v = Some v' \<Longrightarrow> cache_wf v \<Longrightarrow> MAX_CHUNK_SIZE \<le> length t \<Longrightarrow> cache_wf v'"
  using add_wf [of v t conf r a b f] by auto

lemma add_two_wf:
  "addFileBuffer conf r t a b f v = Some w \<Longrightarrow> addFileBuffer conf r' (drop MAX_CHUNK_SIZE t) a' b' f w = Some v' \<Longrightarrow>
   cache_wf v \<Longrightarrow> length t = 2 * MAX_CHUNK_SIZE \<Longrightarrow> cache_wf v'"
  using add_keeps_wf [of conf r t a b f v w] add_keeps_wf [of conf r' "drop MAX_CHUNK_SIZE t" a' b' f w v'] by simp

lemma pread_into_length [simp]: "length (pread_into n d f off) = n"
  by (auto simp: pread_into_def pread_def Let_def split: option.splits)

lemma sprintf_ss_length:
  assumes "sprintf_ss a b = Some t" "length a = MAX_CHUNK_SIZE" "length b = MAX_CHUNK_SIZE"
  shows "length t = 2 * MAX_CHUNK_SIZE"
proof -
  have "length (takeWhile (\<lambda>x. x \<noteq> 0) a @ takeWhile (\<lambda>x. x \<noteq> 0) b) \<le> 2 * MAX_CHUNK_SIZE"
    using length_takeWhile_le [of "\<lambda>x. x \<noteq> 0" a] length_takeWhile_le [of "\<lambda>x. x \<noteq> 0" b] assms(2,3) by simp
  then show ?thesis using assms(1) by (auto simp: sprintf_ss_def Let_def split: if_splits)
qed

lemma overlay_length [simp]: "off + length bs \<le> length t \<Longrightarrow> length (overlay t off bs) = length t"
  by (simp add: overlay_def)

lemma strncpy_length [simp]: "length (strncpy bs) = length bs"
  by (simp add: strncpy_def Let_def length_takeWhile_le)

lemma write_node_wf:
  "cache_wf s \<Longrightarrow> nodes s p = Some a \<Longrightarrow> length bs = MAX_CHUNK_SIZE \<Longrightarrow>
   cache_wf (s\<lparr>nodes := (nodes s)(p \<mapsto> a\<lparr>fb_buf := bs, fb_dirty := d\<rparr>)\<rparr>)"
  "cache_wf s \<Longrightarrow> nodes s p = Some a \<Longrightarrow> length bs = MAX_CHUNK_SIZE \<Longrightarrow>
   cache_wf (s\<lparr>nodes := (nodes s)(p \<mapsto> a\<lparr>fb_buf := bs\<rparr>)\<rparr>)"
  by (auto simp: cache_wf_def)

lemma chunk_offset: "nat (off mod int MAX_CHUNK_SIZE) + MAX_CHUNK_SIZE \<le> 2 * MAX_CHUNK_SIZE"
  using pos_mod_bound [of "int MAX_CHUNK_SIZE" off] by (simp add: MAX_CHUNK_SIZE_def)

lemma cached_read_wf:
  assumes wf: "cache_wf s" and rd: "cached_read conf rs off f s = Some (bs, s')"
  shows "cache_wf s'"
proof -
  from rd obtain info u where hit: "bufferHitCheck (int32 off) (int MAX_CHUNK_SIZE) f s = Some (info, u)"
    by (auto simp: cached_read_def bind_eq_Some_conv)
  with hit_check_wf [OF wf] have u: "cache_wf u" by blast
  from rd hit u show ?thesis
    by (auto simp: cached_read_def read_partial_hit_def read_partial_miss_def read_perfect_miss_def Let_def
        bind_eq_Some_conv split: hit_type.splits option.splits if_splits intro: add_keeps_wf add_two_wf)
qed


lemma write_partial_hit_wf:
  assumes wf: "cache_wf s" and len: "length bs = MAX_CHUNK_SIZE" and wr: "write_partial_hit off bs info s = Some s'"
  shows "cache_wf s'"
proof -
  let ?o = "nat (off mod int MAX_CHUNK_SIZE)"
  from wr obtain p q a b t c where n: "nodes s p = Some a" "nodes s q = Some b" "sprintf_ss (fb_buf a) (fb_buf b) = Some t"
    and c: "((nodes s)(p \<mapsto> a\<lparr>fb_buf := take MAX_CHUNK_SIZE (overlay t ?o bs), fb_dirty := 1\<rparr>)) q = Some c"
    and s': "s' = s\<lparr>nodes := (nodes s)(p \<mapsto> a\<lparr>fb_buf := take MAX_CHUNK_SIZE (overlay t ?o bs), fb_dirty := 1\<rparr>,
      q \<mapsto> c\<lparr>fb_buf := drop MAX_CHUNK_SIZE (overlay t ?o bs), fb_dirty := 1\<rparr>)\<rparr>"
    unfolding write_partial_hit_def Let_def by (auto simp only: bind_eq_Some_conv option.inject)
  have "length (fb_buf a) = MAX_CHUNK_SIZE" "length (fb_buf b) = MAX_CHUNK_SIZE" using wf n by (auto simp: cache_wf_def)
  then have "length t = 2 * MAX_CHUNK_SIZE" using n(3) by (intro sprintf_ss_length)
  then have t: "length (overlay t ?o bs) = 2 * MAX_CHUNK_SIZE" using chunk_offset [of off] len by simp
  let ?u = "s\<lparr>nodes := (nodes s)(p \<mapsto> a\<lparr>fb_buf := take MAX_CHUNK_SIZE (overlay t ?o bs), fb_dirty := 1\<rparr>)\<rparr>"
  have "cache_wf ?u" using wf n(1) t by (intro write_node_wf) simp_all
  from write_node_wf(1) [OF this, of q c "drop MAX_CHUNK_SIZE (overlay t ?o bs)" 1] c t s' show ?thesis by simp
qed

lemma write_partial_miss_wf:
  assumes wf: "cache_wf s" and len: "length bs = MAX_CHUNK_SIZE" and wr: "write_partial_miss conf r off f bs info s = Some s'"
  shows "cache_wf s'"
proof -
  let ?n = MAX_CHUNK_SIZE and ?o = "nat (off mod int MAX_CHUNK_SIZE)"
  have tot: "length (overlay t ?o bs) = 2 * ?n" if "sprintf_ss a b = Some t" "length a = ?n" "length b = ?n" for a b t
    using sprintf_ss_length [OF that] chunk_offset [of off] len by simp
  have buf: "length (fb_buf a) = ?n" if "nodes s p = Some a" for p a using that wf by (simp add: cache_wf_def)
  show ?thesis
  proof (cases "firstpart info")
    case (Some p)
    then obtain a t where at: "nodes s p = Some a" "sprintf_ss (fb_buf a) (pread_into ?n (files s) f (fb_to a)) = Some t"
      and add: "addFileBuffer conf r (drop ?n (overlay t ?o bs)) (fb_to a + int ?n) (fb_to a + int ?n + int ?n) f
        (s\<lparr>nodes := (nodes s)(p \<mapsto> a\<lparr>fb_buf := take ?n (overlay t ?o bs), fb_dirty := 1\<rparr>)\<rparr>) = Some s'"
      using wr unfolding write_partial_miss_def Let_def by (auto simp only: bind_eq_Some_conv option.case)
    have t: "length (overlay t ?o bs) = 2 * ?n" using at buf by (intro tot) auto
    from add show ?thesis by (rule add_keeps_wf) (use wf at(1) t in \<open>auto intro: write_node_wf\<close>)
  next
    case None
    then obtain q b t where bt: "nodes s q = Some b" "sprintf_ss (pread_into ?n (files s) f (fb_from b - int ?n)) (fb_buf b) = Some t"
      and add: "addFileBuffer conf r (take ?n (overlay t ?o bs)) (fb_from b - int ?n) (fb_from b - int ?n + int ?n) f
        (s\<lparr>nodes := (nodes s)(q \<mapsto> b\<lparr>fb_buf := drop ?n (overlay t ?o bs)\<rparr>)\<rparr>) = Some s'"
      using wr unfolding write_partial_miss_def Let_def by (auto simp only: bind_eq_Some_conv option.case)
    have t: "length (overlay t ?o bs) = 2 * ?n" using bt buf by (intro tot) auto
    from add show ?thesis by (rule add_keeps_wf) (use wf bt(1) t in \<open>auto intro: write_node_wf\<close>)
  qed
qed

lemma cached_write_wf:
  assumes wf: "cache_wf s" and len: "length bs = MAX_CHUNK_SIZE" and wr: "cached_write conf rs off f bs s = Some s'"
  shows "cache_wf s'"
proof -
  from wr obtain info u where hit: "bufferHitCheck (int32 off) (int MAX_CHUNK_SIZE) f s = Some (info, u)"
    by (auto simp: cached_write_def bind_eq_Some_conv)
  with hit_check_wf [OF wf] have u: "cache_wf u" by blast
  have ov: "length (overlay (pread_into (2 * MAX_CHUNK_SIZE) d f o') (nat (off mod int MAX_CHUNK_SIZE)) bs) = 2 * MAX_CHUNK_SIZE" for d o'
    using chunk_offset [of off] len by simp
  show ?thesis
  proof (cases "hit_type info")
    case PERFECT_HIT
    with wr hit u len show ?thesis by (auto simp: cached_write_def bind_eq_Some_conv intro: write_node_wf)
  next
    case PARTIAL_HIT
    with wr hit have "write_partial_hit off bs info u = Some s'" by (simp add: cached_write_def)
    with u len show ?thesis by (rule write_partial_hit_wf)
  next
    case PARTIAL_MISS
    with wr hit have "write_partial_miss conf (fst rs) off f bs info u = Some s'" by (simp add: cached_write_def)
    with u len show ?thesis by (rule write_partial_miss_wf)
  next
    case PERFECT_MISS
    with wr hit have "write_perfect_miss conf rs off f bs u = Some s'" by (simp add: cached_write_def)
    with u len ov show ?thesis
      by (auto simp: write_perfect_miss_def Let_def bind_eq_Some_conv split: if_splits intro: add_keeps_wf add_two_wf)
  qed
qed

lemma drop_all_empties:
  "headptr s = ps \<Longrightarrow> distinct ps \<Longrightarrow> dom (nodes s) = set ps \<Longrightarrow>
   \<exists>s'. drop_all t ps s = Some s' \<and> headptr s' = [] \<and> nodes s' = Map.empty \<and> pol s' = pol s \<and> next_node s' = next_node s"
proof (induction ps arbitrary: s)
  case Nil
  then show ?case by simp
next
  case (Cons p ps)
  then obtain b where b: "nodes s p = Some b" by (metis domD list.set_intros(1))
  then obtain u where u: "drop_node t p s = Some u" "headptr u = ps" "nodes u = (nodes s)(p := None)"
    "pol u = pol s" "next_node u = next_node s"
    using Cons.prems(1) by (cases "fb_dirty b = 1") (auto simp: drop_node_def)
  have "dom (nodes u) = set ps" using Cons.prems u(3) by auto
  from Cons.IH [OF u(2) _ this] Cons.prems(2) obtain s' where
    "drop_all t ps u = Some s'" "headptr s' = []" "nodes s' = Map.empty" "pol s' = pol u" "next_node s' = next_node u" by auto
  with u show ?case by simp
qed

lemma release_cache_wf:
  assumes "cache_wf s"
  shows "\<exists>s'. releaseFileBuffer f s = Some s' \<and> cache_wf s' \<and> headptr s' = [] \<and> nodes s' = Map.empty"
  using drop_all_empties [of s "headptr s" "Some f"] assms
  by (auto simp: releaseFileBuffer_def cache_wf_def)

lemma release_keeps_wf: "releaseFileBuffer f s = Some s' \<Longrightarrow> cache_wf s \<Longrightarrow> cache_wf s'"
  using release_cache_wf [of s f] by auto

lemma bb_read_wf: "cache_wf s \<Longrightarrow> bb_read conf rs n off f s = Some (r, bs, s') \<Longrightarrow> cache_wf s'"
  using cached_read_wf [OF cache_wf_load [of s conf], of conf rs off f] cache_wf_load [of s conf]
  by (auto simp: bb_read_def Let_def bind_eq_Some_conv split: if_splits prod.splits)

lemma bb_write_wf: "cache_wf s \<Longrightarrow> bb_write conf rs bs off f s = Some (r, s') \<Longrightarrow> cache_wf s'"
  using cached_write_wf [OF cache_wf_load [of s conf], of "encrypt_buffer (loadPolicyFromFile conf (pol s)) (strncpy bs)" conf rs off f]
    cache_wf_load [of s conf]
  by (auto simp: bb_write_def Let_def bind_eq_Some_conv split: if_splits prod.splits)

section \<open>Requests\<close>

datatype request = Read nat int fd | Write "byte list" int fd | ReleaseFd fd

text \<open>A request with what the environment supplies: the policy file and the random numbers.\<close>

fun serve :: "string option \<times> (nat \<times> nat) \<times> request \<Rightarrow> bbfs \<Rightarrow> bbfs option" where
  "serve (conf, rs, Read n off f) s = map_option (\<lambda>(r, bs, s). s) (bb_read conf rs n off f s)"
| "serve (conf, rs, Write bs off f) s = map_option snd (bb_write conf rs bs off f s)"
| "serve (conf, rs, ReleaseFd f) s = releaseFileBuffer f s"

interpretation bbfs: inductive_invariant "\<lambda>s. \<exists>d. s = bbfs_boot d" "moves serve" cache_wf
proof
  show "cache_wf s" if "\<exists>d. s = bbfs_boot d" for s using that cache_wf_boot by auto
  show "cache_wf s'" if "moves serve s s'" "cache_wf s" for s s'
  proof -
    from that(1) obtain conf rs q where "serve (conf, rs, q) s = Some s'" by (auto simp: moves_def)
    with that(2) show ?thesis
      by (cases q) (auto intro: bb_read_wf bb_write_wf release_keeps_wf)
  qed
qed


section \<open>Aligned requests\<close>

lemma int32_id [simp]: "0 \<le> x \<Longrightarrow> x < 2 ^ 31 \<Longrightarrow> int32 x = x"
  by (simp add: int32_def sint_sbintrunc' signed_take_bit_int_eq_self)

text \<open>Requests for whole chunks at multiples of the chunk size, in the range of \<open>int\<close>, and caches that
  such requests build: one node per descriptor and chunk.\<close>

definition aligned :: "int \<Rightarrow> bool" where
  "aligned off \<longleftrightarrow> 0 \<le> off \<and> off + 2 * int MAX_CHUNK_SIZE \<le> 2 ^ 31 \<and> int MAX_CHUNK_SIZE dvd off"

definition node_key :: "bbfs \<Rightarrow> ptr \<Rightarrow> fd \<times> int" where
  "node_key s p = (case nodes s p of Some b \<Rightarrow> (fb_fd b, fb_from b) | None \<Rightarrow> (0, -1))"

definition keys :: "bbfs \<Rightarrow> (fd \<times> int) list" where
  "keys s = map (node_key s) (headptr s)"

definition aligned_cache :: "bbfs \<Rightarrow> bool" where
  "aligned_cache s \<longleftrightarrow> cache_wf s \<and> distinct (keys s) \<and>
     (\<forall>p b. nodes s p = Some b \<longrightarrow> aligned (fb_from b) \<and> fb_to b = fb_from b + int MAX_CHUNK_SIZE)"

lemma aligned_gap:
  assumes "int MAX_CHUNK_SIZE dvd a" "int MAX_CHUNK_SIZE dvd b"
  shows "\<not> (a < b \<and> b < a + int MAX_CHUNK_SIZE)"
  using assms by (auto simp: MAX_CHUNK_SIZE_def elim!: dvdE)

lemma hit_scan_aligned:
  assumes "int MAX_CHUNK_SIZE dvd off"
    and "\<And>p. p \<in> set ps \<Longrightarrow> \<exists>b. nds p = Some b \<and> int MAX_CHUNK_SIZE dvd fb_from b \<and> fb_to b = fb_from b + int MAX_CHUNK_SIZE"
  shows "hit_scan nds off (off + int MAX_CHUNK_SIZE) f ps None None =
    (case find (\<lambda>p. case nds p of Some b \<Rightarrow> (fb_fd b, fb_from b) = (f, off) | None \<Rightarrow> False) ps of
       Some p \<Rightarrow> Some (True, Some p, None) | None \<Rightarrow> Some (False, None, None))"
  using assms(2)
proof (induction ps)
  case (Cons p ps)
  then obtain b where b: "nds p = Some b" "int MAX_CHUNK_SIZE dvd fb_from b" "fb_to b = fb_from b + int MAX_CHUNK_SIZE"
    by auto
  have "int MAX_CHUNK_SIZE dvd off + int MAX_CHUNK_SIZE" using assms(1) by simp
  with b assms(1) have "\<not> (fb_from b < off \<and> off < fb_to b)" "\<not> (fb_from b < off + int MAX_CHUNK_SIZE \<and> off + int MAX_CHUNK_SIZE < fb_to b)"
    using aligned_gap by (metis b(3))+
  then have miss: "(if fb_fd b = f \<and> fb_from b < off \<and> off < fb_to b then Some p else None) = None"
    "(if fb_fd b = f \<and> fb_from b < off + int MAX_CHUNK_SIZE \<and> off + int MAX_CHUNK_SIZE < fb_to b then Some p else None) = None"
    by auto
  show ?case
  proof (cases "fb_fd b = f \<and> fb_from b = off")
    case False
    then have "hit_scan nds off (off + int MAX_CHUNK_SIZE) f (p # ps) None None =
        hit_scan nds off (off + int MAX_CHUNK_SIZE) f ps None None"
      using b(1) by (simp only: hit_scan.simps miss Let_def bind.bind_lunit if_False)
    with Cons.IH Cons.prems b(1) False show ?thesis by auto
  qed (use b in simp)
qed simp

definition node_of :: "fd \<Rightarrow> int \<Rightarrow> bbfs \<Rightarrow> ptr option" where
  "node_of f off s = find (\<lambda>p. node_key s p = (f, off)) (headptr s)"

lemma node_of_Some: "node_of f off s = Some p \<Longrightarrow> p \<in> set (headptr s) \<and> node_key s p = (f, off)"
  by (auto simp: node_of_def find_Some_iff)

lemma node_of_None: "node_of f off s = None \<longleftrightarrow> (f, off) \<notin> set (keys s)"
  by (force simp: node_of_def find_None_iff keys_def)

lemma hit_check_aligned:
  assumes al: "aligned_cache s" and off: "aligned off"
  shows "bufferHitCheck off (int MAX_CHUNK_SIZE) f s =
    (case node_of f off s of
       Some p \<Rightarrow> Some (\<lparr>hit_type = PERFECT_HIT, firstpart = Some p, secondpart = None\<rparr>,
         move_front p (s\<lparr>accessCount := accessCount s + 1, hitCount := hitCount s + 1\<rparr>))
     | None \<Rightarrow> Some (\<lparr>hit_type = PERFECT_MISS, firstpart = None, secondpart = None\<rparr>,
         s\<lparr>accessCount := accessCount s + 1, missCount := missCount s + 1\<rparr>))"
proof -
  have range: "int32 (off + int MAX_CHUNK_SIZE) = off + int MAX_CHUNK_SIZE"
    using off by (intro int32_id) (simp_all add: aligned_def MAX_CHUNK_SIZE_def)
  have nd: "\<exists>b. nodes s p = Some b \<and> int MAX_CHUNK_SIZE dvd fb_from b \<and> fb_to b = fb_from b + int MAX_CHUNK_SIZE"
    if "p \<in> set (headptr s)" for p
    using wf_node [of s p] that al unfolding aligned_cache_def aligned_def by blast
  have "find (\<lambda>p. case nodes s p of Some b \<Rightarrow> (fb_fd b, fb_from b) = (f, off) | None \<Rightarrow> False) (headptr s) = node_of f off s"
    unfolding node_of_def
  proof (rule find_cong [OF refl])
    fix p assume "p \<in> set (headptr s)"
    with nd obtain b where "nodes s p = Some b" by blast
    then show "(case nodes s p of Some b \<Rightarrow> (fb_fd b, fb_from b) = (f, off) | None \<Rightarrow> False) = (node_key s p = (f, off))"
      by (simp add: node_key_def)
  qed
  with hit_scan_aligned [of off "headptr s" "nodes s" f] off nd show ?thesis
    by (auto simp: bufferHitCheck_def range Let_def aligned_def split: option.splits)
qed


text \<open>Reading a chunk after a write of a chunk, at the level of the file.\<close>

lemma write_at_length: "length (write_at c off bs) = max (length c) (off + length bs)"
  by (auto simp: write_at_def)

lemma write_at_nth:
  "j < length (write_at c off bs) \<Longrightarrow> write_at c off bs ! j =
     (if off \<le> j \<and> j < off + length bs then bs ! (j - off) else if j < length c then c ! j else 0)"
  by (auto simp: write_at_def nth_append min_def)

lemma pread_into_open:
  assumes "d f = Some c" "0 \<le> off"
  shows "pread_into n d f off = map (\<lambda>i. if nat off + i < length c then c ! (nat off + i) else 0) [0..<n]"
  using assms by (intro nth_equalityI) (auto simp: pread_into_def pread_def Let_def nth_append min_def not_less)

lemma pread_pwrite:
  assumes f: "d f = Some c" and off: "aligned off" "aligned off'" and len: "length bs = MAX_CHUNK_SIZE"
  shows "pread_into MAX_CHUNK_SIZE (snd (snd (pwrite d f bs off))) g off' =
    (if g = f \<and> off' = off then bs else pread_into MAX_CHUNK_SIZE d g off')"
proof -
  have nn: "0 \<le> off" "0 \<le> off'" using off by (simp_all add: aligned_def)
  define d' where "d' = snd (snd (pwrite d f bs off))"
  have d': "d' = d(f \<mapsto> write_at c (nat off) bs)" using f nn by (simp add: d'_def pwrite_def)
  show ?thesis
  proof (cases "g = f")
    case False
    then have "pread_into MAX_CHUNK_SIZE d' g off' = pread_into MAX_CHUNK_SIZE d g off'"
      by (simp add: d' pread_into_def pread_def)
    with False show ?thesis by (simp add: d'_def)
  next
    case True
    let ?n = MAX_CHUNK_SIZE and ?w = "write_at c (nat off) bs"
    have rd: "pread_into ?n d' f off' = map (\<lambda>i. if nat off' + i < length ?w then ?w ! (nat off' + i) else 0) [0..<?n]"
      using nn(2) by (intro pread_into_open) (simp add: d')
    have old: "pread_into ?n d f off' = map (\<lambda>i. if nat off' + i < length c then c ! (nat off' + i) else 0) [0..<?n]"
      using f nn(2) by (rule pread_into_open)
    show ?thesis
    proof (cases "off' = off")
      case True
      have "pread_into ?n d' f off' = bs"
        unfolding rd using len by (intro nth_equalityI) (auto simp: True write_at_nth write_at_length)
      with True \<open>g = f\<close> show ?thesis by (simp add: d'_def)
    next
      case False
      from off obtain a b where ab: "off = int ?n * a" "off' = int ?n * b" by (auto simp: aligned_def elim!: dvdE)
      have "off + int ?n \<le> off' \<or> off' + int ?n \<le> off"
        using False aligned_gap [of off off'] aligned_gap [of off' off] off by (auto simp: aligned_def)
      then have apart: "nat off + ?n \<le> nat off' \<or> nat off' + ?n \<le> nat off" using nn by linarith
      have "pread_into ?n d' f off' = pread_into ?n d f off'"
        unfolding rd old using apart len by (intro nth_equalityI) (auto simp: write_at_nth write_at_length)
      with False \<open>g = f\<close> show ?thesis by (simp add: d'_def)
    qed
  qed
qed

section \<open>What a client sees\<close>

text \<open>The content of a chunk: the buffer when it is cached, and otherwise the file, filled up with zeros.\<close>

definition chunk_of :: "fd \<Rightarrow> int \<Rightarrow> bbfs \<Rightarrow> byte list" where
  "chunk_of f off s =
     (case node_of f off s of
        Some p \<Rightarrow> (case nodes s p of Some b \<Rightarrow> fb_buf b | None \<Rightarrow> [])
      | None \<Rightarrow> pread_into MAX_CHUNK_SIZE (files s) f off)"

text \<open>A coherent cache: what is not marked dirty is as in the file.\<close>

definition coherent :: "bbfs \<Rightarrow> bool" where
  "coherent s \<longleftrightarrow> aligned_cache s \<and> (\<forall>p b. nodes s p = Some b \<longrightarrow> files s (fb_fd b) \<noteq> None \<and>
     (fb_dirty b \<noteq> 1 \<longrightarrow> fb_buf b = pread_into MAX_CHUNK_SIZE (files s) (fb_fd b) (fb_from b)))"

lemma node_of_iff:
  assumes "aligned_cache s" "nodes s p = Some b" "fb_fd b = f" "fb_from b = off"
  shows "node_of f off s = Some p"
proof -
  have p: "p \<in> set (headptr s)" "node_key s p = (f, off)"
    using assms by (auto simp: aligned_cache_def cache_wf_def node_key_def)
  then have "(f, off) \<in> set (keys s)" by (force simp: keys_def)
  then obtain q where q: "node_of f off s = Some q" using node_of_None [of f off s] by (cases "node_of f off s") auto
  have "inj_on (node_key s) (set (headptr s))" using assms(1) by (simp add: aligned_cache_def keys_def distinct_map)
  from inj_onD [OF this, of q p] node_of_Some [OF q] p have "q = p" by simp
  with q show ?thesis by simp
qed

lemma chunk_of_node:
  assumes "aligned_cache s" "nodes s p = Some b"
  shows "chunk_of (fb_fd b) (fb_from b) s = fb_buf b"
  using node_of_iff [OF assms refl refl] assms(2) by (simp add: chunk_of_def)

lemma chunk_of_missing:
  assumes "\<And>p b. nodes s p = Some b \<Longrightarrow> p \<in> set (headptr s) \<Longrightarrow> (fb_fd b, fb_from b) \<noteq> (f, off)"
    "\<And>p. p \<in> set (headptr s) \<Longrightarrow> nodes s p \<noteq> None"
  shows "chunk_of f off s = pread_into MAX_CHUNK_SIZE (files s) f off"
proof -
  have "node_of f off s = None"
    unfolding node_of_def find_None_iff
  proof
    assume "\<exists>p. p \<in> set (headptr s) \<and> node_key s p = (f, off)"
    then obtain p where p: "p \<in> set (headptr s)" "node_key s p = (f, off)" by blast
    with assms(2) obtain b where b: "nodes s p = Some b" by blast
    with p have "(fb_fd b, fb_from b) = (f, off)" by (simp add: node_key_def)
    with assms(1) [OF b p(1)] show False by blast
  qed
  then show ?thesis by (simp add: chunk_of_def)
qed


text \<open>The content of a chunk is determined by the nodes and the files: the order of the list and the
  statistics do not matter.\<close>

lemma chunk_of_eq:
  assumes s: "aligned_cache s" and t: "aligned_cache t"
    and same: "\<And>p b. nodes s p = Some b \<Longrightarrow> (fb_fd b, fb_from b) = (f, off) \<Longrightarrow>
      (\<exists>q c. nodes t q = Some c \<and> (fb_fd c, fb_from c) = (f, off) \<and> fb_buf c = fb_buf b)
      \<or> ((\<forall>q c. nodes t q = Some c \<longrightarrow> (fb_fd c, fb_from c) \<noteq> (f, off)) \<and> pread_into MAX_CHUNK_SIZE (files t) f off = fb_buf b)"
    and none: "(\<And>p b. nodes s p = Some b \<Longrightarrow> (fb_fd b, fb_from b) \<noteq> (f, off)) \<Longrightarrow>
      (\<exists>q c. nodes t q = Some c \<and> (fb_fd c, fb_from c) = (f, off) \<and> fb_buf c = pread_into MAX_CHUNK_SIZE (files s) f off)
      \<or> ((\<forall>q c. nodes t q = Some c \<longrightarrow> (fb_fd c, fb_from c) \<noteq> (f, off))
          \<and> pread_into MAX_CHUNK_SIZE (files t) f off = pread_into MAX_CHUNK_SIZE (files s) f off)"
  shows "chunk_of f off t = chunk_of f off s"
proof -
  have dom: "nodes u p \<noteq> None" if "aligned_cache u" "p \<in> set (headptr u)" for u p
    using wf_node [of u p] that by (auto simp: aligned_cache_def)
  have hit: "chunk_of f off u = fb_buf c" if "aligned_cache u" "nodes u q = Some c" "(fb_fd c, fb_from c) = (f, off)" for u q c
    using chunk_of_node [OF that(1,2)] that(3) by simp
  have miss: "chunk_of f off u = pread_into MAX_CHUNK_SIZE (files u) f off"
    if "aligned_cache u" "\<forall>q c. nodes u q = Some c \<longrightarrow> (fb_fd c, fb_from c) \<noteq> (f, off)" for u
    using chunk_of_missing [of u f off] dom [OF that(1)] that(2) by blast
  show ?thesis
  proof (cases "\<exists>p b. nodes s p = Some b \<and> (fb_fd b, fb_from b) = (f, off)")
    case True
    then obtain p b where pb: "nodes s p = Some b" "(fb_fd b, fb_from b) = (f, off)" by blast
    from same [OF this] hit [OF s this] hit [OF t] miss [OF t] show ?thesis by metis
  next
    case False
    then have "chunk_of f off s = pread_into MAX_CHUNK_SIZE (files s) f off" by (intro miss [OF s]) blast
    with none False hit [OF t] miss [OF t] show ?thesis by metis
  qed
qed

lemma keys_remove1:
  assumes "distinct (keys s)" "p \<in> set (headptr s)"
  shows "map (node_key s) (remove1 p (headptr s)) = removeAll (node_key s p) (keys s)"
proof -
  have inj: "inj_on (node_key s) (set (headptr s))" and d: "distinct (headptr s)"
    using assms(1) by (simp_all add: keys_def distinct_map)
  have "removeAll (node_key s p) (map (node_key s) xs) = map (node_key s) (removeAll p xs)" if "set xs \<subseteq> set (headptr s)" for xs
    using that assms(2) by (induction xs) (auto dest: inj_onD [OF inj, of p])
  then show ?thesis using d by (simp add: keys_def distinct_remove1_removeAll)
qed

lemma node_key_cong: "nodes t = nodes s \<Longrightarrow> node_key t = node_key s"
  by (rule ext) (simp add: node_key_def)

text \<open>Moving to the front and dropping a node, on the keys.\<close>

lemma move_front_aligned:
  assumes al: "aligned_cache s" and p: "p \<in> set (headptr s)"
  shows "aligned_cache (move_front p s)" "keys (move_front p s) = node_key s p # removeAll (node_key s p) (keys s)"
proof -
  have nk: "node_key (move_front p s) = node_key s" by (rule node_key_cong) (simp add: move_front_def)
  have d: "distinct (keys s)" and wf: "cache_wf s" using al by (simp_all add: aligned_cache_def)
  show k: "keys (move_front p s) = node_key s p # removeAll (node_key s p) (keys s)"
    using keys_remove1 [OF d p] by (simp add: keys_def nk) (simp add: move_front_def)
  then show "aligned_cache (move_front p s)"
    using al d move_front_wf [OF wf p] by (auto simp: aligned_cache_def move_front_def distinct_removeAll)
qed

lemma node_key_upd [simp]:
  "node_key (s\<lparr>accessCount := x\<rparr>) = node_key s" "node_key (s\<lparr>hitCount := x\<rparr>) = node_key s"
  "node_key (s\<lparr>missCount := x\<rparr>) = node_key s" "node_key (s\<lparr>pol := q\<rparr>) = node_key s"
  "node_key (s\<lparr>bufferCount := x\<rparr>) = node_key s" "node_key (s\<lparr>files := d\<rparr>) = node_key s"
  by (rule node_key_cong, simp)+

lemma stats_aligned [simp]:
  "aligned_cache (s\<lparr>accessCount := x\<rparr>) = aligned_cache s" "aligned_cache (s\<lparr>hitCount := x\<rparr>) = aligned_cache s"
  "aligned_cache (s\<lparr>missCount := x\<rparr>) = aligned_cache s"
  "keys (s\<lparr>accessCount := x\<rparr>) = keys s" "keys (s\<lparr>hitCount := x\<rparr>) = keys s" "keys (s\<lparr>missCount := x\<rparr>) = keys s"
  "keys (s\<lparr>pol := q\<rparr>) = keys s" "keys (s\<lparr>bufferCount := n\<rparr>) = keys s"
  by (simp_all add: aligned_cache_def keys_def)

lemma load_aligned: "aligned_cache s \<Longrightarrow> aligned_cache (s\<lparr>pol := loadPolicyFromFile conf (pol s)\<rparr>)"
  by (simp add: aligned_cache_def cache_wf_load)

lemma drop_node_aligned:
  assumes al: "aligned_cache s" and p: "p \<in> set (headptr s)"
  shows "\<exists>s'. drop_node None p s = Some s' \<and> aligned_cache (s'\<lparr>bufferCount := bufferCount s - 1\<rparr>)
    \<and> keys s' = removeAll (node_key s p) (keys s) \<and> nodes s' = (nodes s)(p := None)
    \<and> next_node s' = next_node s \<and> pol s' = pol s \<and> bufferCount s' = bufferCount s"
proof -
  have wf: "cache_wf s" and d: "distinct (keys s)" using al by (simp_all add: aligned_cache_def)
  from drop_node_wf [OF wf p, of None] obtain s' where s': "drop_node None p s = Some s'"
    "cache_wf (s'\<lparr>bufferCount := bufferCount s - 1\<rparr>)" "headptr s' = remove1 p (headptr s)"
    "nodes s' = (nodes s)(p := None)" "bufferCount s' = bufferCount s" "next_node s' = next_node s" "pol s' = pol s" by blast
  have "node_key s' q = node_key s q" if "q \<in> set (remove1 p (headptr s))" for q
    using that wf by (auto simp: node_key_def s'(4) cache_wf_def set_remove1_eq)
  then have "keys s' = map (node_key s) (remove1 p (headptr s))" by (simp add: keys_def s'(3))
  then have k: "keys s' = removeAll (node_key s p) (keys s)" using keys_remove1 [OF d p] by simp
  then have "aligned_cache (s'\<lparr>bufferCount := bufferCount s - 1\<rparr>)"
    using s'(2) al d by (auto simp: aligned_cache_def s'(4) distinct_removeAll split: if_splits)
  with s' k show ?thesis by blast
qed


definition push_node :: "filebuffer \<Rightarrow> bbfs \<Rightarrow> bbfs" where
  "push_node b u = u\<lparr>nodes := (nodes u)(next_node u \<mapsto> b), next_node := next_node u + 1,
     headptr := next_node u # headptr u, bufferCount := bufferCount u + 1\<rparr>"

definition clean_chunk :: "fd \<Rightarrow> int \<Rightarrow> byte list \<Rightarrow> filebuffer" where
  "clean_chunk f off bs = \<lparr>fb_from = off, fb_to = off + int MAX_CHUNK_SIZE, fb_dirty = 0, fb_fd = f, fb_buf = bs\<rparr>"

lemma push_node_aligned:
  assumes al: "aligned_cache u" and room: "length (headptr u) < MAX_LIST_SIZE" and off: "aligned off"
    and new: "(f, off) \<notin> set (keys u)" and len: "length bs = MAX_CHUNK_SIZE"
  shows "aligned_cache (push_node (clean_chunk f off bs) u)" "keys (push_node (clean_chunk f off bs) u) = (f, off) # keys u"
proof -
  let ?t = "push_node (clean_chunk f off bs) u"
  have wf: "cache_wf u" using al by (simp add: aligned_cache_def)
  then have fresh: "next_node u \<notin> set (headptr u)" by (auto simp: cache_wf_def)
  have "node_key ?t q = node_key u q" if "q \<in> set (headptr u)" for q
    using that fresh by (auto simp: node_key_def push_node_def)
  then have "map (node_key ?t) (headptr u) = keys u" by (simp add: keys_def)
  then show k: "keys ?t = (f, off) # keys u"
    by (simp add: keys_def) (simp add: push_node_def node_key_def clean_chunk_def)
  have "cache_wf ?t" using wf room len by (auto simp: cache_wf_def push_node_def clean_chunk_def)
  then show "aligned_cache ?t"
    using al new off k by (auto simp: aligned_cache_def) (auto simp: push_node_def clean_chunk_def split: if_splits)
qed

text \<open>Adding a chunk that is not cached: with room it is put in front, and otherwise one node is dropped
  first, the last one unless the policy is random eviction.\<close>

lemma add_cases:
  assumes al: "aligned_cache s" and off: "aligned off" and len: "length bs = MAX_CHUNK_SIZE"
  obtains (room) "length (headptr s) < MAX_LIST_SIZE"
      "addFileBuffer conf r bs off (off + int MAX_CHUNK_SIZE) f s = Some (push_node (clean_chunk f off bs) s)"
  | (evicted) p v where "length (headptr s) = MAX_LIST_SIZE" "p \<in> set (headptr s)"
      "drop_node None p (s\<lparr>pol := loadPolicyFromFile conf (pol s)\<rparr>) = Some v"
      "cachePolicy (loadPolicyFromFile conf (pol s)) \<noteq> 1 \<Longrightarrow> p = last (headptr s)"
      "addFileBuffer conf r bs off (off + int MAX_CHUNK_SIZE) f s =
        Some (push_node (clean_chunk f off bs) (v\<lparr>bufferCount := bufferCount v - 1\<rparr>))"
proof -
  let ?s = "s\<lparr>pol := loadPolicyFromFile conf (pol s)\<rparr>"
  have wf: "cache_wf s" using al by (simp add: aligned_cache_def)
  then have cnt: "bufferCount s = int (length (headptr s))" "length (headptr s) \<le> MAX_LIST_SIZE" by (simp_all add: cache_wf_def)
  have i32: "int32 off = off" "int32 (off + int MAX_CHUNK_SIZE) = off + int MAX_CHUNK_SIZE"
    using off by (simp_all add: aligned_def MAX_CHUNK_SIZE_def)
  show thesis
  proof (cases "length (headptr s) < MAX_LIST_SIZE")
    case True
    then have "addFileBuffer conf r bs off (off + int MAX_CHUNK_SIZE) f s = Some (push_node (clean_chunk f off bs) s)"
      using cnt len i32 by (simp add: addFileBuffer_def push_node_def clean_chunk_def Let_def)
    with True show thesis by (rule room)
  next
    case False
    with cnt have full: "length (headptr s) = MAX_LIST_SIZE" by simp
    then have "headptr ?s \<noteq> []" by (auto simp: MAX_LIST_SIZE_def)
    from evict_wf [OF cache_wf_load [OF wf] this, of r] obtain v p where
      v: "evict r ?s = Some v" "drop_node None p ?s = Some v" "p \<in> set (headptr s)"
        "cachePolicy (loadPolicyFromFile conf (pol s)) \<noteq> 1 \<longrightarrow> p = last (headptr s)" by auto
    from v(1) full cnt len i32
    have "addFileBuffer conf r bs off (off + int MAX_CHUNK_SIZE) f s =
        Some (push_node (clean_chunk f off bs) (v\<lparr>bufferCount := bufferCount v - 1\<rparr>))"
      by (simp add: addFileBuffer_def push_node_def clean_chunk_def Let_def)
    with full v show thesis by (intro evicted [of p v]) auto
  qed
qed

lemma removeAll_last: "distinct xs \<Longrightarrow> xs \<noteq> [] \<Longrightarrow> removeAll (last xs) xs = butlast xs"
  by (cases xs rule: rev_cases) simp_all

lemma add_aligned:
  assumes al: "aligned_cache s" and off: "aligned off" and len: "length bs = MAX_CHUNK_SIZE" and new: "(f, off) \<notin> set (keys s)"
  shows "\<exists>s'. addFileBuffer conf r bs off (off + int MAX_CHUNK_SIZE) f s = Some s' \<and> aligned_cache s'
    \<and> node_of f off s' = Some (next_node s) \<and> nodes s' (next_node s) = Some (clean_chunk f off bs)
    \<and> (cachePolicy (loadPolicyFromFile conf (pol s)) \<noteq> 1 \<longrightarrow> keys s' = take MAX_LIST_SIZE ((f, off) # keys s))
    \<and> (loadPolicyFromFile conf (pol s) = pol s \<longrightarrow> pol s' = pol s)"
  using al off len
proof (cases rule: add_cases [where conf = conf and r = r and f = f])
  case room
  note p = push_node_aligned [OF al room(1) off new len]
  have nd: "nodes (push_node (clean_chunk f off bs) s) (next_node s) = Some (clean_chunk f off bs)" by (simp add: push_node_def)
  moreover have "length (keys s) < MAX_LIST_SIZE" using room(1) by (simp add: keys_def)
  moreover have "pol (push_node (clean_chunk f off bs) s) = pol s" by (simp add: push_node_def)
  ultimately show ?thesis using room(2) p node_of_iff [OF p(1) nd] by (simp add: clean_chunk_def)
next
  case (evicted p v)
  let ?s = "s\<lparr>pol := loadPolicyFromFile conf (pol s)\<rparr>" and ?u = "v\<lparr>bufferCount := bufferCount v - 1\<rparr>"
  let ?t = "push_node (clean_chunk f off bs) ?u"
  from drop_node_aligned [OF load_aligned [OF al, of conf], of p] evicted(2,3) have
    v: "aligned_cache ?u" "keys v = removeAll (node_key s p) (keys s)" "next_node v = next_node s"
      "pol v = loadPolicyFromFile conf (pol s)" by auto
  have d: "distinct (keys s)" using al by (simp add: aligned_cache_def)
  have "node_key s p \<in> set (keys s)" using evicted(2) by (simp add: keys_def)
  then have "length (keys v) = MAX_LIST_SIZE - 1"
    using v(2) d evicted(1) by (simp add: distinct_remove1_removeAll [symmetric] length_remove1) (simp add: keys_def)
  then have "length (headptr ?u) < MAX_LIST_SIZE" by (simp add: keys_def MAX_LIST_SIZE_def)
  note p = push_node_aligned [OF v(1) this off _ len]
  have new': "(f, off) \<notin> set (keys ?u)" using new v(2) by simp
  have nd: "nodes ?t (next_node s) = Some (clean_chunk f off bs)" using v(3) by (simp add: push_node_def)
  have "keys v = take (MAX_LIST_SIZE - 1) (keys s)" if "p = last (headptr s)"
  proof -
    have ne: "headptr s \<noteq> []" using evicted(2) by auto
    then have "node_key s p = last (keys s)" using that by (simp add: keys_def last_map)
    then have "keys v = butlast (keys s)"
      using v(2) removeAll_last [OF d] ne by (simp add: keys_def)
    then show ?thesis using evicted(1) by (simp add: butlast_conv_take keys_def)
  qed
  then have "keys ?t = take MAX_LIST_SIZE ((f, off) # keys s)" if "cachePolicy (loadPolicyFromFile conf (pol s)) \<noteq> 1"
    using evicted(4) [OF that] p(2) [OF new'] by (simp add: take_Cons' MAX_LIST_SIZE_def)
  moreover have "pol ?t = loadPolicyFromFile conf (pol s)" using v(4) by (simp add: push_node_def)
  ultimately show ?thesis
    using evicted(5) p(1) [OF new'] nd node_of_iff [OF p(1) [OF new'] nd] by (simp add: clean_chunk_def)
qed


text \<open>The two ways in which an aligned request goes.\<close>

lemma aligned_read:
  assumes al: "aligned_cache s" and off: "aligned off"
  shows "cached_read conf rs off f s =
    (case node_of f off s of
       Some p \<Rightarrow> Some (chunk_of f off s, move_front p (s\<lparr>accessCount := accessCount s + 1, hitCount := hitCount s + 1\<rparr>))
     | None \<Rightarrow> map_option (Pair (chunk_of f off s))
         (addFileBuffer conf (fst rs) (chunk_of f off s) off (off + int MAX_CHUNK_SIZE) f
           (s\<lparr>accessCount := accessCount s + 1, missCount := missCount s + 1\<rparr>)))"
proof -
  have i32: "int32 off = off" and m: "off mod int MAX_CHUNK_SIZE = 0" using off by (simp_all add: aligned_def MAX_CHUNK_SIZE_def)
  show ?thesis
  proof (cases "node_of f off s")
    case (Some p)
    then obtain b where "nodes s p = Some b"
      using node_of_Some [OF Some] wf_node [of s p] al by (auto simp: aligned_cache_def)
    with Some hit_check_aligned [OF assms, of f] i32 show ?thesis
      by (simp add: cached_read_def chunk_of_def move_front_def)
  next
    case None
    with hit_check_aligned [OF assms, of f] i32 m show ?thesis
      by (simp add: cached_read_def read_perfect_miss_def chunk_of_def Let_def map_conv_bind_option comp_def)
  qed
qed

lemma aligned_write:
  assumes al: "aligned_cache s" and off: "aligned off"
  shows "cached_write conf rs off f bs s =
    (case node_of f off s of
       Some p \<Rightarrow> map_option (\<lambda>a. (move_front p (s\<lparr>accessCount := accessCount s + 1, hitCount := hitCount s + 1\<rparr>))
           \<lparr>nodes := (nodes s)(p \<mapsto> a\<lparr>fb_buf := bs, fb_dirty := 1\<rparr>)\<rparr>) (nodes s p)
     | None \<Rightarrow> addFileBuffer conf (fst rs) bs off (off + int MAX_CHUNK_SIZE) f
           (s\<lparr>accessCount := accessCount s + 1, missCount := missCount s + 1\<rparr>))"
proof -
  have i32: "int32 off = off" and m: "off mod int MAX_CHUNK_SIZE = 0" using off by (simp_all add: aligned_def MAX_CHUNK_SIZE_def)
  show ?thesis
  proof (cases "node_of f off s")
    case (Some p)
    with hit_check_aligned [OF assms, of f] i32 show ?thesis
      by (simp add: cached_write_def move_front_def map_conv_bind_option comp_def)
  next
    case None
    with hit_check_aligned [OF assms, of f] i32 m show ?thesis
      by (simp add: cached_write_def write_perfect_miss_def Let_def)
  qed
qed

definition lru_touch :: "nat \<Rightarrow> 'k \<Rightarrow> 'k list \<Rightarrow> 'k list" where
  "lru_touch n k ks = take n (k # removeAll k ks)"

lemma touch_hit_keys:
  assumes al: "aligned_cache s" and p: "node_of f off s = Some p"
  shows "keys (move_front p s) = lru_touch MAX_LIST_SIZE (f, off) (keys s)"
proof -
  note m = node_of_Some [OF p]
  have d: "distinct (keys s)" and le: "length (keys s) \<le> MAX_LIST_SIZE"
    using al by (simp_all add: aligned_cache_def cache_wf_def keys_def)
  have "(f, off) \<in> set (keys s)" using m by (force simp: keys_def)
  then have "Suc (length (removeAll (f, off) (keys s))) = length (keys s)"
    using length_move d by (simp add: distinct_remove1_removeAll [symmetric])
  then have "lru_touch MAX_LIST_SIZE (f, off) (keys s) = (f, off) # removeAll (f, off) (keys s)"
    using le by (simp add: lru_touch_def)
  with move_front_aligned(2) [OF al, of p] m show ?thesis by simp
qed

lemma chunk_of_length: "aligned_cache s \<Longrightarrow> length (chunk_of f off s) = MAX_CHUNK_SIZE"
proof -
  assume al: "aligned_cache s"
  show ?thesis
  proof (cases "node_of f off s")
    case (Some p)
    then obtain b where "nodes s p = Some b" "length (fb_buf b) = MAX_CHUNK_SIZE"
      using node_of_Some [OF Some] wf_node [of s p] al by (auto simp: aligned_cache_def)
    with Some show ?thesis by (simp add: chunk_of_def)
  qed (simp add: chunk_of_def)
qed

text \<open>Both kinds of requests keep the cache aligned, cannot fault, and under LRU act on its keys as a
  list of the most recently used chunks.\<close>

lemma keys_write_node:
  assumes "nodes s p = Some a"
  shows "keys (s\<lparr>nodes := (nodes s)(p \<mapsto> a\<lparr>fb_buf := bs, fb_dirty := d\<rparr>)\<rparr>) = keys s"
  using assms by (auto simp: keys_def node_key_def)

lemma write_node_aligned:
  assumes "aligned_cache s" "nodes s p = Some a" "length bs = MAX_CHUNK_SIZE"
  shows "aligned_cache (s\<lparr>nodes := (nodes s)(p \<mapsto> a\<lparr>fb_buf := bs, fb_dirty := d\<rparr>)\<rparr>)"
  using assms keys_write_node [OF assms(2), of d bs] write_node_wf(1) [of s p a bs d]
  by (auto simp: aligned_cache_def split: if_splits)


lemma load_idem: "loadPolicyFromFile conf (loadPolicyFromFile conf q) = loadPolicyFromFile conf q"
  by (auto simp: loadPolicyFromFile_def Let_def split: option.splits prod.splits)

lemma aligned_read_ok:
  assumes al: "aligned_cache s" and off: "aligned off" and pol: "loadPolicyFromFile conf (pol s) = pol s"
  shows "\<exists>s'. cached_read conf rs off f s = Some (chunk_of f off s, s') \<and> aligned_cache s' \<and> pol s' = pol s \<and>
    (cachePolicy (pol s) \<noteq> 1 \<longrightarrow> keys s' = lru_touch MAX_LIST_SIZE (f, off) (keys s))"
proof (cases "node_of f off s")
  case (Some p)
  let ?s = "s\<lparr>accessCount := accessCount s + 1, hitCount := hitCount s + 1\<rparr>"
  have "aligned_cache ?s" "node_of f off ?s = Some p" using al Some by (simp_all add: node_of_def)
  with Some aligned_read [OF al off, of conf rs f] touch_hit_keys [of ?s f off p] move_front_aligned(1) [of ?s p]
    node_of_Some [OF Some] show ?thesis by (simp add: move_front_def)
next
  case None
  let ?s = "s\<lparr>accessCount := accessCount s + 1, missCount := missCount s + 1\<rparr>"
  have new: "(f, off) \<notin> set (keys ?s)" using None by (simp add: node_of_None)
  moreover have "aligned_cache ?s" using al by simp
  moreover have "lru_touch MAX_LIST_SIZE (f, off) (keys s) = take MAX_LIST_SIZE ((f, off) # keys s)"
    using new by (simp add: lru_touch_def)
  ultimately show ?thesis
    using add_aligned [of ?s off "chunk_of f off s" f conf "fst rs"] off pol None aligned_read [OF al off, of conf rs f]
      chunk_of_length [OF al] by auto
qed

lemma aligned_write_ok:
  assumes al: "aligned_cache s" and off: "aligned off" and pol: "loadPolicyFromFile conf (pol s) = pol s"
    and len: "length bs = MAX_CHUNK_SIZE"
  shows "\<exists>s'. cached_write conf rs off f bs s = Some s' \<and> aligned_cache s' \<and> chunk_of f off s' = bs \<and> pol s' = pol s \<and>
    (cachePolicy (pol s) \<noteq> 1 \<longrightarrow> keys s' = lru_touch MAX_LIST_SIZE (f, off) (keys s))"
proof (cases "node_of f off s")
  case (Some p)
  let ?s = "s\<lparr>accessCount := accessCount s + 1, hitCount := hitCount s + 1\<rparr>" and ?m = "move_front p (s\<lparr>accessCount := accessCount s + 1, hitCount := hitCount s + 1\<rparr>)"
  obtain a where a: "nodes s p = Some a" using node_of_Some [OF Some] wf_node [of s p] al by (auto simp: aligned_cache_def)
  let ?t = "?m\<lparr>nodes := (nodes ?m)(p \<mapsto> a\<lparr>fb_buf := bs, fb_dirty := 1\<rparr>)\<rparr>"
  have s: "aligned_cache ?s" "node_of f off ?s = Some p" using al Some by (simp_all add: node_of_def)
  have m: "aligned_cache ?m" "keys ?m = lru_touch MAX_LIST_SIZE (f, off) (keys s)"
    using move_front_aligned(1) [of ?s p] touch_hit_keys [OF s] s(1) node_of_Some [OF Some] by auto
  have nm: "nodes ?m p = Some a" using a by (simp add: move_front_def)
  have t: "aligned_cache ?t" "keys ?t = keys ?m"
    using write_node_aligned [OF m(1) nm len] keys_write_node [OF nm] by auto
  have "chunk_of f off ?t = bs"
    using chunk_of_node [OF t(1), of p "a\<lparr>fb_buf := bs, fb_dirty := 1\<rparr>"] node_of_Some [OF Some] a by (simp add: node_key_def)
  moreover have "cached_write conf rs off f bs s = Some ?t"
    using aligned_write [OF al off, of conf rs f bs] Some a by (simp add: move_front_def)
  moreover have "pol ?t = pol s" by (simp add: move_front_def)
  ultimately show ?thesis using t m by (intro exI [of _ ?t]) simp
next
  case None
  let ?s = "s\<lparr>accessCount := accessCount s + 1, missCount := missCount s + 1\<rparr>"
  have new: "(f, off) \<notin> set (keys ?s)" using None by (simp add: node_of_None)
  have "aligned_cache ?s" using al by simp
  from add_aligned [OF this off len new, of conf "fst rs"] pol obtain s' where
    s': "addFileBuffer conf (fst rs) bs off (off + int MAX_CHUNK_SIZE) f ?s = Some s'" "aligned_cache s'"
      "nodes s' (next_node s) = Some (clean_chunk f off bs)"
      "cachePolicy (pol s) \<noteq> 1 \<longrightarrow> keys s' = take MAX_LIST_SIZE ((f, off) # keys s)" "pol s' = pol s" by auto
  have "lru_touch MAX_LIST_SIZE (f, off) (keys s) = take MAX_LIST_SIZE ((f, off) # keys s)"
    using new by (simp add: lru_touch_def)
  moreover have "chunk_of f off s' = bs" using chunk_of_node [OF s'(2,3)] by (simp add: clean_chunk_def)
  ultimately show ?thesis using s' None aligned_write [OF al off, of conf rs f bs] by auto
qed

section \<open>Properties of the cache\<close>


text \<open>C16. An aligned request never faults and, unless the policy is random eviction, turns the list of cached
  chunks into the list of the 1280 most recently used ones, the requested chunk first: reads and writes,
  hits and misses alike.\<close>

theorem bbfs_lru:
  assumes "aligned_cache s" "aligned off" "cachePolicy (loadPolicyFromFile conf (pol s)) = 2" "length bs = MAX_CHUNK_SIZE"
  shows "(\<exists>bytes s'. bb_read conf rs MAX_CHUNK_SIZE off f s = Some (4096, bytes, s') \<and> aligned_cache s'
      \<and> keys s' = lru_touch MAX_LIST_SIZE (f, off) (keys s))
    \<and> (\<exists>s'. bb_write conf rs bs off f s = Some (4096, s') \<and> aligned_cache s'
      \<and> keys s' = lru_touch MAX_LIST_SIZE (f, off) (keys s))"
proof -
  let ?s = "s\<lparr>pol := loadPolicyFromFile conf (pol s)\<rparr>"
  have al: "aligned_cache ?s" using assms(1) by (rule load_aligned)
  have pol: "loadPolicyFromFile conf (pol ?s) = pol ?s" by (simp add: load_idem)
  let ?bs = "encrypt_buffer (pol ?s) (strncpy bs)"
  have len: "length ?bs = MAX_CHUNK_SIZE" using assms(4) by simp
  from aligned_read_ok [OF al assms(2) pol, of rs f] aligned_write_ok [OF al assms(2) pol len, of rs f] assms(3,4)
  show ?thesis by (auto simp: bb_read_def bb_write_def MAX_CHUNK_SIZE_def Let_def)
qed

text \<open>C20. What an aligned chunk-sized write stores, an aligned read of the same chunk returns, decrypted, for
  every cache policy, encryption and cache content: exactly the bytes that \<open>strncpy\<close> has taken from the
  caller's buffer, so the written data up to its first zero byte.\<close>

theorem bbfs_write_read:
  assumes al: "aligned_cache s" and off: "aligned off" and cache: "cachePolicy (loadPolicyFromFile conf (pol s)) \<noteq> 0"
    and len: "length bs = MAX_CHUNK_SIZE"
  shows "\<exists>s' s''. bb_write conf rs bs off f s = Some (4096, s') \<and>
    bb_read conf rs' MAX_CHUNK_SIZE off f s' = Some (4096, strncpy bs, s'')"
proof -
  let ?s = "s\<lparr>pol := loadPolicyFromFile conf (pol s)\<rparr>"
  let ?q = "loadPolicyFromFile conf (pol s)" and ?bs = "encrypt_buffer (loadPolicyFromFile conf (pol s)) (strncpy bs)"
  have al': "aligned_cache ?s" using al by (rule load_aligned)
  have pol: "loadPolicyFromFile conf (pol ?s) = pol ?s" by (simp add: load_idem)
  have len': "length ?bs = MAX_CHUNK_SIZE" using len by simp
  from aligned_write_ok [OF al' off pol len', of rs f] obtain s' where
    s': "cached_write conf rs off f ?bs ?s = Some s'" "aligned_cache s'" "chunk_of f off s' = ?bs" "pol s' = ?q" by auto
  from s'(4) have pol': "s'\<lparr>pol := loadPolicyFromFile conf (pol s')\<rparr> = s'" "loadPolicyFromFile conf (pol s') = pol s'"
    by (simp_all add: load_idem)
  from aligned_read_ok [OF s'(2) off pol'(2), of rs' f] obtain s'' where
    s'': "cached_read conf rs' off f s' = Some (?bs, s'')" "pol s'' = ?q" using s'(3,4) by auto
  have "bb_write conf rs bs off f s = Some (4096, s')"
    using s'(1) cache len by (simp add: bb_write_def Let_def MAX_CHUNK_SIZE_def)
  moreover have "bb_read conf rs' MAX_CHUNK_SIZE off f s' = Some (4096, strncpy bs, s'')"
    unfolding bb_read_def Let_def pol'(1) using s'' s'(4) cache by (simp add: MAX_CHUNK_SIZE_def decrypt_encrypt)
  ultimately show ?thesis by blast
qed


section \<open>Witnesses\<close>

definition demo_disk :: disk where
  "demo_disk = (\<lambda>f. if f = 3 then Some (replicate 8192 7) else None)"

definition demo_boot :: bbfs where
  "demo_boot = (bbfs_boot demo_disk)\<lparr>pol := \<lparr>encryptEnabled = 1, forAddition = 5, forShift = 3, cachePolicy = 2\<rparr>\<rparr>"

lemma demo_aligned: "aligned_cache demo_boot" "aligned 0" "aligned 4096" "aligned 8192"
  by (simp_all add: demo_boot_def bbfs_boot_def aligned_cache_def cache_wf_def keys_def policy_ok_def aligned_def MAX_CHUNK_SIZE_def)

lemma demo_policy: "loadPolicyFromFile None q = q" "cachePolicy (pol demo_boot) = 2"
  by (simp_all add: loadPolicyFromFile_def demo_boot_def)


theorem bbfs_lru_witness:
  "\<exists>bytes s'. bb_read None (0, 0) MAX_CHUNK_SIZE 4096 3 demo_boot = Some (4096, bytes, s') \<and> keys s' = [(3, 4096)]"
proof -
  have "lru_touch MAX_LIST_SIZE (3, 4096) (keys demo_boot) = [(3, 4096)]"
    by (simp add: lru_touch_def keys_def demo_boot_def bbfs_boot_def MAX_LIST_SIZE_def)
  with bbfs_lru [OF demo_aligned(1,3), of None "replicate MAX_CHUNK_SIZE 1" "(0, 0)" 3] show ?thesis
    by (auto simp: demo_policy)
qed

theorem bbfs_write_read_witness:
  "\<exists>s' s''. bb_write None (0, 0) (replicate MAX_CHUNK_SIZE 9) 0 3 demo_boot = Some (4096, s') \<and>
     bb_read None (0, 0) MAX_CHUNK_SIZE 0 3 s' = Some (4096, replicate MAX_CHUNK_SIZE 9, s'')"
proof -
  have "takeWhile (\<lambda>x. x \<noteq> 0) (replicate n (9::byte)) = replicate n 9" for n by (induction n) simp_all
  then have "strncpy (replicate MAX_CHUNK_SIZE 9) = replicate MAX_CHUNK_SIZE 9" by (simp add: strncpy_def)
  with bbfs_write_read [OF demo_aligned(1,2), of None "replicate MAX_CHUNK_SIZE 9" "(0, 0)" 3 "(0, 0)"] show ?thesis
    by (simp add: demo_policy)
qed

end
