(* ===== verification/BbfsCoherence.thy ===== *)
theory BbfsCoherence
  imports BbfsCache
begin

text \<open>
  What a client of the chunk cache of \<open>bbfs.c\<close> sees when its requests are whole aligned chunks: in a
  coherent cache, one in which every buffer that is not marked dirty agrees with the file, reads, write
  hits and evictions keep the content of every chunk, and the release of the file writes all of it back.
  A write that misses leaves the coherent states, since the new buffer is not marked dirty, and is lost.
  Unaligned requests that hit the cache are undefined unless the chunks contain zero bytes.
\<close>

section \<open>Eviction\<close>

lemma drop_node_files:
  assumes co: "coherent s" and b: "nodes s p = Some b" and d: "drop_node None p s = Some v"
  shows "(\<forall>g. (files v g = None) = (files s g = None)) \<and> (\<forall>g off. aligned off \<longrightarrow>
    pread_into MAX_CHUNK_SIZE (files v) g off =
      (if (g, off) = (fb_fd b, fb_from b) then fb_buf b else pread_into MAX_CHUNK_SIZE (files s) g off))"
proof -
  from co b have ob: "aligned (fb_from b)" "length (fb_buf b) = MAX_CHUNK_SIZE" "files s (fb_fd b) \<noteq> None"
    "fb_dirty b \<noteq> 1 \<longrightarrow> fb_buf b = pread_into MAX_CHUNK_SIZE (files s) (fb_fd b) (fb_from b)"
    by (auto simp: coherent_def aligned_cache_def cache_wf_def)
  then obtain c where c: "files s (fb_fd b) = Some c" by blast
  have v: "files v = (if fb_dirty b = 1 then snd (snd (pwrite (files s) (fb_fd b) (fb_buf b) (fb_from b))) else files s)"
    using d b by (auto simp: drop_node_def Let_def)
  show ?thesis
  proof (cases "fb_dirty b = 1")
    case True
    have "\<not> fb_from b < 0" using ob(1) by (simp add: aligned_def)
    then have "(files v g = None) = (files s g = None)" for g using v True c by (auto simp: pwrite_def)
    with v True pread_pwrite [of "files s", OF c ob(1) _ ob(2)] show ?thesis by auto
  next
    case False
    with v ob(4) show ?thesis by auto
  qed
qed

lemma unique_key:
  assumes "aligned_cache s" "nodes s p = Some b" "nodes s q = Some c" "(fb_fd b, fb_from b) = (fb_fd c, fb_from c)"
  shows "p = q"
  using node_of_iff [OF assms(1,2) refl refl] node_of_iff [OF assms(1,3) refl refl] assms(4) by simp

lemma drop_coherent:
  assumes co: "coherent s" and p: "p \<in> set (headptr s)"
  shows "\<exists>v. drop_node None p s = Some v \<and> coherent (v\<lparr>bufferCount := bufferCount s - 1\<rparr>) \<and> headptr v = remove1 p (headptr s)
    \<and> (\<forall>g off. aligned off \<longrightarrow> chunk_of g off (v\<lparr>bufferCount := bufferCount s - 1\<rparr>) = chunk_of g off s)
    \<and> nodes v = (nodes s)(p := None) \<and> (\<forall>g. (files v g = None) = (files s g = None))"
proof -
  have al: "aligned_cache s" and wf: "cache_wf s" using co by (simp_all add: coherent_def aligned_cache_def)
  from drop_node_aligned [OF al p] obtain v where v: "drop_node None p s = Some v"
    "aligned_cache (v\<lparr>bufferCount := bufferCount s - 1\<rparr>)" "nodes v = (nodes s)(p := None)" by blast
  have hp: "headptr v = remove1 p (headptr s)" using drop_node_wf [OF wf p, of None] v(1) by auto
  obtain b where b: "nodes s p = Some b" using wf_node [OF wf p] by blast
  note fl = drop_node_files [OF co b v(1)]
  let ?u = "v\<lparr>bufferCount := bufferCount s - 1\<rparr>"
  have other: "(fb_fd c, fb_from c) \<noteq> (fb_fd b, fb_from b)" if "nodes ?u q = Some c" for q c
    using unique_key [OF al b, of q c] that v(3) by (auto split: if_splits)
  have "coherent ?u"
    unfolding coherent_def
  proof (intro conjI allI impI)
    show "aligned_cache ?u" by (rule v(2))
    fix q c assume c: "nodes ?u q = Some c"
    then have c': "nodes s q = Some c" using v(3) by (auto split: if_splits)
    with co fl show "files ?u (fb_fd c) \<noteq> None" by (auto simp: coherent_def)
    assume "fb_dirty c \<noteq> 1"
    with co c' have "fb_buf c = pread_into MAX_CHUNK_SIZE (files s) (fb_fd c) (fb_from c)" "aligned (fb_from c)"
      by (auto simp: coherent_def aligned_cache_def)
    with fl other [OF c] show "fb_buf c = pread_into MAX_CHUNK_SIZE (files ?u) (fb_fd c) (fb_from c)" by auto
  qed
  moreover have "chunk_of g off ?u = chunk_of g off s" if off: "aligned off" for g off
  proof (rule chunk_of_eq [OF al v(2)])
    fix q c assume c: "nodes s q = Some c" "(fb_fd c, fb_from c) = (g, off)"
    show "(\<exists>q' c'. nodes ?u q' = Some c' \<and> (fb_fd c', fb_from c') = (g, off) \<and> fb_buf c' = fb_buf c)
      \<or> ((\<forall>q' c'. nodes ?u q' = Some c' \<longrightarrow> (fb_fd c', fb_from c') \<noteq> (g, off)) \<and> pread_into MAX_CHUNK_SIZE (files ?u) g off = fb_buf c)"
    proof (cases "q = p")
      case True
      with b c have "c = b" by simp
      with c(2) other fl off show ?thesis by auto
    next
      case False
      with c v(3) show ?thesis by auto
    qed
  next
    assume none: "\<And>q c. nodes s q = Some c \<Longrightarrow> (fb_fd c, fb_from c) \<noteq> (g, off)"
    then have "\<forall>q c. nodes ?u q = Some c \<longrightarrow> (fb_fd c, fb_from c) \<noteq> (g, off)" using v(3) by auto
    moreover have "pread_into MAX_CHUNK_SIZE (files ?u) g off = pread_into MAX_CHUNK_SIZE (files s) g off"
      using none [OF b] fl off by auto
    ultimately show "(\<exists>q c. nodes ?u q = Some c \<and> (fb_fd c, fb_from c) = (g, off) \<and> fb_buf c = pread_into MAX_CHUNK_SIZE (files s) g off)
      \<or> ((\<forall>q c. nodes ?u q = Some c \<longrightarrow> (fb_fd c, fb_from c) \<noteq> (g, off))
          \<and> pread_into MAX_CHUNK_SIZE (files ?u) g off = pread_into MAX_CHUNK_SIZE (files s) g off)" by blast
  qed
  ultimately show ?thesis using v hp fl by blast
qed


section \<open>Requests\<close>

lemma coherent_stats [simp]:
  "coherent (s\<lparr>accessCount := x\<rparr>) = coherent s" "coherent (s\<lparr>hitCount := x\<rparr>) = coherent s" "coherent (s\<lparr>missCount := x\<rparr>) = coherent s"
  by (simp_all add: coherent_def)

lemma node_of_upd [simp]:
  "node_of g off (s\<lparr>accessCount := x\<rparr>) = node_of g off s" "node_of g off (s\<lparr>hitCount := x\<rparr>) = node_of g off s"
  "node_of g off (s\<lparr>missCount := x\<rparr>) = node_of g off s" "node_of g off (s\<lparr>pol := q\<rparr>) = node_of g off s"
  "node_of g off (s\<lparr>bufferCount := x\<rparr>) = node_of g off s"
  by (simp_all add: node_of_def)

lemma chunk_of_upd [simp]:
  "chunk_of g off (s\<lparr>accessCount := x\<rparr>) = chunk_of g off s" "chunk_of g off (s\<lparr>hitCount := x\<rparr>) = chunk_of g off s"
  "chunk_of g off (s\<lparr>missCount := x\<rparr>) = chunk_of g off s" "chunk_of g off (s\<lparr>pol := q\<rparr>) = chunk_of g off s"
  "chunk_of g off (s\<lparr>bufferCount := x\<rparr>) = chunk_of g off s"
  by (simp_all add: chunk_of_def cong: option.case_cong)

lemma coherent_load: "coherent s \<Longrightarrow> coherent (s\<lparr>pol := loadPolicyFromFile conf (pol s)\<rparr>)"
  by (simp add: coherent_def load_aligned)

lemma move_front_coherent:
  assumes "coherent s" "p \<in> set (headptr s)"
  shows "coherent (move_front p s)" "chunk_of g off (move_front p s) = chunk_of g off s"
proof -
  have al: "aligned_cache s" "aligned_cache (move_front p s)"
    using assms move_front_aligned(1) [of s p] by (simp_all add: coherent_def)
  with assms(1) show "coherent (move_front p s)" by (simp add: coherent_def) (simp add: move_front_def)
  show "chunk_of g off (move_front p s) = chunk_of g off s"
    by (rule chunk_of_eq [OF al]) (auto simp: move_front_def)
qed

lemma push_coherent:
  assumes co: "coherent u" and room: "length (headptr u) < MAX_LIST_SIZE" and off: "aligned off"
    and new: "(f, off) \<notin> set (keys u)" and "open": "files u f \<noteq> None"
  shows "coherent (push_node (clean_chunk f off (pread_into MAX_CHUNK_SIZE (files u) f off)) u)"
    "chunk_of g o' (push_node (clean_chunk f off (pread_into MAX_CHUNK_SIZE (files u) f off)) u) = chunk_of g o' u"
proof -
  let ?b = "clean_chunk f off (pread_into MAX_CHUNK_SIZE (files u) f off)"
  let ?t = "push_node ?b u"
  have al: "aligned_cache u" using co by (simp add: coherent_def)
  have al': "aligned_cache ?t" by (rule push_node_aligned(1) [OF al room off new]) simp
  have fresh: "nodes u (next_node u) = None" using al by (auto simp: aligned_cache_def cache_wf_def)
  have nd: "nodes ?t = (nodes u)(next_node u \<mapsto> ?b)" "files ?t = files u" by (simp_all add: push_node_def)
  from co "open" show "coherent ?t"
    unfolding coherent_def nd using al' by (auto simp: clean_chunk_def split: if_splits)
  have no: "(fb_fd b, fb_from b) \<noteq> (f, off)" if "nodes u p = Some b" for p b
  proof
    assume "(fb_fd b, fb_from b) = (f, off)"
    with node_of_iff [OF al that] node_of_None [of f off u] new show False by auto
  qed
  show "chunk_of g o' ?t = chunk_of g o' u"
  proof (rule chunk_of_eq [OF al al'])
    fix p b assume b: "nodes u p = Some b" "(fb_fd b, fb_from b) = (g, o')"
    then have "nodes ?t p = Some b" using fresh nd(1) by auto
    with b(2) show "(\<exists>q c. nodes ?t q = Some c \<and> (fb_fd c, fb_from c) = (g, o') \<and> fb_buf c = fb_buf b)
      \<or> ((\<forall>q c. nodes ?t q = Some c \<longrightarrow> (fb_fd c, fb_from c) \<noteq> (g, o')) \<and> pread_into MAX_CHUNK_SIZE (files ?t) g o' = fb_buf b)"
      by blast
  next
    assume none: "\<And>p b. nodes u p = Some b \<Longrightarrow> (fb_fd b, fb_from b) \<noteq> (g, o')"
    show "(\<exists>q c. nodes ?t q = Some c \<and> (fb_fd c, fb_from c) = (g, o') \<and> fb_buf c = pread_into MAX_CHUNK_SIZE (files u) g o')
      \<or> ((\<forall>q c. nodes ?t q = Some c \<longrightarrow> (fb_fd c, fb_from c) \<noteq> (g, o'))
          \<and> pread_into MAX_CHUNK_SIZE (files ?t) g o' = pread_into MAX_CHUNK_SIZE (files u) g o')"
    proof (cases "(g, o') = (f, off)")
      case True
      then have "nodes ?t (next_node u) = Some ?b \<and> (fb_fd ?b, fb_from ?b) = (g, o') \<and> fb_buf ?b = pread_into MAX_CHUNK_SIZE (files u) g o'"
        unfolding nd by (simp add: clean_chunk_def)
      then show ?thesis by blast
    next
      case False
      then have "\<forall>q c. nodes ?t q = Some c \<longrightarrow> (fb_fd c, fb_from c) \<noteq> (g, o')"
        using none nd(1) by (auto simp: clean_chunk_def)
      with nd(2) show ?thesis by auto
    qed
  qed
qed

text \<open>A read in a coherent cache: the content of the chunk, and no content changes.\<close>

lemma read_coherent:
  assumes co: "coherent s" and off: "aligned off" and pol: "loadPolicyFromFile conf (pol s) = pol s" and "open": "files s f \<noteq> None"
  shows "\<exists>s'. cached_read conf rs off f s = Some (chunk_of f off s, s') \<and> coherent s' \<and> pol s' = pol s
    \<and> (\<forall>g o'. aligned o' \<longrightarrow> chunk_of g o' s' = chunk_of g o' s)"
proof -
  have al: "aligned_cache s" using co by (simp add: coherent_def)
  from aligned_read_ok [OF al off pol, of rs f] obtain s' where
    s': "cached_read conf rs off f s = Some (chunk_of f off s, s')" "pol s' = pol s" by blast
  have "coherent s' \<and> (\<forall>g o'. aligned o' \<longrightarrow> chunk_of g o' s' = chunk_of g o' s)"
  proof (cases "node_of f off s")
    case (Some p)
    let ?s = "s\<lparr>accessCount := accessCount s + 1, hitCount := hitCount s + 1\<rparr>"
    have "s' = move_front p ?s" using s'(1) aligned_read [OF al off, of conf rs f] Some by simp
    with move_front_coherent [of ?s p] node_of_Some [OF Some] co show ?thesis by simp
  next
    case None
    let ?s = "s\<lparr>accessCount := accessCount s + 1, missCount := missCount s + 1\<rparr>"
    let ?bs = "pread_into MAX_CHUNK_SIZE (files s) f off"
    have new: "(f, off) \<notin> set (keys s)" using None by (simp add: node_of_None)
    have add: "addFileBuffer conf (fst rs) ?bs off (off + int MAX_CHUNK_SIZE) f ?s = Some s'"
      using s'(1) aligned_read [OF al off, of conf rs f] None by (simp add: chunk_of_def)
    have al': "aligned_cache ?s" using al by simp
    have len: "length ?bs = MAX_CHUNK_SIZE" by simp
    from al' off len show ?thesis
    proof (cases rule: add_cases [where conf = conf and r = "fst rs" and f = f])
      case room
      with add push_coherent [of ?s off f] co off new "open" show ?thesis by simp
    next
      case (evicted p v)
      let ?u = "v\<lparr>bufferCount := bufferCount v - 1\<rparr>"
      have "?s\<lparr>pol := loadPolicyFromFile conf (pol ?s)\<rparr> = ?s" using pol by simp
      with evicted(3) have dv: "drop_node None p ?s = Some v" by simp
      from drop_coherent [of ?s p] co evicted(2) dv have
        u: "coherent (v\<lparr>bufferCount := bufferCount s - 1\<rparr>)" "headptr v = remove1 p (headptr s)"
          "\<And>g o'. aligned o' \<Longrightarrow> chunk_of g o' (v\<lparr>bufferCount := bufferCount s - 1\<rparr>) = chunk_of g o' s"
          "\<And>g. (files v g = None) = (files s g = None)" by auto
      have bc: "bufferCount v = bufferCount s" and kv: "keys v = removeAll (node_key s p) (keys s)"
        using drop_node_aligned [OF al', of p] evicted(2) dv by auto
      have sp: "p \<in> set (headptr s)" using evicted(2) by simp
      then obtain b where b: "nodes s p = Some b" using wf_node [of s p] al by (auto simp: aligned_cache_def)
      have "(fb_fd b, fb_from b) \<in> set (keys s)" using sp b by (force simp: keys_def node_key_def)
      with new drop_node_files [of ?s p b v] co b dv off have bs: "pread_into MAX_CHUNK_SIZE (files v) f off = ?bs" by auto
      have "length (headptr ?u) < MAX_LIST_SIZE"
        using u(2) sp evicted(1) length_move [OF sp] by simp
      moreover have "(f, off) \<notin> set (keys ?u)" using new kv by simp
      moreover have "files ?u f \<noteq> None" using "open" u(4) by simp
      ultimately have "coherent s' \<and> (\<forall>g o'. chunk_of g o' s' = chunk_of g o' ?u)"
        using push_coherent [of ?u off f] u(1) off bs bc add evicted(5) by simp
      then show ?thesis using u(3) bc by simp
    qed
  qed
  with s' show ?thesis by blast
qed


lemma write_hit_coherent:
  assumes co: "coherent s" and off: "aligned off" and p: "node_of f off s = Some p" and len: "length bs = MAX_CHUNK_SIZE"
  shows "\<exists>s'. cached_write conf rs off f bs s = Some s' \<and> coherent s' \<and> pol s' = pol s
    \<and> (\<forall>g o'. aligned o' \<longrightarrow> chunk_of g o' s' = (if (g, o') = (f, off) then bs else chunk_of g o' s))"
proof -
  have al: "aligned_cache s" using co by (simp add: coherent_def)
  let ?m = "move_front p (s\<lparr>accessCount := accessCount s + 1, hitCount := hitCount s + 1\<rparr>)"
  note mem = node_of_Some [OF p]
  obtain a where a: "nodes s p = Some a" using mem wf_node [of s p] al by (auto simp: aligned_cache_def)
  have key: "(fb_fd a, fb_from a) = (f, off)" using mem a by (simp add: node_key_def)
  let ?a = "a\<lparr>fb_buf := bs, fb_dirty := 1\<rparr>"
  let ?t = "?m\<lparr>nodes := (nodes ?m)(p \<mapsto> ?a)\<rparr>"
  have m: "coherent ?m" "\<And>g o'. chunk_of g o' ?m = chunk_of g o' s"
    using move_front_coherent [of "s\<lparr>accessCount := accessCount s + 1, hitCount := hitCount s + 1\<rparr>" p] mem co by simp_all
  have nm: "nodes ?m = nodes s" "files ?m = files s" by (simp_all add: move_front_def)
  have am: "aligned_cache ?m" using m(1) by (simp add: coherent_def)
  have t: "aligned_cache ?t" using write_node_aligned [OF am _ len, of p a 1] a nm by simp
  have "coherent ?t"
    using m(1) t a nm key by (auto simp: coherent_def split: if_splits)
  moreover have "chunk_of g o' ?t = (if (g, o') = (f, off) then bs else chunk_of g o' s)" for g o'
  proof (cases "(g, o') = (f, off)")
    case True
    with chunk_of_node [OF t, of p ?a] key show ?thesis by simp
  next
    case False
    have "chunk_of g o' ?t = chunk_of g o' ?m"
    proof (rule chunk_of_eq [OF am t])
      fix q c assume c: "nodes ?m q = Some c" "(fb_fd c, fb_from c) = (g, o')"
      with False key a nm have "q \<noteq> p" by auto
      with c have "nodes ?t q = Some c" by simp
      with c(2) show "(\<exists>q d. nodes ?t q = Some d \<and> (fb_fd d, fb_from d) = (g, o') \<and> fb_buf d = fb_buf c)
        \<or> ((\<forall>q d. nodes ?t q = Some d \<longrightarrow> (fb_fd d, fb_from d) \<noteq> (g, o')) \<and> pread_into MAX_CHUNK_SIZE (files ?t) g o' = fb_buf c)"
        by blast
    next
      assume "\<And>q c. nodes ?m q = Some c \<Longrightarrow> (fb_fd c, fb_from c) \<noteq> (g, o')"
      then have "\<forall>q d. nodes ?t q = Some d \<longrightarrow> (fb_fd d, fb_from d) \<noteq> (g, o')" using False key by auto
      then show "(\<exists>q d. nodes ?t q = Some d \<and> (fb_fd d, fb_from d) = (g, o') \<and> fb_buf d = pread_into MAX_CHUNK_SIZE (files ?m) g o')
        \<or> ((\<forall>q d. nodes ?t q = Some d \<longrightarrow> (fb_fd d, fb_from d) \<noteq> (g, o'))
            \<and> pread_into MAX_CHUNK_SIZE (files ?t) g o' = pread_into MAX_CHUNK_SIZE (files ?m) g o')" by auto
    qed
    with False m(2) show ?thesis by auto
  qed
  moreover have "cached_write conf rs off f bs s = Some ?t"
    using aligned_write [OF al off, of conf rs f bs] p a by (simp add: move_front_def)
  moreover have "pol ?t = pol s" by (simp add: move_front_def)
  ultimately show ?thesis by blast
qed

section \<open>Release\<close>

lemma drop_node_count: "drop_node t p (s\<lparr>bufferCount := x\<rparr>) = map_option (\<lambda>v. v\<lparr>bufferCount := x\<rparr>) (drop_node t p s)"
  by (cases "nodes s p") (simp_all add: drop_node_def Let_def)

lemma drop_node_own: "nodes s p = Some b \<Longrightarrow> fb_fd b = f \<Longrightarrow> drop_node (Some f) p s = drop_node None p s"
  by (simp add: drop_node_def)

text \<open>When all buffers belong to the released file, everything is written back.\<close>

lemma drop_all_coherent:
  assumes "coherent (s\<lparr>bufferCount := int (length ps)\<rparr>)" "headptr s = ps" "\<And>p b. nodes s p = Some b \<Longrightarrow> fb_fd b = f"
  shows "\<exists>s'. drop_all (Some f) ps s = Some s' \<and> headptr s' = [] \<and>
    (\<forall>g off. aligned off \<longrightarrow> pread_into MAX_CHUNK_SIZE (files s') g off = chunk_of g off s)"
  using assms
proof (induction ps arbitrary: s)
  case Nil
  then show ?case by (simp add: chunk_of_def node_of_def)
next
  case (Cons p ps)
  let ?s = "s\<lparr>bufferCount := int (length (p # ps))\<rparr>"
  from drop_coherent [OF Cons.prems(1), of p] Cons.prems(2) obtain v where
    v: "drop_node None p ?s = Some v" "coherent (v\<lparr>bufferCount := int (length ps)\<rparr>)" "headptr v = ps"
      "\<And>g off. aligned off \<Longrightarrow> chunk_of g off (v\<lparr>bufferCount := int (length ps)\<rparr>) = chunk_of g off ?s"
      "nodes v = (nodes s)(p := None)" by auto
  from v(1) obtain w where w: "drop_node None p s = Some w" "v = w\<lparr>bufferCount := int (length (p # ps))\<rparr>"
    by (auto simp: drop_node_count)
  obtain b where "nodes s p = Some b" using w(1) by (auto simp: drop_node_def bind_eq_Some_conv)
  with drop_node_own [of s p b f] Cons.prems(3) w(1) have dw: "drop_node (Some f) p s = Some w" by simp
  have "coherent (w\<lparr>bufferCount := int (length ps)\<rparr>)" "headptr w = ps" "\<And>q c. nodes w q = Some c \<Longrightarrow> fb_fd c = f"
    using v w(2) Cons.prems(3) by (auto split: if_splits)
  from Cons.IH [OF this] dw v(4) w(2) show ?case by auto
qed

section \<open>Properties\<close>




section \<open>Where data is lost\<close>

lemma drop_all_files_cong:
  assumes "\<forall>p \<in> set ps. nodes s p = nodes t p" "distinct ps" "files s = files t"
    "drop_all g ps s = Some s'" "drop_all g ps t = Some t'"
  shows "files s' = files t'"
  using assms
proof (induction ps arbitrary: s t)
  case (Cons p ps)
  then obtain u v where u: "drop_node g p s = Some u" "drop_all g ps u = Some s'"
    and v: "drop_node g p t = Some v" "drop_all g ps v = Some t'" by (auto simp: bind_eq_Some_conv)
  from u(1) obtain b where b: "nodes s p = Some b" "nodes t p = Some b"
    using Cons.prems(1) by (auto simp: drop_node_def bind_eq_Some_conv)
  define w where "w fl = (if fb_dirty b = 1 then snd (snd (pwrite fl (case g of Some f \<Rightarrow> f | None \<Rightarrow> fb_fd b) (fb_buf b) (fb_from b))) else fl)" for fl
  have "s\<lparr>headptr := remove1 p (headptr s), nodes := (nodes s)(p := None), files := w (files s)\<rparr> = u"
    using u(1) b(1) by (simp add: drop_node_def Let_def w_def)
  moreover have "t\<lparr>headptr := remove1 p (headptr t), nodes := (nodes t)(p := None), files := w (files t)\<rparr> = v"
    using v(1) b(2) by (simp add: drop_node_def Let_def w_def)
  ultimately have "nodes u = (nodes s)(p := None)" "nodes v = (nodes t)(p := None)" "files u = files v"
    using Cons.prems(3) by auto
  then have "\<forall>q \<in> set ps. nodes u q = nodes v q" "files u = files v" using Cons.prems(1) by simp_all
  with Cons.IH u(2) v(2) Cons.prems(2) show ?case by auto
qed simp

text \<open>A chunk-sized aligned write to a chunk that is not cached, with room in the cache, reports success
  but is lost: after the release of the file all files are as if the write had not been made. The buffer
  that the write inserts is not marked dirty.\<close>

theorem bbfs_write_miss_lost:
  assumes al: "aligned_cache s" and off: "aligned off" and pol: "cachePolicy (loadPolicyFromFile conf (pol s)) \<noteq> 0"
    and len: "length bs = MAX_CHUNK_SIZE" and miss: "node_of f off s = None" and room: "length (headptr s) < MAX_LIST_SIZE"
  shows "\<exists>s' u v. bb_write conf rs bs off f s = Some (4096, s') \<and> releaseFileBuffer f s' = Some u
    \<and> releaseFileBuffer f s = Some v \<and> files u = files v"
proof -
  let ?q = "loadPolicyFromFile conf (pol s)"
  let ?bs = "encrypt_buffer ?q (strncpy bs)"
  let ?s = "s\<lparr>pol := ?q, accessCount := accessCount s + 1, missCount := missCount s + 1\<rparr>"
  let ?t = "push_node (clean_chunk f off ?bs) ?s"
  have al': "aligned_cache (s\<lparr>pol := ?q\<rparr>)" "aligned_cache ?s" using load_aligned [OF al, of conf] by simp_all
  have len': "length ?bs = MAX_CHUNK_SIZE" using len by simp
  have "addFileBuffer conf (fst rs) ?bs off (off + int MAX_CHUNK_SIZE) f ?s = Some ?t"
    using al'(2) off len'
  proof (cases rule: add_cases [where conf = conf and r = "fst rs" and f = f])
    case (evicted p v)
    with room show ?thesis by simp
  qed simp
  with aligned_write [OF al'(1) off, of conf rs f ?bs] miss pol len have w: "bb_write conf rs bs off f s = Some (4096, ?t)"
    by (simp add: bb_write_def Let_def MAX_CHUNK_SIZE_def)
  have wf: "cache_wf s" "cache_wf ?t"
    using al push_node_aligned(1) [OF al'(2) _ off _ len', of f] room miss by (simp_all add: aligned_cache_def node_of_None)
  from release_cache_wf [OF wf(1), of f] obtain v where v: "releaseFileBuffer f s = Some v" by blast
  from release_cache_wf [OF wf(2), of f] obtain u where u: "releaseFileBuffer f ?t = Some u" by blast
  have fresh: "next_node s \<notin> set (headptr s)" using wf(1) by (auto simp: cache_wf_def)
  let ?d = "?t\<lparr>headptr := headptr s, nodes := (nodes ?t)(next_node s := None)\<rparr>"
  have "drop_node (Some f) (next_node s) ?t = Some ?d" by (simp add: drop_node_def push_node_def clean_chunk_def)
  then obtain a b where a: "drop_all (Some f) (headptr s) ?d = Some a" "files u = files a"
    and b: "drop_all (Some f) (headptr s) s = Some b" "files v = files b"
    using u v by (auto simp: releaseFileBuffer_def bind_eq_Some_conv push_node_def)
  have "files a = files b"
    by (rule drop_all_files_cong [OF _ _ _ a(1) b(1)]) (use fresh wf(1) in \<open>auto simp: push_node_def cache_wf_def\<close>)
  with w u v a b show ?thesis by auto
qed

section \<open>Unaligned requests\<close>

lemma hit_scan_unaligned:
  assumes "\<forall>p \<in> set ps. \<exists>b. nds p = Some b \<and> \<not> (fb_fd b = f \<and> fb_from b = x)"
  shows "hit_scan nds x y f ps fp sp = Some (False,
    fold (\<lambda>p acc. if fb_fd (the (nds p)) = f \<and> fb_from (the (nds p)) < x \<and> x < fb_to (the (nds p)) then Some p else acc) ps fp,
    fold (\<lambda>p acc. if fb_fd (the (nds p)) = f \<and> fb_from (the (nds p)) < y \<and> y < fb_to (the (nds p)) then Some p else acc) ps sp)"
  using assms by (induction ps arbitrary: fp sp) auto

lemma fold_unique:
  "\<forall>q \<in> set ps. P q = (q = p) \<Longrightarrow> fold (\<lambda>q acc. if P q then Some q else acc) ps a = (if p \<in> set ps then Some p else a)"
  by (induction ps arbitrary: a) auto

text \<open>A chunk-sized read at an unaligned offset whose two chunks are both cached, the first without a zero
  byte, is undefined: the concatenation by \<open>sprintf\<close> treats the chunks as strings and reads past the end
  of the buffer.\<close>

lemma bbfs_unaligned_hit_undefined:
  assumes al: "aligned_cache s" and base: "aligned base" "aligned (base + int MAX_CHUNK_SIZE)" and d: "0 < d" "d < int MAX_CHUNK_SIZE"
    and pol: "cachePolicy (loadPolicyFromFile conf (pol s)) \<noteq> 0"
    and hit: "node_of f base s = Some p" "node_of f (base + int MAX_CHUNK_SIZE) s = Some q" and nozero: "0 \<notin> set (chunk_of f base s)"
  shows "bb_read conf rs MAX_CHUNK_SIZE (base + d) f s = None"
proof -
  let ?n = "int MAX_CHUNK_SIZE" and ?s = "s\<lparr>pol := loadPolicyFromFile conf (pol s)\<rparr>"
  have wf: "cache_wf s" using al by (simp add: aligned_cache_def)
  have nd: "\<exists>b. nodes s r = Some b \<and> ?n dvd fb_from b \<and> fb_to b = fb_from b + ?n" if "r \<in> set (headptr s)" for r
    using wf_node [OF wf that] al unfolding aligned_cache_def aligned_def by blast
  have dvd: "?n dvd base" "?n dvd base + ?n" "\<not> ?n dvd base + d"
    using base d by (auto simp: aligned_def dvd_add_right_iff zdvd_not_zless)
  have in_chunk: "fb_from b < x + d \<and> x + d < fb_from b + ?n \<longleftrightarrow> fb_from b = x" if "?n dvd fb_from b" "?n dvd x" for b x
    using that d aligned_gap [of "fb_from b" x] aligned_gap [of x "fb_from b"] by (auto simp: not_less)
  have uniq: "fb_fd (the (nodes s r)) = f \<and> fb_from (the (nodes s r)) = x \<longleftrightarrow> r = z"
    if "r \<in> set (headptr s)" "node_of f x s = Some z" for r x z
  proof -
    from nd [OF that(1)] obtain b where b: "nodes s r = Some b" by blast
    from nd [of z] node_of_Some [OF that(2)] obtain c where c: "nodes s z = Some c" "fb_fd c = f" "fb_from c = x"
      by (auto simp: node_key_def)
    show ?thesis
    proof
      assume "fb_fd (the (nodes s r)) = f \<and> fb_from (the (nodes s r)) = x"
      with b c(2,3) show "r = z" by (intro unique_key [OF al b c(1)]) simp
    qed (use c in simp)
  qed
  have cond: "(fb_fd (the (nodes s r)) = f \<and> fb_from (the (nodes s r)) < x + d \<and> x + d < fb_to (the (nodes s r))) = (r = z)"
    if "r \<in> set (headptr s)" "node_of f x s = Some z" "?n dvd x" for r x z
  proof -
    from nd [OF that(1)] obtain b where b: "nodes s r = Some b" "?n dvd fb_from b" "fb_to b = fb_from b + ?n" by blast
    from in_chunk [OF b(2) that(3)] uniq [OF that(1,2)] b show ?thesis by simp
  qed
  have i32: "int32 (base + d) = base + d" "int32 (base + d + ?n) = base + ?n + d"
    using base d by (auto simp: aligned_def MAX_CHUNK_SIZE_def algebra_simps intro!: int32_id)
  have mem: "p \<in> set (headptr s)" "q \<in> set (headptr s)" using hit by (auto dest: node_of_Some)
  have "hit_scan (nodes s) (base + d) (base + ?n + d) f (headptr s) None None = Some (False, Some p, Some q)"
    using fold_unique [of "headptr s" _ p None] fold_unique [of "headptr s" _ q None] cond hit dvd mem nd
    by (subst hit_scan_unaligned) force+
  then obtain t where "bufferHitCheck (base + d) ?n f ?s = Some (\<lparr>hit_type = PARTIAL_HIT, firstpart = Some p, secondpart = Some q\<rparr>, t)"
    "nodes t = nodes s" by (auto simp: bufferHitCheck_def i32 move_front_def Let_def)
  moreover obtain b where "nodes s p = Some b" "fb_buf b = chunk_of f base s"
    using nd [OF mem(1)] hit(1) by (auto simp: chunk_of_def)
  ultimately have "cached_read conf rs (base + d) f ?s = None"
    using nozero by (simp add: cached_read_def read_partial_hit_def sprintf_ss_def i32)
  with pol show ?thesis by (simp add: bb_read_def Let_def)
qed


section \<open>Witnesses\<close>

lemma demo_coherent: "coherent demo_boot"
  using demo_aligned(1) by (simp add: coherent_def) (simp add: demo_boot_def bbfs_boot_def)

text \<open>Two reads bring two chunks of an open file into the cache.\<close>

lemma two_chunks:
  "\<exists>s. coherent s \<and> keys s = [(3, 4096), (3, 0)] \<and> chunk_of 3 0 s = replicate MAX_CHUNK_SIZE 7 \<and> cachePolicy (pol s) = 2 \<and> files s 3 \<noteq> None"
proof -
  have nf: "files demo_boot 3 \<noteq> None" by (simp add: demo_boot_def bbfs_boot_def demo_disk_def)
  have lp: "loadPolicyFromFile None q = q" for q by (rule demo_policy(1))
  from read_coherent [OF demo_coherent demo_aligned(2) lp nf, of "(0, 0)"] obtain s where
    s: "cached_read None (0, 0) 0 3 demo_boot = Some (chunk_of 3 0 demo_boot, s)" "coherent s" "pol s = pol demo_boot"
      "\<And>g o'. aligned o' \<Longrightarrow> chunk_of g o' s = chunk_of g o' demo_boot" by blast
  from aligned_read_ok [OF demo_aligned(1,2) lp, of "(0, 0)" 3] s(1) demo_policy(2)
  have k1: "keys s = [(3, 0)]" by (auto simp: lru_touch_def keys_def demo_boot_def bbfs_boot_def MAX_LIST_SIZE_def)
  have hit: "node_of 3 0 s \<noteq> None" using k1 by (simp add: node_of_None)
  have al: "aligned_cache s" using s(2) by (simp add: coherent_def)
  from hit obtain p where "node_of 3 0 s = Some p" by blast
  then obtain b where "nodes s p = Some b" "fb_fd b = 3"
    using node_of_Some [of 3 0 s p] wf_node [of s p] al by (auto simp: aligned_cache_def node_key_def)
  with s(2) have nf': "files s 3 \<noteq> None" by (metis coherent_def)
  from read_coherent [OF s(2) demo_aligned(3) lp nf', of "(0, 0)"] obtain t where
    t: "cached_read None (0, 0) 4096 3 s = Some (chunk_of 3 4096 s, t)" "coherent t" "pol t = pol s"
      "\<And>g o'. aligned o' \<Longrightarrow> chunk_of g o' t = chunk_of g o' s" by blast
  from aligned_read_ok [OF al demo_aligned(3) lp, of "(0, 0)" 3] t(1) s(3) demo_policy(2) k1
  have k2: "keys t = [(3, 4096), (3, 0)]" by (auto simp: lru_touch_def MAX_LIST_SIZE_def)
  have "chunk_of 3 0 demo_boot = replicate MAX_CHUNK_SIZE 7"
    by (simp add: chunk_of_def node_of_def demo_boot_def bbfs_boot_def pread_into_def pread_def demo_disk_def MAX_CHUNK_SIZE_def)
  moreover have "files t 3 \<noteq> None"
  proof -
    from k2 have "node_of 3 0 t \<noteq> None" by (simp add: node_of_None)
    then obtain p where "node_of 3 0 t = Some p" by blast
    then obtain b where "nodes t p = Some b" "fb_fd b = 3"
      using node_of_Some [of 3 0 t p] wf_node [of t p] t(2) by (auto simp: coherent_def aligned_cache_def node_key_def)
    with t(2) show ?thesis by (metis coherent_def)
  qed
  ultimately show ?thesis using t s k2 demo_aligned(2) demo_policy(2) by auto
qed


lemma two_chunks_own:
  assumes "coherent s" "keys s = [(3, 4096), (3, 0)]"
  shows "\<forall>p b. nodes s p = Some b \<longrightarrow> fb_fd b = 3"
proof (intro allI impI)
  fix p b assume b: "nodes s p = Some b"
  then have "(fb_fd b, fb_from b) \<in> set (keys s)"
    using node_of_iff [of s p b] node_of_None assms(1) by (metis coherent_def option.distinct(1))
  with assms(2) show "fb_fd b = 3" by auto
qed


theorem bbfs_write_miss_lost_witness:
  "\<exists>s' u v. bb_write None (0, 0) (replicate MAX_CHUNK_SIZE 9) 4096 3 demo_boot = Some (4096, s')
     \<and> releaseFileBuffer 3 s' = Some u \<and> releaseFileBuffer 3 demo_boot = Some v \<and> files u = files v"
  by (rule bbfs_write_miss_lost [OF demo_aligned(1,3)])
    (simp_all add: demo_policy node_of_def, simp_all add: demo_boot_def bbfs_boot_def MAX_LIST_SIZE_def)

theorem bbfs_unaligned_hit_undefined_witness:
  "\<exists>s. coherent s \<and> bb_read None (0, 0) MAX_CHUNK_SIZE (0 + 100) 3 s = None"
proof -
  from two_chunks obtain s where s: "coherent s" "keys s = [(3, 4096), (3, 0)]" "chunk_of 3 0 s = replicate MAX_CHUNK_SIZE 7"
    "cachePolicy (pol s) = 2" by blast
  have al: "aligned_cache s" using s(1) by (simp add: coherent_def)
  have "node_of 3 0 s \<noteq> None" "node_of 3 (0 + int MAX_CHUNK_SIZE) s \<noteq> None"
    using s(2) by (simp_all add: node_of_None MAX_CHUNK_SIZE_def)
  then obtain p q where pq: "node_of 3 0 s = Some p" "node_of 3 (0 + int MAX_CHUNK_SIZE) s = Some q" by blast
  have "bb_read None (0, 0) MAX_CHUNK_SIZE (0 + 100) 3 s = None"
    by (rule bbfs_unaligned_hit_undefined [OF al demo_aligned(2) _ _ _ _ pq])
      (use s in \<open>simp_all add: demo_policy demo_aligned MAX_CHUNK_SIZE_def\<close>)
  with s(1) show ?thesis by blast
qed

end
