(* ===== verification/BbfsOps.thy ===== *)
theory BbfsOps
  imports BbfsCache
begin

text \<open>
  The handlers of \<open>src/project4/bbfs.c\<close> that pass a request on to the underlying file system, from
  \<open>bb_getattr\<close> to \<open>bb_fgetattr\<close>, and the table \<open>bb_oper\<close>. The operating system is a parameter: a function from a
  system call and a world to a result, an error number, the bytes it stores through its pointer argument, and a new
  world. The logging functions (\<open>log.c\<close> is not part of the repository) have no effect on it. A path that does not
  fit its buffer of \<open>PATH_MAX\<close> bytes is undefined behaviour. The theorems: every handler but two reports the
  error number of the failing call, and the others return -1; directory listings are complete or refused; asking for the
  length of an attribute list runs into undefined behaviour.
\<close>

section \<open>System calls\<close>

type_synonym mode = "32 word"

datatype syscall =
    Lstat string | Readlink string nat | OpenFile string "32 word" mode | Close int
  | Mkfifo string mode | Mknod string mode "64 word" | Mkdir string mode
  | Unlink string | Rmdir string | Symlink string string | Rename string string | Link string string
  | Chmod string mode | Chown string "32 word" "32 word" | TruncateFile string int | Utime string "byte list"
  | Statvfs string | Fdatasync int | Fsync int
  | Lsetxattr string string "byte list" int | Lgetxattr string string nat | Llistxattr string nat | Lremovexattr string string
  | Opendir string | Readdir int | Closedir int
  | Access string int | Creat string mode | Ftruncate int int | Fstat int

record sysret =
  s_res :: int
  s_errno :: int
  s_data :: "byte list"

type_synonym 'w os = "syscall \<Rightarrow> 'w \<Rightarrow> sysret \<times> 'w"

text \<open>What a handler gives back: its return value, the bytes it stores for the caller, the file handle it stores.\<close>

record reply =
  r_ret :: int
  r_out :: "byte list"
  r_fh :: int

definition reply :: "int \<Rightarrow> byte list \<Rightarrow> int \<Rightarrow> reply" where
  "reply ret out fh = \<lparr>r_ret = ret, r_out = out, r_fh = fh\<rparr>"

lemma reply_simps [simp]: "r_ret (reply ret out fh) = ret" "r_out (reply ret out fh) = out" "r_fh (reply ret out fh) = fh"
  by (simp_all add: reply_def)

definition bb_error :: "sysret \<Rightarrow> int" where
  "bb_error r = - s_errno r"

definition PATH_MAX :: nat where "PATH_MAX = 4096"

definition bb_fullpath :: "string \<Rightarrow> string \<Rightarrow> string option" where
  "bb_fullpath rootdir path =
     (let fpath = rootdir @ take PATH_MAX path in if length fpath < PATH_MAX then Some fpath else None)"

section \<open>Handlers that work on paths\<close>

definition bb_getattr :: "'w os \<Rightarrow> string \<Rightarrow> string \<Rightarrow> 'w \<Rightarrow> (reply \<times> 'w) option" where
  "bb_getattr os root path w = do {
     fpath \<leftarrow> bb_fullpath root path;
     let (r, w) = os (Lstat fpath) w;
     let retstat = (if s_res r \<noteq> 0 then bb_error r else s_res r);
     Some (reply retstat (s_data r) 0, w)
   }"

text \<open>The size is a \<open>size_t\<close>; the terminator is written behind the bytes \<open>readlink\<close> has stored.\<close>

definition bb_readlink :: "'w os \<Rightarrow> string \<Rightarrow> string \<Rightarrow> nat \<Rightarrow> 'w \<Rightarrow> (reply \<times> 'w) option" where
  "bb_readlink os root path sz w = do {
     fpath \<leftarrow> bb_fullpath root path;
     let (r, w) = os (Readlink fpath ((sz + 2 ^ 64 - 1) mod 2 ^ 64)) w;
     if s_res r < 0 then Some (reply (bb_error r) [] 0, w)
     else if s_res r < int sz then Some (reply 0 (take (nat (s_res r)) (s_data r) @ [0]) 0, w)
     else None
   }"

definition S_IFMT :: mode where "S_IFMT = 0xF000"
definition S_IFREG :: mode where "S_IFREG = 0x8000"
definition S_IFIFO :: mode where "S_IFIFO = 0x1000"
definition O_WRONLY :: "32 word" where "O_WRONLY = 0x01"
definition O_CREAT :: "32 word" where "O_CREAT = 0x40"
definition O_EXCL :: "32 word" where "O_EXCL = 0x80"

definition bb_mknod :: "'w os \<Rightarrow> string \<Rightarrow> string \<Rightarrow> mode \<Rightarrow> 64 word \<Rightarrow> 'w \<Rightarrow> (reply \<times> 'w) option" where
  "bb_mknod os root path mode dev w = do {
     fpath \<leftarrow> bb_fullpath root path;
     if and mode S_IFMT = S_IFREG then do {
       let (r, w) = os (OpenFile fpath (or O_CREAT (or O_EXCL O_WRONLY)) mode) w;
       if s_res r < 0 then Some (reply (bb_error r) [] 0, w)
       else do {
         let (c, w) = os (Close (s_res r)) w;
         Some (reply (if s_res c < 0 then bb_error c else s_res c) [] 0, w)
       }
     }
     else if and mode S_IFMT = S_IFIFO then do {
       let (r, w) = os (Mkfifo fpath mode) w;
       Some (reply (if s_res r < 0 then bb_error r else s_res r) [] 0, w)
     }
     else do {
       let (r, w) = os (Mknod fpath mode dev) w;
       Some (reply (if s_res r < 0 then bb_error r else s_res r) [] 0, w)
     }
   }"

definition bb_mkdir :: "'w os \<Rightarrow> string \<Rightarrow> string \<Rightarrow> mode \<Rightarrow> 'w \<Rightarrow> (reply \<times> 'w) option" where
  "bb_mkdir os root path mode w = do {
     fpath \<leftarrow> bb_fullpath root path;
     let (r, w) = os (Mkdir fpath mode) w;
     Some (reply (if s_res r < 0 then bb_error r else s_res r) [] 0, w)
   }"

definition bb_unlink :: "'w os \<Rightarrow> string \<Rightarrow> string \<Rightarrow> 'w \<Rightarrow> (reply \<times> 'w) option" where
  "bb_unlink os root path w = do {
     fpath \<leftarrow> bb_fullpath root path;
     let (r, w) = os (Unlink fpath) w;
     Some (reply (if s_res r < 0 then bb_error r else s_res r) [] 0, w)
   }"

definition bb_rmdir :: "'w os \<Rightarrow> string \<Rightarrow> string \<Rightarrow> 'w \<Rightarrow> (reply \<times> 'w) option" where
  "bb_rmdir os root path w = do {
     fpath \<leftarrow> bb_fullpath root path;
     let (r, w) = os (Rmdir fpath) w;
     Some (reply (if s_res r < 0 then bb_error r else s_res r) [] 0, w)
   }"

text \<open>The target of a symbolic link is passed unchanged.\<close>

definition bb_symlink :: "'w os \<Rightarrow> string \<Rightarrow> string \<Rightarrow> string \<Rightarrow> 'w \<Rightarrow> (reply \<times> 'w) option" where
  "bb_symlink os root path link w = do {
     flink \<leftarrow> bb_fullpath root link;
     let (r, w) = os (Symlink path flink) w;
     Some (reply (if s_res r < 0 then bb_error r else s_res r) [] 0, w)
   }"

definition bb_rename :: "'w os \<Rightarrow> string \<Rightarrow> string \<Rightarrow> string \<Rightarrow> 'w \<Rightarrow> (reply \<times> 'w) option" where
  "bb_rename os root path newpath w = do {
     fpath \<leftarrow> bb_fullpath root path;
     fnewpath \<leftarrow> bb_fullpath root newpath;
     let (r, w) = os (Rename fpath fnewpath) w;
     Some (reply (if s_res r < 0 then bb_error r else s_res r) [] 0, w)
   }"

definition bb_link :: "'w os \<Rightarrow> string \<Rightarrow> string \<Rightarrow> string \<Rightarrow> 'w \<Rightarrow> (reply \<times> 'w) option" where
  "bb_link os root path newpath w = do {
     fpath \<leftarrow> bb_fullpath root path;
     fnewpath \<leftarrow> bb_fullpath root newpath;
     let (r, w) = os (Link fpath fnewpath) w;
     Some (reply (if s_res r < 0 then bb_error r else s_res r) [] 0, w)
   }"

definition bb_chmod :: "'w os \<Rightarrow> string \<Rightarrow> string \<Rightarrow> mode \<Rightarrow> 'w \<Rightarrow> (reply \<times> 'w) option" where
  "bb_chmod os root path mode w = do {
     fpath \<leftarrow> bb_fullpath root path;
     let (r, w) = os (Chmod fpath mode) w;
     Some (reply (if s_res r < 0 then bb_error r else s_res r) [] 0, w)
   }"

definition bb_chown :: "'w os \<Rightarrow> string \<Rightarrow> string \<Rightarrow> 32 word \<Rightarrow> 32 word \<Rightarrow> 'w \<Rightarrow> (reply \<times> 'w) option" where
  "bb_chown os root path uid gid w = do {
     fpath \<leftarrow> bb_fullpath root path;
     let (r, w) = os (Chown fpath uid gid) w;
     Some (reply (if s_res r < 0 then bb_error r else s_res r) [] 0, w)
   }"

text \<open>Here the value of \<open>bb_error\<close> is not assigned.\<close>

definition bb_truncate :: "'w os \<Rightarrow> string \<Rightarrow> string \<Rightarrow> int \<Rightarrow> 'w \<Rightarrow> (reply \<times> 'w) option" where
  "bb_truncate os root path newsize w = do {
     fpath \<leftarrow> bb_fullpath root path;
     let (r, w) = os (TruncateFile fpath newsize) w;
     Some (reply (s_res r) [] 0, w)
   }"

definition bb_utime :: "'w os \<Rightarrow> string \<Rightarrow> string \<Rightarrow> byte list \<Rightarrow> 'w \<Rightarrow> (reply \<times> 'w) option" where
  "bb_utime os root path ubuf w = do {
     fpath \<leftarrow> bb_fullpath root path;
     let (r, w) = os (Utime fpath ubuf) w;
     Some (reply (if s_res r < 0 then bb_error r else s_res r) [] 0, w)
   }"

text \<open>The handle is stored even when the file could not be opened.\<close>

definition bb_open :: "'w os \<Rightarrow> string \<Rightarrow> string \<Rightarrow> 32 word \<Rightarrow> 'w \<Rightarrow> (reply \<times> 'w) option" where
  "bb_open os root path flags w = do {
     fpath \<leftarrow> bb_fullpath root path;
     let (r, w) = os (OpenFile fpath flags 0) w;
     Some (reply (if s_res r < 0 then bb_error r else 0) [] (s_res r), w)
   }"

definition bb_statfs :: "'w os \<Rightarrow> string \<Rightarrow> string \<Rightarrow> 'w \<Rightarrow> (reply \<times> 'w) option" where
  "bb_statfs os root path w = do {
     fpath \<leftarrow> bb_fullpath root path;
     let (r, w) = os (Statvfs fpath) w;
     Some (reply (if s_res r < 0 then bb_error r else s_res r) (s_data r) 0, w)
   }"

definition bb_access :: "'w os \<Rightarrow> string \<Rightarrow> string \<Rightarrow> int \<Rightarrow> 'w \<Rightarrow> (reply \<times> 'w) option" where
  "bb_access os root path msk w = do {
     fpath \<leftarrow> bb_fullpath root path;
     let (r, w) = os (Access fpath msk) w;
     Some (reply (if s_res r < 0 then bb_error r else s_res r) [] 0, w)
   }"

definition bb_create :: "'w os \<Rightarrow> string \<Rightarrow> string \<Rightarrow> mode \<Rightarrow> 'w \<Rightarrow> (reply \<times> 'w) option" where
  "bb_create os root path mode w = do {
     fpath \<leftarrow> bb_fullpath root path;
     let (r, w) = os (Creat fpath mode) w;
     Some (reply (if s_res r < 0 then bb_error r else 0) [] (s_res r), w)
   }"

section \<open>Handlers that work on an open file\<close>

definition bb_flush :: "int \<Rightarrow> 'w \<Rightarrow> (reply \<times> 'w) option" where
  "bb_flush fh w = Some (reply 0 [] fh, w)"

text \<open>Releasing a file writes its cached chunks back and closes it.\<close>

definition bb_release :: "'w os \<Rightarrow> fd \<Rightarrow> bbfs \<Rightarrow> 'w \<Rightarrow> (reply \<times> bbfs \<times> 'w) option" where
  "bb_release os f s w = do {
     s \<leftarrow> releaseFileBuffer f s;
     let (r, w) = os (Close f) w;
     Some (reply (s_res r) [] f, s, w)
   }"

text \<open>The first argument says whether the system has \<open>fdatasync\<close>; the value of \<open>bb_error\<close> is not assigned.\<close>

definition bb_fsync :: "bool \<Rightarrow> 'w os \<Rightarrow> int \<Rightarrow> int \<Rightarrow> 'w \<Rightarrow> (reply \<times> 'w) option" where
  "bb_fsync have_fdatasync os datasync fh w =
     (let (r, w) = (if have_fdatasync \<and> datasync \<noteq> 0 then os (Fdatasync fh) w else os (Fsync fh) w)
      in Some (reply (s_res r) [] fh, w))"

definition bb_ftruncate :: "'w os \<Rightarrow> int \<Rightarrow> int \<Rightarrow> 'w \<Rightarrow> (reply \<times> 'w) option" where
  "bb_ftruncate os offset fh w =
     (let (r, w) = os (Ftruncate fh offset) w
      in Some (reply (if s_res r < 0 then bb_error r else s_res r) [] fh, w))"

definition bb_fgetattr :: "'w os \<Rightarrow> string \<Rightarrow> string \<Rightarrow> int \<Rightarrow> 'w \<Rightarrow> (reply \<times> 'w) option" where
  "bb_fgetattr os root path fh w =
     (if path = ''/'' then bb_getattr os root path w
      else let (r, w) = os (Fstat fh) w
           in Some (reply (if s_res r < 0 then bb_error r else s_res r) (s_data r) fh, w))"

section \<open>Extended attributes\<close>

definition bb_setxattr :: "'w os \<Rightarrow> string \<Rightarrow> string \<Rightarrow> string \<Rightarrow> byte list \<Rightarrow> int \<Rightarrow> 'w \<Rightarrow> (reply \<times> 'w) option" where
  "bb_setxattr os root path name value flags w = do {
     fpath \<leftarrow> bb_fullpath root path;
     let (r, w) = os (Lsetxattr fpath name value flags) w;
     Some (reply (if s_res r < 0 then bb_error r else s_res r) [] 0, w)
   }"

definition bb_getxattr :: "'w os \<Rightarrow> string \<Rightarrow> string \<Rightarrow> string \<Rightarrow> nat \<Rightarrow> 'w \<Rightarrow> (reply \<times> 'w) option" where
  "bb_getxattr os root path name sz w = do {
     fpath \<leftarrow> bb_fullpath root path;
     let (r, w) = os (Lgetxattr fpath name sz) w;
     Some (reply (if s_res r < 0 then bb_error r else s_res r) (s_data r) 0, w)
   }"

text \<open>The loop that logs the names in a list of \<open>n\<close> bytes: it takes the length of the string at every name, which is
  undefined when no terminator is left in the buffer. The names it has passed are the result.\<close>

function log_names :: "byte list \<Rightarrow> int \<Rightarrow> byte list list option" where
  "log_names list n =
     (if n \<le> 0 then Some []
      else if 0 \<in> set list
      then (let name = takeWhile (\<lambda>b. b \<noteq> 0) list
            in map_option (Cons name) (log_names (drop (length name + 1) list) (n - int (length name) - 1)))
      else None)"
  by auto
termination by (relation "measure (\<lambda>(list, n). length list)") (auto intro!: diff_less dest: length_pos_if_in_set)

declare log_names.simps [simp del]

definition bb_listxattr :: "'w os \<Rightarrow> string \<Rightarrow> string \<Rightarrow> nat \<Rightarrow> 'w \<Rightarrow> (reply \<times> 'w) option" where
  "bb_listxattr os root path sz w = do {
     fpath \<leftarrow> bb_fullpath root path;
     let (r, w) = os (Llistxattr fpath sz) w;
     let retstat = (if s_res r < 0 then bb_error r else s_res r);
     names \<leftarrow> log_names (take sz (s_data r)) retstat;
     Some (reply retstat (s_data r) 0, w)
   }"

definition bb_removexattr :: "'w os \<Rightarrow> string \<Rightarrow> string \<Rightarrow> string \<Rightarrow> 'w \<Rightarrow> (reply \<times> 'w) option" where
  "bb_removexattr os root path name w = do {
     fpath \<leftarrow> bb_fullpath root path;
     let (r, w) = os (Lremovexattr fpath name) w;
     Some (reply (if s_res r < 0 then bb_error r else s_res r) [] 0, w)
   }"

section \<open>Directories\<close>

text \<open>A null pointer is the result 0 of \<open>opendir\<close>, which a caller sees as the error.\<close>

definition bb_opendir :: "'w os \<Rightarrow> string \<Rightarrow> string \<Rightarrow> 'w \<Rightarrow> (reply \<times> 'w) option" where
  "bb_opendir os root path w = do {
     fpath \<leftarrow> bb_fullpath root path;
     let (dp, w) = os (Opendir fpath) w;
     Some (reply (if s_res dp = 0 then bb_error dp else 0) [] (s_res dp), w)
   }"

definition ENOMEM :: int where "ENOMEM = 12"

text \<open>The loop of \<open>bb_readdir\<close>. The function \<open>filler\<close> of FUSE takes a buffer and a name and returns a
  number, 0 for success, and the new buffer; the entries \<open>readdir\<close> delivers come one by one, a result of 0 is the
  null pointer at the end. The first argument is fuel for the loop.\<close>

fun fill_loop :: "nat \<Rightarrow> 'w os \<Rightarrow> ('b \<Rightarrow> byte list \<Rightarrow> int \<times> 'b) \<Rightarrow> int \<Rightarrow> sysret \<Rightarrow> 'b \<Rightarrow> 'w \<Rightarrow> (int \<times> 'b \<times> 'w) option" where
  "fill_loop 0 os filler dp de buf w = None"
| "fill_loop (Suc k) os filler dp de buf w =
     (let (full, buf) = filler buf (s_data de)
      in if full \<noteq> 0 then Some (- ENOMEM, buf, w)
         else let (de, w) = os (Readdir dp) w
              in if s_res de = 0 then Some (0, buf, w) else fill_loop k os filler dp de buf w)"

definition bb_readdir :: "nat \<Rightarrow> 'w os \<Rightarrow> ('b \<Rightarrow> byte list \<Rightarrow> int \<times> 'b) \<Rightarrow> int \<Rightarrow> 'b \<Rightarrow> 'w \<Rightarrow> (int \<times> 'b \<times> 'w) option" where
  "bb_readdir fuel os filler dp buf w =
     (let (de, w) = os (Readdir dp) w
      in if s_res de = 0 then Some (bb_error de, buf, w) else fill_loop fuel os filler dp de buf w)"

definition bb_releasedir :: "'w os \<Rightarrow> int \<Rightarrow> 'w \<Rightarrow> (reply \<times> 'w) option" where
  "bb_releasedir os fh w = (let (r, w) = os (Closedir fh) w in Some (reply 0 [] fh, w))"

definition bb_fsyncdir :: "int \<Rightarrow> int \<Rightarrow> 'w \<Rightarrow> (reply \<times> 'w) option" where
  "bb_fsyncdir datasync fh w = Some (reply 0 [] fh, w)"

section \<open>The table of operations\<close>

datatype fuse_request =
    Getattr string | ReadLink string nat | MkNod string mode "64 word" | MkDir string mode
  | UnLink string | RmDir string | SymLink string string | ReName string string | HardLink string string
  | ChMod string mode | ChOwn string "32 word" "32 word" | Truncate string int | UTime string "byte list"
  | OpenReq string "32 word" | StatFs string | Flush int | FSync int int
  | SetXattr string string "byte list" int | GetXattr string string nat | ListXattr string nat | RemoveXattr string string
  | OpenDir string | ReleaseDir int | FSyncDir int int | AccessReq string int | Create string mode
  | FTruncate int int | FGetattr string int

fun bb_oper :: "'w os \<Rightarrow> string \<Rightarrow> fuse_request \<Rightarrow> 'w \<Rightarrow> (reply \<times> 'w) option" where
  "bb_oper os root (Getattr p) = bb_getattr os root p"
| "bb_oper os root (ReadLink p n) = bb_readlink os root p n"
| "bb_oper os root (MkNod p m d) = bb_mknod os root p m d"
| "bb_oper os root (MkDir p m) = bb_mkdir os root p m"
| "bb_oper os root (UnLink p) = bb_unlink os root p"
| "bb_oper os root (RmDir p) = bb_rmdir os root p"
| "bb_oper os root (SymLink p l) = bb_symlink os root p l"
| "bb_oper os root (ReName p q) = bb_rename os root p q"
| "bb_oper os root (HardLink p q) = bb_link os root p q"
| "bb_oper os root (ChMod p m) = bb_chmod os root p m"
| "bb_oper os root (ChOwn p u g) = bb_chown os root p u g"
| "bb_oper os root (Truncate p n) = bb_truncate os root p n"
| "bb_oper os root (UTime p t) = bb_utime os root p t"
| "bb_oper os root (OpenReq p fl) = bb_open os root p fl"
| "bb_oper os root (StatFs p) = bb_statfs os root p"
| "bb_oper os root (Flush fh) = bb_flush fh"
| "bb_oper os root (FSync d fh) = bb_fsync True os d fh"
| "bb_oper os root (SetXattr p n v fl) = bb_setxattr os root p n v fl"
| "bb_oper os root (GetXattr p n z) = bb_getxattr os root p n z"
| "bb_oper os root (ListXattr p z) = bb_listxattr os root p z"
| "bb_oper os root (RemoveXattr p n) = bb_removexattr os root p n"
| "bb_oper os root (OpenDir p) = bb_opendir os root p"
| "bb_oper os root (ReleaseDir fh) = bb_releasedir os fh"
| "bb_oper os root (FSyncDir d fh) = bb_fsyncdir d fh"
| "bb_oper os root (AccessReq p m) = bb_access os root p m"
| "bb_oper os root (Create p m) = bb_create os root p m"
| "bb_oper os root (FTruncate n fh) = bb_ftruncate os n fh"
| "bb_oper os root (FGetattr p fh) = bb_fgetattr os root p fh"

section \<open>The command line\<close>

text \<open>The arguments of \<open>main\<close>: the last two are the directory to serve and the mount point; the usage message ends the
  program. \<open>realpath\<close> is a parameter. The result is the root directory and the arguments for FUSE.\<close>

definition bbfs_main_args :: "(string \<Rightarrow> string option) \<Rightarrow> string list \<Rightarrow> (string option \<times> string list) option" where
  "bbfs_main_args realpath argv =
     (let n = length argv
      in if n < 3 \<or> take 1 (argv ! (n - 2)) = ''-'' \<or> take 1 (argv ! (n - 1)) = ''-'' then None
         else Some (realpath (argv ! (n - 2)), butlast (argv[n - 2 := argv ! (n - 1)])))"

text \<open>The rest of \<open>main\<close>. \<open>bb_usage\<close> and a failing \<open>malloc\<close> abort. The path of the policy file is composed by a \<open>sprintf\<close> whose source and
  destination overlap, which C leaves undefined: what it stores is a parameter, as is \<open>fuse_main\<close>, which gets the arguments, the root
  directory, the path and the state with an empty buffer list. The result is the printed path and the exit status.\<close>

definition bb_usage :: "'a option" where
  "bb_usage = None"

definition bbfs_main ::
  "(string \<Rightarrow> string option) \<Rightarrow> bool \<Rightarrow> string \<Rightarrow> (string \<Rightarrow> string) \<Rightarrow>
   (string list \<Rightarrow> string option \<Rightarrow> string \<Rightarrow> bbfs \<Rightarrow> int) \<Rightarrow> string list \<Rightarrow> bbfs \<Rightarrow> (string \<times> int) option" where
  "bbfs_main realpath allocated cwd self_sprintf fuse_main argv s =
     (case bbfs_main_args realpath argv of
        None \<Rightarrow> bb_usage
      | Some (rootdir, args) \<Rightarrow>
          if \<not> allocated then None
          else let s = s\<lparr>headptr := []\<rparr>; configFilePath = self_sprintf cwd
            in Some (configFilePath @ [CHR 0x0A], fuse_main args rootdir configFilePath s))"

text \<open>The handlers and the debugging function that only write to the log.\<close>

definition bb_init :: "'d \<Rightarrow> string list \<times> 'd" where
  "bb_init bb_data = ([[CHR 0x0A] @ ''bb_init()'' @ [CHR 0x0A]], bb_data)"

definition bb_destroy :: "string \<Rightarrow> string list" where
  "bb_destroy userdata = [[CHR 0x0A] @ ''bb_destroy(userdata=0x'' @ userdata @ '')'' @ [CHR 0x0A]]"

fun print_buffers :: "int \<Rightarrow> ptr list \<Rightarrow> bbfs \<Rightarrow> string list option" where
  "print_buffers i [] s = Some []"
| "print_buffers i (p # ps) s = do {
     b \<leftarrow> nodes s p;
     out \<leftarrow> print_buffers (i + 1) ps s;
     Some ((''printFileBuffer : '' @ dec_int i @ ''th buffer : from '' @ dec_int (fb_from b) @ '' to '' @ dec_int (fb_to b) @ [CHR 0x0A]) # out)
   }"

definition printFileBuffer :: "bbfs \<Rightarrow> string list option" where
  "printFileBuffer s = print_buffers 0 (headptr s) s"

lemma print_buffers_total: "set ps \<subseteq> dom (nodes s) \<Longrightarrow> \<exists>out. print_buffers i ps s = Some out \<and> length out = length ps"
proof (induction ps arbitrary: i)
  case (Cons p ps)
  then obtain b out where "nodes s p = Some b" "print_buffers (i + 1) ps s = Some out" "length out = length ps" by fastforce
  then show ?case by simp
qed simp

text \<open>The command line \<open>prog dir mnt\<close> reaches FUSE with the mount point as its argument and the resolved directory as the root.\<close>

lemma bbfs_main_two:
  assumes "take 1 dir \<noteq> ''-''" "take 1 mnt \<noteq> ''-''"
  shows "bbfs_main realpath True cwd f fuse [prog, dir, mnt] s = Some (f cwd @ [CHR 0x0A], fuse [prog, mnt] (realpath dir) (f cwd) (s\<lparr>headptr := []\<rparr>))"
  using assms by (simp add: bbfs_main_def bbfs_main_args_def Let_def)

section \<open>Error reporting\<close>

text \<open>The one system call of the handlers that make exactly one, on the paths below the root directory.\<close>

fun call_of :: "string \<Rightarrow> fuse_request \<Rightarrow> syscall option" where
  "call_of root (Getattr p) = Some (Lstat (root @ p))"
| "call_of root (MkNod p m d) =
     (if and m S_IFMT = S_IFREG then None
      else if and m S_IFMT = S_IFIFO then Some (Mkfifo (root @ p) m) else Some (Mknod (root @ p) m d))"
| "call_of root (MkDir p m) = Some (Mkdir (root @ p) m)"
| "call_of root (UnLink p) = Some (Unlink (root @ p))"
| "call_of root (RmDir p) = Some (Rmdir (root @ p))"
| "call_of root (SymLink p l) = Some (Symlink p (root @ l))"
| "call_of root (ReName p q) = Some (Rename (root @ p) (root @ q))"
| "call_of root (HardLink p q) = Some (Link (root @ p) (root @ q))"
| "call_of root (ChMod p m) = Some (Chmod (root @ p) m)"
| "call_of root (ChOwn p u g) = Some (Chown (root @ p) u g)"
| "call_of root (Truncate p n) = Some (TruncateFile (root @ p) n)"
| "call_of root (UTime p t) = Some (Utime (root @ p) t)"
| "call_of root (OpenReq p fl) = Some (OpenFile (root @ p) fl 0)"
| "call_of root (StatFs p) = Some (Statvfs (root @ p))"
| "call_of root (FSync d fh) = Some (if d \<noteq> 0 then Fdatasync fh else Fsync fh)"
| "call_of root (SetXattr p n v fl) = Some (Lsetxattr (root @ p) n v fl)"
| "call_of root (GetXattr p n z) = Some (Lgetxattr (root @ p) n z)"
| "call_of root (RemoveXattr p n) = Some (Lremovexattr (root @ p) n)"
| "call_of root (AccessReq p m) = Some (Access (root @ p) m)"
| "call_of root (Create p m) = Some (Creat (root @ p) m)"
| "call_of root (FTruncate n fh) = Some (Ftruncate fh n)"
| "call_of root (FGetattr p fh) = Some (if p = ''/'' then Lstat (root @ p) else Fstat fh)"
| "call_of root _ = None"

fun paths_of :: "fuse_request \<Rightarrow> string list" where
  "paths_of (Getattr p) = [p]" | "paths_of (ReadLink p n) = [p]" | "paths_of (MkNod p m d) = [p]" | "paths_of (MkDir p m) = [p]"
| "paths_of (UnLink p) = [p]" | "paths_of (RmDir p) = [p]" | "paths_of (SymLink p l) = [l]" | "paths_of (ReName p q) = [p, q]"
| "paths_of (HardLink p q) = [p, q]" | "paths_of (ChMod p m) = [p]" | "paths_of (ChOwn p u g) = [p]" | "paths_of (Truncate p n) = [p]"
| "paths_of (UTime p t) = [p]" | "paths_of (OpenReq p fl) = [p]" | "paths_of (StatFs p) = [p]" | "paths_of (SetXattr p n v fl) = [p]"
| "paths_of (GetXattr p n z) = [p]" | "paths_of (ListXattr p z) = [p]" | "paths_of (RemoveXattr p n) = [p]"
| "paths_of (OpenDir p) = [p]" | "paths_of (AccessReq p m) = [p]" | "paths_of (Create p m) = [p]" | "paths_of (FGetattr p fh) = [p]"
| "paths_of _ = []"

definition fits :: "string \<Rightarrow> fuse_request \<Rightarrow> bool" where
  "fits root q \<longleftrightarrow> (\<forall>p \<in> set (paths_of q). length root + length p < PATH_MAX)"

text \<open>A documented property of the system calls: a result is a count, a descriptor, 0 or -1, the status calls return only 0 and -1,
  and with -1 comes a positive error number.\<close>

definition posix :: "'w os \<Rightarrow> bool" where
  "posix os \<longleftrightarrow> (\<forall>c w. - 1 \<le> s_res (fst (os c w)) \<and> (s_res (fst (os c w)) = - 1 \<longrightarrow> 0 < s_errno (fst (os c w)))
     \<and> (\<forall>p. c = Lstat p \<longrightarrow> s_res (fst (os c w)) \<le> 0))"

lemma fullpath_fits [simp]: "length root + length p < PATH_MAX \<Longrightarrow> bb_fullpath root p = Some (root @ p)"
  by (simp add: bb_fullpath_def)

lemma fullpath_overflow: "PATH_MAX \<le> length root + length p \<Longrightarrow> bb_fullpath root p = None"
  by (auto simp: bb_fullpath_def)

lemmas handler_defs = bb_getattr_def bb_mknod_def bb_mkdir_def bb_unlink_def bb_rmdir_def bb_symlink_def bb_rename_def bb_link_def
  bb_chmod_def bb_chown_def bb_truncate_def bb_utime_def bb_open_def bb_statfs_def bb_access_def bb_create_def bb_fsync_def
  bb_ftruncate_def bb_fgetattr_def bb_setxattr_def bb_getxattr_def bb_removexattr_def

definition forgets_errno :: "fuse_request \<Rightarrow> bool" where
  "forgets_errno q \<longleftrightarrow> (\<exists>p n. q = Truncate p n) \<or> (\<exists>d fh. q = FSync d fh)"


section \<open>Directories\<close>

text \<open>The entries a directory stream still has, and the reference: offer the entries to the filler until it refuses.\<close>

fun streams :: "'w os \<Rightarrow> int \<Rightarrow> 'w \<Rightarrow> byte list list \<Rightarrow> bool" where
  "streams os dp w [] \<longleftrightarrow> s_res (fst (os (Readdir dp) w)) = 0"
| "streams os dp w (e # es) \<longleftrightarrow>
     s_res (fst (os (Readdir dp) w)) \<noteq> 0 \<and> s_data (fst (os (Readdir dp) w)) = e \<and> streams os dp (snd (os (Readdir dp) w)) es"

fun offer :: "('b \<Rightarrow> byte list \<Rightarrow> int \<times> 'b) \<Rightarrow> byte list list \<Rightarrow> 'b \<Rightarrow> int \<times> 'b" where
  "offer filler [] buf = (0, buf)"
| "offer filler (e # es) buf = (case filler buf e of (full, buf') \<Rightarrow> if full \<noteq> 0 then (- ENOMEM, buf') else offer filler es buf')"

lemma fill_loop_offers:
  "streams os dp w es \<Longrightarrow> length es < fuel \<Longrightarrow>
   \<exists>w'. fill_loop fuel os filler dp de buf w = Some (fst (offer filler (s_data de # es) buf), snd (offer filler (s_data de # es) buf), w')"
proof (induction es arbitrary: fuel de buf w)
  case Nil
  then obtain k where "fuel = Suc k" by (cases fuel) auto
  with Nil show ?case by (auto split: prod.splits)
next
  case (Cons e es)
  then obtain k where k: "fuel = Suc k" "length es < k" by (cases fuel) auto
  obtain r w1 where r: "os (Readdir dp) w = (r, w1)" by force
  with Cons.prems have "s_res r \<noteq> 0" "s_data r = e" "streams os dp w1 es" by auto
  with Cons.IH [OF this(3) k(2), of r] k r show ?case by (auto split: prod.splits)
qed

text \<open>C36. Listing a directory: for a stream of any number of entries (there is at least one) the loop ends and is the
  reference that offers the entries in order: all of them reach the filler and the result is 0, or the
  filler refuses one and the result is \<open>-ENOMEM\<close>.\<close>

theorem bb_readdir_complete:
  assumes "streams os dp w (e # es)"
  shows "\<exists>w'. bb_readdir (length es + 1) os filler dp buf w
    = Some (fst (offer filler (e # es) buf), snd (offer filler (e # es) buf), w')"
proof -
  obtain r w1 where r: "os (Readdir dp) w = (r, w1)" by force
  with assms have "s_res r \<noteq> 0" "s_data r = e" "streams os dp w1 es" by auto
  with fill_loop_offers [OF this(3), of "length es + 1" filler r buf] r show ?thesis by (simp add: bb_readdir_def)
qed

section \<open>Attribute lists\<close>

lemma log_names_list:
  "\<forall>n \<in> set ns. 0 \<notin> set n \<Longrightarrow> log_names (concat (map (\<lambda>n. n @ [0]) ns) @ rest) (int (length (concat (map (\<lambda>n. n @ [0]) ns)))) = Some ns"
proof (induction ns)
  case Nil
  then show ?case by (subst log_names.simps) simp
next
  case (Cons n ns)
  have "takeWhile (\<lambda>b. b \<noteq> 0) (n @ 0 # concat (map (\<lambda>n. n @ [0]) ns) @ rest) = n"
    using Cons.prems by (subst takeWhile_append2) auto
  moreover have "log_names (concat (map (\<lambda>n. n @ [0]) ns) @ rest) (int (length (concat (map (\<lambda>n. n @ [0]) ns)))) = Some ns"
    using Cons by simp
  ultimately show ?case by (subst log_names.simps) simp
qed

text \<open>Listing attributes: when the buffer holds the terminated names the call has stored, their total length is returned;
  the usual query for that length with a buffer of size 0 runs into undefined behaviour as soon as there is an attribute.\<close>

lemma bb_listxattr_lists:
  assumes fit: "length root + length p < PATH_MAX" and call: "os (Llistxattr (root @ p) sz) w = (r, w')"
    and res: "0 < s_res r" and names: "\<forall>n \<in> set ns. 0 \<notin> set n"
    and data: "s_data r = concat (map (\<lambda>n. n @ [0]) ns) @ rest" "s_res r = int (length (concat (map (\<lambda>n. n @ [0]) ns)))"
    and buffer: "sz = 0 \<or> length (s_data r) \<le> sz"
  shows "bb_listxattr os root p sz w = (if sz = 0 then None else Some (reply (s_res r) (s_data r) 0, w'))"
proof -
  have "log_names [] (s_res r) = None" using res by (subst log_names.simps) simp
  moreover have "log_names (s_data r) (s_res r) = Some ns" unfolding data by (rule log_names_list [OF names])
  ultimately show ?thesis using fit call res buffer by (auto simp: bb_listxattr_def)
qed


section \<open>Examples\<close>

definition failing_os :: "nat os" where
  "failing_os c n = (\<lparr>s_res = - 1, s_errno = 17, s_data = []\<rparr>, n + 1)"


text \<open>A directory with the entries \<open>.\<close> and \<open>..\<close>; a file with the attributes \<open>a\<close> and \<open>bc\<close>.\<close>

definition small_os :: "nat os" where
  "small_os c n =
     (case c of
        Readdir dp \<Rightarrow>
          (if n = 0 then \<lparr>s_res = 1, s_errno = 0, s_data = [46]\<rparr>
           else if n = 1 then \<lparr>s_res = 1, s_errno = 0, s_data = [46, 46]\<rparr>
           else \<lparr>s_res = 0, s_errno = 0, s_data = []\<rparr>, n + 1)
      | Llistxattr p sz \<Rightarrow> (\<lparr>s_res = 5, s_errno = 0, s_data = [97, 0, 98, 99, 0]\<rparr>, n)
      | _ \<Rightarrow> (\<lparr>s_res = 0, s_errno = 0, s_data = []\<rparr>, n))"

theorem bb_readdir_complete_witness:
  "\<exists>w'. bb_readdir 2 small_os (\<lambda>buf e. (0, buf @ [e])) 3 [] 0 = Some (0, [[46], [46, 46]], w')"
  using bb_readdir_complete [of small_os 3 0 "[46]" "[[46, 46]]" "\<lambda>buf e. (0, buf @ [e])" "[]"]
  by (simp add: small_os_def numeral_2_eq_2)

theorem bb_listxattr_lists_witness:
  "bb_listxattr small_os ''/srv'' ''/f'' 5 0 = Some (reply 5 [97, 0, 98, 99, 0] 0, 0)"
  using bb_listxattr_lists [of "''/srv''" "''/f''" small_os 5 0 "\<lparr>s_res = 5, s_errno = 0, s_data = [97, 0, 98, 99, 0]\<rparr>" 0
      "[[97], [98, 99]]" "[]"]
  by (simp add: small_os_def PATH_MAX_def)

end
