(* ===== verification/RedBlackTree.thy ===== *)
theory RedBlackTree
  imports Prelude
begin

text \<open>
  \<open>src/hw4/hw4_redblacktree.c\<close>: a red-black tree of tasks keyed by their virtual run time, with parent
  pointers, nil nodes that are allocated, and a global root. Every pointer write is an update of a heap of
  nodes, in the order of the code; a dereference of a null or unallocated pointer is a fault. The
  recursive and looping functions take fuel.
\<close>

section \<open>Nodes\<close>

type_synonym rbt_ptr = nat

definition NULL :: rbt_ptr where "NULL = 0"

definition BLACK :: int where "BLACK = 0x106"
definition RED :: int where "RED = 0x107"
definition NIL :: int where "NIL = 0xA08"
definition ALLOCATED :: int where "ALLOCATED = 0xA09"

record rbtnode =
  rb_parent :: rbt_ptr
  rb_right :: rbt_ptr
  rb_left :: rbt_ptr
  rb_pid :: int
  rb_value :: int
  rb_color :: int
  rb_type :: int

record rbt =
  rb_heap :: "rbt_ptr \<rightharpoonup> rbtnode"
  rb_root :: rbt_ptr
  rb_fresh :: rbt_ptr

definition rbt_empty :: rbt where
  "rbt_empty = \<lparr>rb_heap = Map.empty, rb_root = NULL, rb_fresh = 1\<rparr>"

definition node :: "rbt_ptr \<Rightarrow> rbt \<Rightarrow> rbtnode option" where
  "node p s = rb_heap s p"

definition upd :: "rbt_ptr \<Rightarrow> (rbtnode \<Rightarrow> rbtnode) \<Rightarrow> rbt \<Rightarrow> rbt option" where
  "upd p f s = map_option (\<lambda>n. s\<lparr>rb_heap := (rb_heap s)(p \<mapsto> f n)\<rparr>) (rb_heap s p)"

definition rb_calloc :: "rbt \<Rightarrow> rbt_ptr \<times> rbt" where
  "rb_calloc s = (rb_fresh s, s\<lparr>rb_heap := (rb_heap s)(rb_fresh s \<mapsto>
     \<lparr>rb_parent = NULL, rb_right = NULL, rb_left = NULL, rb_pid = 0, rb_value = 0, rb_color = 0, rb_type = 0\<rparr>),
     rb_fresh := rb_fresh s + 1\<rparr>)"

definition rb_free :: "rbt_ptr \<Rightarrow> rbt \<Rightarrow> rbt option" where
  "rb_free p s = (case rb_heap s p of None \<Rightarrow> None | Some n \<Rightarrow> Some (s\<lparr>rb_heap := (rb_heap s)(p := None)\<rparr>))"

abbreviation set_parent :: "rbt_ptr \<Rightarrow> rbtnode \<Rightarrow> rbtnode" where "set_parent v n \<equiv> n\<lparr>rb_parent := v\<rparr>"
abbreviation set_right :: "rbt_ptr \<Rightarrow> rbtnode \<Rightarrow> rbtnode" where "set_right v n \<equiv> n\<lparr>rb_right := v\<rparr>"
abbreviation set_left :: "rbt_ptr \<Rightarrow> rbtnode \<Rightarrow> rbtnode" where "set_left v n \<equiv> n\<lparr>rb_left := v\<rparr>"
abbreviation set_color :: "int \<Rightarrow> rbtnode \<Rightarrow> rbtnode" where "set_color v n \<equiv> n\<lparr>rb_color := v\<rparr>"

section \<open>Relatives\<close>

definition grandparent :: "rbt_ptr \<Rightarrow> rbt \<Rightarrow> rbt_ptr option" where
  "grandparent n s =
     (if n = NULL then Some NULL
      else do {
        nn \<leftarrow> node n s;
        if rb_parent nn = NULL then Some NULL
        else map_option rb_parent (node (rb_parent nn) s)
      })"

definition uncle :: "rbt_ptr \<Rightarrow> rbt \<Rightarrow> rbt_ptr option" where
  "uncle n s = do {
     g \<leftarrow> grandparent n s;
     if g = NULL then Some NULL
     else do {
       nn \<leftarrow> node n s;
       gn \<leftarrow> node g s;
       Some (if rb_parent nn = rb_left gn then rb_right gn else rb_left gn)
     }
   }"

definition sibling :: "rbt_ptr \<Rightarrow> rbt \<Rightarrow> rbt_ptr option" where
  "sibling n s =
     (if n = NULL then Some NULL
      else do {
        nn \<leftarrow> node n s;
        if rb_parent nn = NULL then Some NULL
        else do {
          pn \<leftarrow> node (rb_parent nn) s;
          Some (if n = rb_left pn then rb_right pn else rb_left pn)
        }
      })"

section \<open>Rotations\<close>

definition rotateLeft :: "rbt_ptr \<Rightarrow> rbt \<Rightarrow> rbt option" where
  "rotateLeft n s = do {
     nn \<leftarrow> node n s;
     let c = rb_right nn;
     let p = rb_parent nn;
     cn \<leftarrow> node c s;
     s \<leftarrow> (if rb_left cn \<noteq> NULL then upd (rb_left cn) (set_parent n) s else Some s);
     cn \<leftarrow> node c s;
     s \<leftarrow> upd n (set_right (rb_left cn)) s;
     s \<leftarrow> upd n (set_parent c) s;
     s \<leftarrow> upd c (set_left n) s;
     s \<leftarrow> upd c (set_parent p) s;
     if p \<noteq> NULL then do {
       pn \<leftarrow> node p s;
       if rb_left pn = n then upd p (set_left c) s else upd p (set_right c) s
     }
     else Some s
   }"

definition rotateRight :: "rbt_ptr \<Rightarrow> rbt \<Rightarrow> rbt option" where
  "rotateRight n s = do {
     nn \<leftarrow> node n s;
     let c = rb_left nn;
     let p = rb_parent nn;
     cn \<leftarrow> node c s;
     s \<leftarrow> (if rb_right cn \<noteq> NULL then upd (rb_right cn) (set_parent n) s else Some s);
     cn \<leftarrow> node c s;
     s \<leftarrow> upd n (set_left (rb_right cn)) s;
     s \<leftarrow> upd n (set_parent c) s;
     s \<leftarrow> upd c (set_right n) s;
     s \<leftarrow> upd c (set_parent p) s;
     if p \<noteq> NULL then do {
       pn \<leftarrow> node p s;
       if rb_right pn = n then upd p (set_right c) s else upd p (set_left c) s
     }
     else Some s
   }"

section \<open>Insertion\<close>

text \<open>The search loop of \<open>insertNode\<close>: the nil node where the value belongs and its parent, or
  \<open>Inl\<close> for a duplicate. With no fuel left the loop has not ended.\<close>

fun find_place :: "nat \<Rightarrow> int \<Rightarrow> rbt_ptr \<Rightarrow> rbt_ptr \<Rightarrow> rbt \<Rightarrow> (unit + rbt_ptr \<times> rbt_ptr) option" where
  "find_place 0 v ret parent s = None"
| "find_place (Suc k) v ret parent s = do {
     rn \<leftarrow> node ret s;
     if rb_type rn \<noteq> NIL then
       (if rb_value rn > v then find_place k v (rb_left rn) ret s
        else if rb_value rn < v then find_place k v (rb_right rn) ret s
        else Some (Inl ()))
     else Some (Inr (ret, parent))
   }"

definition insertNode :: "nat \<Rightarrow> int \<Rightarrow> int \<Rightarrow> rbt \<Rightarrow> (rbt_ptr \<times> rbt) option" where
  "insertNode fuel v pid s =
     (if rb_root s = NULL then do {
        let (r, s) = rb_calloc s;
        let s = s\<lparr>rb_root := r\<rparr>;
        s \<leftarrow> upd r (\<lambda>n. n\<lparr>rb_value := v, rb_pid := pid, rb_color := BLACK, rb_type := ALLOCATED\<rparr>) s;
        let (l, s) = rb_calloc s;
        s \<leftarrow> upd r (set_left l) s;
        let (q, s) = rb_calloc s;
        s \<leftarrow> upd r (set_right q) s;
        s \<leftarrow> upd l (\<lambda>n. n\<lparr>rb_color := BLACK, rb_type := NIL\<rparr>) s;
        s \<leftarrow> upd q (\<lambda>n. n\<lparr>rb_color := BLACK, rb_type := NIL\<rparr>) s;
        Some (r, s)
      }
      else do {
        place \<leftarrow> find_place fuel v (rb_root s) (rb_root s) s;
        case place of
          Inl _ \<Rightarrow> Some (NULL, s)
        | Inr (ret, parent) \<Rightarrow> do {
            s \<leftarrow> upd ret (\<lambda>n. n\<lparr>rb_color := RED, rb_value := v, rb_pid := pid, rb_type := ALLOCATED\<rparr>) s;
            let (l, s) = rb_calloc s;
            s \<leftarrow> upd ret (set_left l) s;
            let (q, s) = rb_calloc s;
            s \<leftarrow> upd ret (set_right q) s;
            s \<leftarrow> upd ret (set_parent parent) s;
            s \<leftarrow> upd l (\<lambda>n. n\<lparr>rb_color := BLACK, rb_parent := ret, rb_type := NIL\<rparr>) s;
            s \<leftarrow> upd q (\<lambda>n. n\<lparr>rb_color := BLACK, rb_parent := ret, rb_type := NIL\<rparr>) s;
            Some (ret, s)
          }
      })"

fun verifyInsertion :: "nat \<Rightarrow> rbt_ptr \<Rightarrow> rbt \<Rightarrow> rbt option" where
  "verifyInsertion 0 target s = None"
| "verifyInsertion (Suc k) target s = do {
     tn \<leftarrow> node target s;
     let p = rb_parent tn;
     if p = NULL then upd target (set_color BLACK) s
     else do {
       pn \<leftarrow> node p s;
       if rb_color pn = BLACK then Some s
       else do {
         u \<leftarrow> uncle target s;
         ured \<leftarrow> (if u \<noteq> NULL then map_option (\<lambda>un. rb_color un = RED) (node u s) else Some False);
         g \<leftarrow> grandparent target s;
         if ured then do {
           s \<leftarrow> upd p (set_color BLACK) s;
           s \<leftarrow> upd u (set_color BLACK) s;
           s \<leftarrow> upd g (set_color RED) s;
           verifyInsertion k g s
         }
         else do {
           gn \<leftarrow> node g s;
           (target, s) \<leftarrow>
             (if target = rb_right pn \<and> p = rb_left gn then do {
                s \<leftarrow> rotateLeft p s;
                tn \<leftarrow> node target s;
                Some (rb_left tn, s)
              }
              else if target = rb_left pn \<and> p = rb_right gn then do {
                s \<leftarrow> rotateRight p s;
                tn \<leftarrow> node target s;
                Some (rb_right tn, s)
              }
              else Some (target, s));
           tn \<leftarrow> node target s;
           s \<leftarrow> upd (rb_parent tn) (set_color BLACK) s;
           s \<leftarrow> upd g (set_color RED) s;
           pn \<leftarrow> node (rb_parent tn) s;
           if target = rb_left pn then rotateRight g s else rotateLeft g s
         }
       }
     }
   }"

section \<open>Search\<close>

fun down_left :: "nat \<Rightarrow> rbt_ptr \<Rightarrow> rbt \<Rightarrow> rbt_ptr option" where
  "down_left 0 ret s = None"
| "down_left (Suc k) ret s = do {
     rn \<leftarrow> node ret s;
     if rb_type rn \<noteq> NIL then down_left k (rb_left rn) s else Some (rb_parent rn)
   }"

definition leftmostNode :: "nat \<Rightarrow> rbt_ptr \<Rightarrow> rbt \<Rightarrow> rbt_ptr option" where
  "leftmostNode fuel target s = (if target = NULL then Some NULL else down_left fuel target s)"

fun down_right :: "nat \<Rightarrow> rbt_ptr \<Rightarrow> rbt \<Rightarrow> rbt_ptr option" where
  "down_right 0 ret s = None"
| "down_right (Suc k) ret s = do {
     rn \<leftarrow> node ret s;
     if rb_type rn \<noteq> NIL then down_right k (rb_right rn) s else Some (rb_parent rn)
   }"

definition getMaximum :: "nat \<Rightarrow> rbt_ptr \<Rightarrow> rbt \<Rightarrow> rbt_ptr option" where
  "getMaximum fuel target s = (if target = NULL then Some NULL else down_right fuel target s)"

definition isLeaf :: "rbt_ptr \<Rightarrow> rbt \<Rightarrow> bool option" where
  "isLeaf target s = map_option (\<lambda>n. rb_type n = NIL) (node target s)"

section \<open>Deletion\<close>

definition color_of :: "rbt_ptr \<Rightarrow> rbt \<Rightarrow> int option" where
  "color_of p s = map_option rb_color (node p s)"

definition parent_of :: "rbt_ptr \<Rightarrow> rbt \<Rightarrow> rbt_ptr option" where
  "parent_of p s = map_option rb_parent (node p s)"

text \<open>A conjunction of two colour tests reads the second node only when the first test holds.\<close>

definition colors_are :: "rbt_ptr \<Rightarrow> int \<Rightarrow> rbt_ptr \<Rightarrow> int \<Rightarrow> rbt \<Rightarrow> bool option" where
  "colors_are p c q d s = do {
     pc \<leftarrow> color_of p s;
     if pc = c then map_option (\<lambda>qc. qc = d) (color_of q s) else Some False
   }"

definition black_children :: "rbt_ptr \<Rightarrow> rbt \<Rightarrow> bool option" where
  "black_children sb s = do { sn \<leftarrow> node sb s; colors_are (rb_left sn) BLACK (rb_right sn) BLACK s }"

definition delete_case6 :: "rbt_ptr \<Rightarrow> rbt \<Rightarrow> rbt option" where
  "delete_case6 n s = do {
     sb \<leftarrow> sibling n s;
     p \<leftarrow> parent_of n s;
     pn \<leftarrow> node p s;
     s \<leftarrow> upd sb (set_color (rb_color pn)) s;
     s \<leftarrow> upd p (set_color BLACK) s;
     sn \<leftarrow> node sb s;
     if n = rb_left pn then do {
       s \<leftarrow> upd (rb_right sn) (set_color BLACK) s;
       rotateLeft p s
     }
     else do {
       s \<leftarrow> upd (rb_left sn) (set_color BLACK) s;
       rotateRight p s
     }
   }"

definition delete_case5 :: "rbt_ptr \<Rightarrow> rbt \<Rightarrow> rbt option" where
  "delete_case5 n s = do {
     sb \<leftarrow> sibling n s;
     sc \<leftarrow> color_of sb s;
     s \<leftarrow> (if sc = BLACK then do {
         p \<leftarrow> parent_of n s;
         pn \<leftarrow> node p s;
         sn \<leftarrow> node sb s;
         outer_left \<leftarrow> (if n = rb_left pn then colors_are (rb_right sn) BLACK (rb_left sn) RED s else Some False);
         outer_right \<leftarrow> (if \<not> outer_left \<and> n = rb_right pn then colors_are (rb_left sn) BLACK (rb_right sn) RED s
                        else Some False);
         if outer_left then do {
           s \<leftarrow> upd sb (set_color RED) s;
           s \<leftarrow> upd (rb_left sn) (set_color BLACK) s;
           rotateRight sb s
         }
         else if outer_right then do {
           s \<leftarrow> upd sb (set_color RED) s;
           s \<leftarrow> upd (rb_right sn) (set_color BLACK) s;
           rotateLeft sb s
         }
         else Some s
       } else Some s);
     delete_case6 n s
   }"

definition delete_case4 :: "rbt_ptr \<Rightarrow> rbt \<Rightarrow> rbt option" where
  "delete_case4 n s = do {
     sb \<leftarrow> sibling n s;
     p \<leftarrow> parent_of n s;
     pc \<leftarrow> color_of p s;
     sc \<leftarrow> (if pc = RED then color_of sb s else Some 0);
     cs \<leftarrow> (if pc = RED \<and> sc = BLACK then black_children sb s else Some False);
     if cs then do { s \<leftarrow> upd sb (set_color RED) s; upd p (set_color BLACK) s }
     else delete_case5 n s
   }"

fun delete_case1 :: "nat \<Rightarrow> rbt_ptr \<Rightarrow> rbt \<Rightarrow> rbt option"
  and delete_case2 :: "nat \<Rightarrow> rbt_ptr \<Rightarrow> rbt \<Rightarrow> rbt option"
  and delete_case3 :: "nat \<Rightarrow> rbt_ptr \<Rightarrow> rbt \<Rightarrow> rbt option" where
  "delete_case1 0 n s = None"
| "delete_case1 (Suc k) n s = do {
     p \<leftarrow> parent_of n s;
     if p \<noteq> NULL then delete_case2 k n s else Some s
   }"
| "delete_case2 0 n s = None"
| "delete_case2 (Suc k) n s = do {
     sb \<leftarrow> sibling n s;
     sc \<leftarrow> color_of sb s;
     s \<leftarrow> (if sc = RED then do {
         p \<leftarrow> parent_of n s;
         s \<leftarrow> upd p (set_color RED) s;
         s \<leftarrow> upd sb (set_color BLACK) s;
         pn \<leftarrow> node p s;
         if n = rb_left pn then rotateLeft p s else rotateRight p s
       } else Some s);
     delete_case3 k n s
   }"
| "delete_case3 0 n s = None"
| "delete_case3 (Suc k) n s = do {
     sb \<leftarrow> sibling n s;
     p \<leftarrow> parent_of n s;
     pc \<leftarrow> color_of p s;
     sc \<leftarrow> (if pc = BLACK then color_of sb s else Some 0);
     cs \<leftarrow> (if pc = BLACK \<and> sc = BLACK then black_children sb s else Some False);
     if cs then do { s \<leftarrow> upd sb (set_color RED) s; delete_case1 k p s }
     else delete_case4 n s
   }"

definition deleteNode :: "nat \<Rightarrow> rbt_ptr \<Rightarrow> rbt \<Rightarrow> rbt option" where
  "deleteNode fuel target s = do {
     tn \<leftarrow> node target s;
     rn \<leftarrow> node (rb_right tn) s;
     ln \<leftarrow> node (rb_left tn) s;
     if rb_type rn = NIL \<and> rb_type ln = NIL then do {
       s \<leftarrow> rb_free (rb_right tn) s;
       s \<leftarrow> rb_free (rb_left tn) s;
       s \<leftarrow> upd target (\<lambda>n. n\<lparr>rb_right := NULL, rb_left := NULL, rb_type := NIL\<rparr>) s;
       Some (if target = rb_root s then s\<lparr>rb_root := NULL\<rparr> else s)
     }
     else do {
       (deleteTarget, s) \<leftarrow>
         (if rb_type rn = ALLOCATED \<and> rb_type ln = ALLOCATED then do {
            d \<leftarrow> getMaximum fuel (rb_left tn) s;
            dn \<leftarrow> node d s;
            let v = rb_value dn;
            let pid = rb_pid dn;
            s \<leftarrow> upd d (\<lambda>n. n\<lparr>rb_value := rb_value tn\<rparr>) s;
            s \<leftarrow> upd d (\<lambda>n. n\<lparr>rb_value := rb_pid tn\<rparr>) s;
            s \<leftarrow> upd target (\<lambda>n. n\<lparr>rb_value := v, rb_pid := pid\<rparr>) s;
            Some (d, s)
          }
          else Some (target, s));
       dn \<leftarrow> node deleteTarget s;
       rl \<leftarrow> isLeaf (rb_right dn) s;
       let child = (if rl then rb_left dn else rb_right dn);
       s \<leftarrow> (if rb_parent dn = NULL then do {
               s \<leftarrow> upd child (set_parent NULL) s;
               Some (s\<lparr>rb_root := child\<rparr>)
             }
             else do {
               pn \<leftarrow> node (rb_parent dn) s;
               s \<leftarrow> (if rb_left pn = deleteTarget then upd (rb_parent dn) (set_left child) s
                      else upd (rb_parent dn) (set_right child) s);
               upd child (set_parent (rb_parent dn)) s
             });
       dn \<leftarrow> node deleteTarget s;
       cc \<leftarrow> color_of child s;
       s \<leftarrow> (if rb_color dn = BLACK then
               (if cc = RED then upd child (set_color BLACK) s else delete_case1 fuel child s)
              else Some s);
       upd deleteTarget (\<lambda>n. n\<lparr>rb_right := NULL, rb_left := NULL, rb_type := NIL\<rparr>) s
     }
   }"

definition isEmpty :: "rbt \<Rightarrow> bool" where
  "isEmpty s \<longleftrightarrow> rb_root s = NULL"

section \<open>The main program\<close>

text \<open>The result of \<open>insertNode\<close> is passed to \<open>verifyInsertion\<close>, which dereferences it.\<close>

definition insert_task :: "nat \<Rightarrow> int \<Rightarrow> int \<Rightarrow> rbt \<Rightarrow> rbt option" where
  "insert_task fuel v pid s = do { (p, s) \<leftarrow> insertNode fuel v pid s; verifyInsertion fuel p s }"

fun insert_tasks :: "nat \<Rightarrow> int \<Rightarrow> int list \<Rightarrow> rbt \<Rightarrow> rbt option" where
  "insert_tasks fuel i [] s = Some s"
| "insert_tasks fuel i (v # vs) s = do { s \<leftarrow> insert_task fuel v i s; insert_tasks fuel (i + 1) vs s }"

text \<open>The loop that prints and deletes the leftmost node; the first argument bounds its turns.\<close>

fun run_tasks :: "nat \<Rightarrow> nat \<Rightarrow> rbt \<Rightarrow> ((int \<times> int) list \<times> rbt) option" where
  "run_tasks 0 fuel s = (if isEmpty s then Some ([], s) else None)"
| "run_tasks (Suc k) fuel s =
     (if isEmpty s then Some ([], s)
      else do {
        p \<leftarrow> leftmostNode fuel (rb_root s) s;
        pn \<leftarrow> node p s;
        s \<leftarrow> deleteNode fuel p s;
        (out, s) \<leftarrow> run_tasks k fuel s;
        Some ((rb_pid pn, rb_value pn) # out, s)
      })"

definition vrt :: "int list" where
  "vrt = [27, 19, 34, 65, 37, 7, 49, 2, 98]"

definition rbt_main :: "((int \<times> int) list \<times> rbt) option" where
  "rbt_main = do { s \<leftarrow> insert_tasks 20 0 vrt rbt_empty; run_tasks 9 20 s }"


section \<open>Trees in the heap\<close>

text \<open>The shape of a tree with the addresses of its nodes.\<close>

datatype ptree = PNil rbt_ptr | PNode ptree rbt_ptr ptree

primrec addr :: "ptree \<Rightarrow> rbt_ptr" where
  "addr (PNil p) = p"
| "addr (PNode l p r) = p"

primrec addrs :: "ptree \<Rightarrow> rbt_ptr list" where
  "addrs (PNil p) = [p]"
| "addrs (PNode l p r) = addrs l @ p # addrs r"

primrec height :: "ptree \<Rightarrow> nat" where
  "height (PNil p) = 0"
| "height (PNode l p r) = Suc (max (height l) (height r))"

type_synonym rb_mem = "rbt_ptr \<rightharpoonup> rbtnode"

text \<open>The heap holds the tree below the given parent.\<close>

primrec is_tree :: "rb_mem \<Rightarrow> rbt_ptr \<Rightarrow> ptree \<Rightarrow> bool" where
  "is_tree h par (PNil p) \<longleftrightarrow> (case h p of Some n \<Rightarrow> rb_type n = NIL | None \<Rightarrow> False)"
| "is_tree h par (PNode l p r) \<longleftrightarrow>
     (case h p of Some n \<Rightarrow> rb_type n = ALLOCATED \<and> rb_parent n = par \<and> rb_left n = addr l \<and> rb_right n = addr r
      | None \<Rightarrow> False) \<and> is_tree h p l \<and> is_tree h p r"

definition val_at :: "rb_mem \<Rightarrow> rbt_ptr \<Rightarrow> int" where
  "val_at h p = (case h p of Some n \<Rightarrow> rb_value n | None \<Rightarrow> 0)"

primrec inorder :: "rb_mem \<Rightarrow> ptree \<Rightarrow> int list" where
  "inorder h (PNil p) = []"
| "inorder h (PNode l p r) = inorder h l @ val_at h p # inorder h r"

definition tree_state :: "rbt \<Rightarrow> ptree \<Rightarrow> bool" where
  "tree_state s t \<longleftrightarrow> rb_root s = addr t \<and> is_tree (rb_heap s) NULL t \<and> distinct (addrs t) \<and> NULL \<notin> set (addrs t) \<and>
     (\<forall>p \<in> set (addrs t). p < rb_fresh s)"

lemma addr_mem [simp]: "addr t \<in> set (addrs t)"
  by (cases t) simp_all

lemma addr_neq: "q \<notin> set (addrs t) \<Longrightarrow> addr t \<noteq> q \<and> q \<noteq> addr t"
  using addr_mem [of t] by blast

lemma NIL_ALLOCATED [simp]: "NIL \<noteq> ALLOCATED" "ALLOCATED \<noteq> NIL"
  by (simp_all add: NIL_def ALLOCATED_def)

lemma is_tree_cong: "(\<And>q. q \<in> set (addrs t) \<Longrightarrow> h' q = h q) \<Longrightarrow> is_tree h' par t = is_tree h par t"
  by (induction t arbitrary: par) (auto split: option.splits)

lemma inorder_cong: "(\<And>q. q \<in> set (addrs t) \<Longrightarrow> h' q = h q) \<Longrightarrow> inorder h' t = inorder h t"
  by (induction t) (auto simp: val_at_def)

lemma inorder_vals: "(\<And>q. val_at h' q = val_at h q) \<Longrightarrow> inorder h' t = inorder h t"
  by (induction t) simp_all

lemma is_tree_dom: "is_tree h par t \<Longrightarrow> q \<in> set (addrs t) \<Longrightarrow> \<exists>n. h q = Some n"
  by (induction t arbitrary: par) (auto split: option.splits)

lemma reparent:
  assumes "is_tree h par t" "distinct (addrs t)" "h (addr t) = Some n"
  shows "is_tree (h(addr t \<mapsto> n\<lparr>rb_parent := par'\<rparr>)) par' t" "inorder (h(addr t \<mapsto> n\<lparr>rb_parent := par'\<rparr>)) t = inorder h t"
proof -
  let ?h = "h(addr t \<mapsto> n\<lparr>rb_parent := par'\<rparr>)"
  show "is_tree ?h par' t"
  proof (cases t)
    case (PNode l p r)
    with assms(2) have "is_tree ?h p l = is_tree h p l" "is_tree ?h p r = is_tree h p r" by (auto intro!: is_tree_cong)
    with assms PNode show ?thesis by auto
  qed (use assms in auto)
  have "val_at ?h q = val_at h q" for q using assms(3) by (simp add: val_at_def)
  then show "inorder ?h t = inorder h t" by (rule inorder_vals)
qed

section \<open>Rotations keep the order\<close>

text \<open>The link from the parent, where there is one.\<close>

definition linked_from :: "rb_mem \<Rightarrow> rbt_ptr \<Rightarrow> rbt_ptr \<Rightarrow> bool" where
  "linked_from h par p \<longleftrightarrow> par = NULL \<or> (\<exists>n. h par = Some n \<and> (rb_left n = p \<or> rb_right n = p))"

text \<open>What a rotation does not touch in any node.\<close>

definition payload :: "rb_mem \<Rightarrow> rbt_ptr \<Rightarrow> (int \<times> int \<times> int \<times> int) option" where
  "payload h q = map_option (\<lambda>n. (rb_pid n, rb_value n, rb_color n, rb_type n)) (h q)"

lemma rotateLeft_spec:
  assumes tr: "is_tree (rb_heap s) par (PNode a n (PNode b c d))" and dist: "distinct (addrs (PNode a n (PNode b c d)))"
    and null: "NULL \<notin> set (addrs (PNode a n (PNode b c d)))"
    and par: "par \<notin> set (addrs (PNode a n (PNode b c d)))" "linked_from (rb_heap s) par n"
  shows "\<exists>s'. rotateLeft n s = Some s' \<and> is_tree (rb_heap s') par (PNode (PNode a n b) c d)
    \<and> inorder (rb_heap s') (PNode (PNode a n b) c d) = inorder (rb_heap s) (PNode a n (PNode b c d))
    \<and> linked_from (rb_heap s') par c \<and> rb_root s' = rb_root s \<and> rb_fresh s' = rb_fresh s
    \<and> payload (rb_heap s') = payload (rb_heap s)
    \<and> (\<forall>pn. par \<noteq> NULL \<longrightarrow> rb_heap s par = Some pn \<longrightarrow>
        rb_heap s' par = Some (if rb_left pn = n then pn\<lparr>rb_left := c\<rparr> else pn\<lparr>rb_right := c\<rparr>))
    \<and> (\<forall>q. q \<noteq> par \<longrightarrow> q \<notin> set (addrs (PNode a n (PNode b c d))) \<longrightarrow> rb_heap s' q = rb_heap s q)
    \<and> (\<forall>q. q \<notin> {par, n, c, addr b} \<longrightarrow> rb_heap s' q = rb_heap s q)"
proof -
  let ?h = "rb_heap s" and ?b = "addr b"
  from tr obtain nn cn where nn: "?h n = Some nn" "rb_parent nn = par" "rb_left nn = addr a" "rb_right nn = c" "rb_type nn = ALLOCATED"
    and cn: "?h c = Some cn" "rb_left cn = ?b" "rb_right cn = addr d" "rb_type cn = ALLOCATED"
    and sub: "is_tree ?h n a" "is_tree ?h c b" "is_tree ?h c d"
    by (auto split: option.splits)
  obtain bn where bn: "?h ?b = Some bn" using is_tree_dom [OF sub(2) addr_mem] by blast
  have neq: "?b \<noteq> NULL" "?b \<noteq> n" "?b \<noteq> c" "n \<noteq> c" "c \<noteq> NULL" "n \<noteq> NULL" "par \<noteq> n" "par \<noteq> c" "par \<noteq> ?b"
    using dist null par addr_neq [of _ b] by auto
  define h1 where "h1 = ?h(?b \<mapsto> bn\<lparr>rb_parent := n\<rparr>)"
  define h2 where "h2 = h1(n \<mapsto> nn\<lparr>rb_right := ?b, rb_parent := c\<rparr>, c \<mapsto> cn\<lparr>rb_left := n, rb_parent := par\<rparr>)"
  define h3 where "h3 = (if par = NULL then h2 else case h2 par of None \<Rightarrow> h2
    | Some pn \<Rightarrow> h2(par \<mapsto> if rb_left pn = n then pn\<lparr>rb_left := c\<rparr> else pn\<lparr>rb_right := c\<rparr>))"
  have "rotateLeft n s = Some (s\<lparr>rb_heap := h3\<rparr>)"
    using nn cn bn neq par(2)
    by (auto simp: rotateLeft_def node_def upd_def h3_def h2_def h1_def linked_from_def fun_upd_twist split: option.splits)
  moreover have on: "h3 q = h2 q" if "q \<noteq> par" for q using that by (simp add: h3_def split: option.split)
  moreover have off: "h2 q = ?h q" if "q \<notin> {n, c, ?b}" for q using that by (simp add: h2_def h1_def)
  have same: "h3 q = ?h q" if "q \<noteq> par" "q \<noteq> n" "q \<noteq> c" "q \<notin> set (addrs b)" for q
    using that addr_neq [of q b] by (simp add: on off)
  have ab: "is_tree h3 n a = is_tree ?h n a" "inorder h3 a = inorder ?h a" "is_tree h3 c d = is_tree ?h c d" "inorder h3 d = inorder ?h d"
    using dist par by (auto intro!: is_tree_cong inorder_cong same)
  have low: "h3 q = h1 q" if "q \<noteq> par" "q \<noteq> n" "q \<noteq> c" for q using that by (simp add: on h2_def)
  have bb: "is_tree h3 n b = is_tree h1 n b" "inorder h3 b = inorder h1 b"
    using dist par by (auto intro!: is_tree_cong inorder_cong low)
  have db: "distinct (addrs b)" using dist by simp
  note rp = reparent [OF sub(2) db bn, of n]
  have new: "h3 n = Some (nn\<lparr>rb_right := ?b, rb_parent := c\<rparr>)" "h3 c = Some (cn\<lparr>rb_left := n, rb_parent := par\<rparr>)"
    using neq by (simp_all add: on h2_def)
  have "is_tree h3 par (PNode (PNode a n b) c d)"
    using new nn cn ab bb rp sub by (simp add: h1_def)
  moreover have "inorder h3 (PNode (PNode a n b) c d) = inorder ?h (PNode a n (PNode b c d))"
    using new nn cn ab bb rp by (simp add: val_at_def h1_def)
  moreover have "linked_from h3 par c"
    using par(2) neq by (auto simp: linked_from_def h3_def off split: option.splits)
  moreover have "payload h3 = payload ?h"
    using nn cn bn neq by (auto simp: payload_def fun_eq_iff h3_def h2_def h1_def split: option.split)
  moreover have "h3 par = Some (if rb_left pn = n then pn\<lparr>rb_left := c\<rparr> else pn\<lparr>rb_right := c\<rparr>)" if "par \<noteq> NULL" "?h par = Some pn" for pn
    using that neq by (simp add: h3_def off)
  ultimately show ?thesis using on off by (intro exI [of _ "s\<lparr>rb_heap := h3\<rparr>"]) (auto simp: h2_def h1_def)
qed

lemma rotateRight_spec:
  assumes tr: "is_tree (rb_heap s) par (PNode (PNode d c b) n a)" and dist: "distinct (addrs (PNode (PNode d c b) n a))"
    and null: "NULL \<notin> set (addrs (PNode (PNode d c b) n a))"
    and par: "par \<notin> set (addrs (PNode (PNode d c b) n a))" "linked_from (rb_heap s) par n"
  shows "\<exists>s'. rotateRight n s = Some s' \<and> is_tree (rb_heap s') par (PNode d c (PNode b n a))
    \<and> inorder (rb_heap s') (PNode d c (PNode b n a)) = inorder (rb_heap s) (PNode (PNode d c b) n a)
    \<and> linked_from (rb_heap s') par c \<and> rb_root s' = rb_root s \<and> rb_fresh s' = rb_fresh s
    \<and> payload (rb_heap s') = payload (rb_heap s)
    \<and> (\<forall>pn. par \<noteq> NULL \<longrightarrow> rb_heap s par = Some pn \<longrightarrow>
        rb_heap s' par = Some (if rb_right pn = n then pn\<lparr>rb_right := c\<rparr> else pn\<lparr>rb_left := c\<rparr>))
    \<and> (\<forall>q. q \<noteq> par \<longrightarrow> q \<notin> set (addrs (PNode (PNode d c b) n a)) \<longrightarrow> rb_heap s' q = rb_heap s q)
    \<and> (\<forall>q. q \<notin> {par, n, c, addr b} \<longrightarrow> rb_heap s' q = rb_heap s q)"
proof -
  let ?h = "rb_heap s" and ?b = "addr b"
  from tr obtain nn cn where nn: "?h n = Some nn" "rb_parent nn = par" "rb_right nn = addr a" "rb_left nn = c" "rb_type nn = ALLOCATED"
    and cn: "?h c = Some cn" "rb_right cn = ?b" "rb_left cn = addr d" "rb_type cn = ALLOCATED"
    and sub: "is_tree ?h n a" "is_tree ?h c b" "is_tree ?h c d"
    by (auto split: option.splits)
  obtain bn where bn: "?h ?b = Some bn" using is_tree_dom [OF sub(2) addr_mem] by blast
  have neq: "?b \<noteq> NULL" "?b \<noteq> n" "?b \<noteq> c" "n \<noteq> c" "c \<noteq> NULL" "n \<noteq> NULL" "par \<noteq> n" "par \<noteq> c" "par \<noteq> ?b"
    using dist null par addr_neq [of _ b] by auto
  define h1 where "h1 = ?h(?b \<mapsto> bn\<lparr>rb_parent := n\<rparr>)"
  define h2 where "h2 = h1(n \<mapsto> nn\<lparr>rb_left := ?b, rb_parent := c\<rparr>, c \<mapsto> cn\<lparr>rb_right := n, rb_parent := par\<rparr>)"
  define h3 where "h3 = (if par = NULL then h2 else case h2 par of None \<Rightarrow> h2
    | Some pn \<Rightarrow> h2(par \<mapsto> if rb_right pn = n then pn\<lparr>rb_right := c\<rparr> else pn\<lparr>rb_left := c\<rparr>))"
  have "rotateRight n s = Some (s\<lparr>rb_heap := h3\<rparr>)"
    using nn cn bn neq par(2)
    by (auto simp: rotateRight_def node_def upd_def h3_def h2_def h1_def linked_from_def fun_upd_twist split: option.splits)
  moreover have on: "h3 q = h2 q" if "q \<noteq> par" for q using that by (simp add: h3_def split: option.split)
  moreover have off: "h2 q = ?h q" if "q \<notin> {n, c, ?b}" for q using that by (simp add: h2_def h1_def)
  have same: "h3 q = ?h q" if "q \<noteq> par" "q \<noteq> n" "q \<noteq> c" "q \<notin> set (addrs b)" for q
    using that addr_neq [of q b] by (simp add: on off)
  have ab: "is_tree h3 n a = is_tree ?h n a" "inorder h3 a = inorder ?h a" "is_tree h3 c d = is_tree ?h c d" "inorder h3 d = inorder ?h d"
    using dist par by (auto intro!: is_tree_cong inorder_cong same)
  have low: "h3 q = h1 q" if "q \<noteq> par" "q \<noteq> n" "q \<noteq> c" for q using that by (simp add: on h2_def)
  have bb: "is_tree h3 n b = is_tree h1 n b" "inorder h3 b = inorder h1 b"
    using dist par by (auto intro!: is_tree_cong inorder_cong low)
  have db: "distinct (addrs b)" using dist by simp
  note rp = reparent [OF sub(2) db bn, of n]
  have new: "h3 n = Some (nn\<lparr>rb_left := ?b, rb_parent := c\<rparr>)" "h3 c = Some (cn\<lparr>rb_right := n, rb_parent := par\<rparr>)"
    using neq by (simp_all add: on h2_def)
  have "is_tree h3 par (PNode d c (PNode b n a))"
    using new nn cn ab bb rp sub by (simp add: h1_def)
  moreover have "inorder h3 (PNode d c (PNode b n a)) = inorder ?h (PNode (PNode d c b) n a)"
    using new nn cn ab bb rp by (simp add: val_at_def h1_def)
  moreover have "linked_from h3 par c"
    using par(2) neq by (auto simp: linked_from_def h3_def off split: option.splits)
  moreover have "payload h3 = payload ?h"
    using nn cn bn neq by (auto simp: payload_def fun_eq_iff h3_def h2_def h1_def split: option.split)
  moreover have "h3 par = Some (if rb_right pn = n then pn\<lparr>rb_right := c\<rparr> else pn\<lparr>rb_left := c\<rparr>)" if "par \<noteq> NULL" "?h par = Some pn" for pn
    using that neq by (simp add: h3_def off)
  ultimately show ?thesis using on off by (intro exI [of _ "s\<lparr>rb_heap := h3\<rparr>"]) (auto simp: h2_def h1_def)
qed


section \<open>Insertion is insertion into a search tree\<close>

text \<open>Where the search for a value ends, and the tree with a node put there.\<close>

primrec place :: "rb_mem \<Rightarrow> int \<Rightarrow> rbt_ptr \<Rightarrow> ptree \<Rightarrow> rbt_ptr \<times> rbt_ptr" where
  "place h v par (PNil p) = (p, par)"
| "place h v par (PNode l p r) = (if val_at h p > v then place h v p l else place h v p r)"

primrec grow :: "rb_mem \<Rightarrow> int \<Rightarrow> rbt_ptr \<Rightarrow> rbt_ptr \<Rightarrow> ptree \<Rightarrow> ptree" where
  "grow h v l' r' (PNil p) = PNode (PNil l') p (PNil r')"
| "grow h v l' r' (PNode l p r) = (if val_at h p > v then PNode (grow h v l' r' l) p r else PNode l p (grow h v l' r' r))"

lemma find_place_spec:
  assumes "is_tree (rb_heap s) par' t" "sorted_wrt (<) (inorder (rb_heap s) t)" "height t < fuel"
  shows "find_place fuel v (addr t) par s =
    (if v \<in> set (inorder (rb_heap s) t) then Some (Inl ()) else Some (Inr (place (rb_heap s) v par t)))"
  using assms
proof (induction t arbitrary: fuel par par')
  case (PNil p)
  then obtain k where "fuel = Suc k" by (cases fuel) auto
  with PNil show ?case by (auto simp: node_def split: option.splits)
next
  case (PNode l p r)
  then obtain k where k: "fuel = Suc k" "height l < k" "height r < k" by (cases fuel) auto
  let ?h = "rb_heap s"
  from PNode.prems obtain n where n: "?h p = Some n" "rb_type n = ALLOCATED" "rb_left n = addr l" "rb_right n = addr r"
    and sub: "is_tree ?h p l" "is_tree ?h p r" by (auto split: option.splits)
  have v: "val_at ?h p = rb_value n" using n by (simp add: val_at_def)
  have ord: "sorted_wrt (<) (inorder ?h l)" "sorted_wrt (<) (inorder ?h r)"
    "\<forall>x \<in> set (inorder ?h l). x < rb_value n" "\<forall>x \<in> set (inorder ?h r). rb_value n < x"
    using PNode.prems(2) v by (auto simp: sorted_wrt_append)
  note IH = PNode.IH(1) [OF sub(1) ord(1) k(2), of p] PNode.IH(2) [OF sub(2) ord(2) k(3), of p]
  show ?case using n v ord(3,4) k(1) IH by (auto simp: node_def)
qed

lemma place_mem: "fst (place h v par t) \<in> set (addrs t)"
  by (induction t arbitrary: par) auto

lemma place_nil: "is_tree h par' t \<Longrightarrow> \<exists>n. h (fst (place h v par t)) = Some n \<and> rb_type n = NIL"
  by (induction t arbitrary: par par') (auto split: option.splits)

lemma inorder_grow:
  assumes "is_tree h par t" "sorted_wrt (<) (inorder h t)" "v \<notin> set (inorder h t)" "distinct (addrs t)"
    and "\<And>q. q \<in> set (addrs t) \<Longrightarrow> val_at h' q = (if q = fst (place h v par' t) then v else val_at h q)"
  shows "inorder h' (grow h v l' r' t) = insort v (inorder h t)"
  using assms
proof (induction t arbitrary: par par')
  case (PNil p)
  then show ?case by simp
next
  case (PNode l p r)
  from PNode.prems obtain n where n: "h p = Some n" "rb_type n = ALLOCATED"
    and sub: "is_tree h p l" "is_tree h p r" by (auto split: option.splits)
  have ord: "sorted_wrt (<) (inorder h l)" "sorted_wrt (<) (inorder h r)"
    "\<forall>x \<in> set (inorder h l). x < val_at h p" "\<forall>x \<in> set (inorder h r). val_at h p < x"
    using PNode.prems(2) by (auto simp: sorted_wrt_append)
  have low: "insort v (xs @ y # ys) = insort v xs @ y # ys" if "v < y" for xs ys and y :: int
    using that by (induction xs) auto
  have high: "insort v (xs @ y # ys) = xs @ y # insort v ys" if "\<forall>x \<in> set xs. x < v" "y < v" for xs ys and y :: int
    using that by (induction xs) auto
  have keep: "inorder h' u = inorder h u"
    if "set (addrs u) \<subseteq> set (addrs (PNode l p r))" and notin: "fst (place h v par' (PNode l p r)) \<notin> set (addrs u)" for u
  proof -
    have "val_at h' q = val_at h q" if q: "q \<in> set (addrs u)" for q
    proof -
      from q \<open>set (addrs u) \<subseteq> set (addrs (PNode l p r))\<close> have "q \<in> set (addrs (PNode l p r))" by blast
      moreover have "q \<noteq> fst (place h v par' (PNode l p r))" using q notin by metis
      ultimately show ?thesis using PNode.prems(5) [of q] by (simp only: if_False)
    qed
    then show ?thesis by (induction u) auto
  qed
  show ?case
  proof (cases "val_at h p > v")
    case True
    then have pl: "place h v par' (PNode l p r) = place h v p l" by simp
    have m: "fst (place h v p l) \<in> set (addrs l)" by (rule place_mem)
    then have "inorder h' r = inorder h r" "val_at h' p = val_at h p"
      using keep [of r] PNode.prems(4,5) pl by auto
    moreover have "inorder h' (grow h v l' r' l) = insort v (inorder h l)"
      by (rule PNode.IH(1) [OF sub(1) ord(1), of p]) (use PNode.prems(3-5) pl in auto)
    ultimately show ?thesis using True low by simp
  next
    case False
    then have pl: "place h v par' (PNode l p r) = place h v p r" by simp
    have m: "fst (place h v p r) \<in> set (addrs r)" by (rule place_mem)
    then have "inorder h' l = inorder h l" "val_at h' p = val_at h p"
      using keep [of l] PNode.prems(4,5) pl by auto
    moreover have "inorder h' (grow h v l' r' r) = insort v (inorder h r)"
      by (rule PNode.IH(2) [OF sub(2) ord(2), of p]) (use PNode.prems(3-5) pl in auto)
    moreover have "val_at h p < v" "\<forall>x \<in> set (inorder h l). x < v" using False PNode.prems(3) ord(3) by auto
    ultimately show ?thesis using False high by simp
  qed
qed

lemma addr_grow [simp]: "addr (grow h v l' r' t) = addr t"
  by (cases t) simp_all

lemma is_tree_grow:
  assumes "is_tree h par t" "distinct (addrs t)"
    and "\<And>q. q \<in> set (addrs t) \<Longrightarrow> q \<noteq> fst (place h v par t) \<Longrightarrow> h' q = h q"
    and "h' (fst (place h v par t)) = Some n" "rb_parent n = snd (place h v par t)"
    and new: "rb_type n = ALLOCATED" "rb_left n = l'" "rb_right n = r'"
      "h' l' = Some ln" "rb_type ln = NIL" "h' r' = Some rn" "rb_type rn = NIL"
  shows "is_tree h' par (grow h v l' r' t)"
  using assms(1-5)
proof (induction t arbitrary: par)
  case (PNil p)
  then show ?case using new by simp
next
  case (PNode l p r)
  from PNode.prems(1) have sub: "is_tree h p l" "is_tree h p r" by simp_all
  show ?case
  proof (cases "val_at h p > v")
    case True
    then have pl: "place h v par (PNode l p r) = place h v p l" by simp
    have m: "fst (place h v p l) \<in> set (addrs l)" by (rule place_mem)
    have "h' p = h p" by (rule PNode.prems(3)) (use PNode.prems(2) pl m in auto)
    moreover have "is_tree h' p r = is_tree h p r"
      by (rule is_tree_cong, rule PNode.prems(3)) (use PNode.prems(2) pl m in auto)
    moreover have "is_tree h' p (grow h v l' r' l)"
      by (rule PNode.IH(1) [OF sub(1)]) (use PNode.prems(2-5) pl in auto)
    ultimately show ?thesis using True PNode.prems(1) sub(2) by (auto split: option.splits)
  next
    case False
    then have pl: "place h v par (PNode l p r) = place h v p r" by simp
    have m: "fst (place h v p r) \<in> set (addrs r)" by (rule place_mem)
    have "h' p = h p" by (rule PNode.prems(3)) (use PNode.prems(2) pl m in auto)
    moreover have "is_tree h' p l = is_tree h p l"
      by (rule is_tree_cong, rule PNode.prems(3)) (use PNode.prems(2) pl m in auto)
    moreover have "is_tree h' p (grow h v l' r' r)"
      by (rule PNode.IH(2) [OF sub(2)]) (use PNode.prems(2-5) pl in auto)
    ultimately show ?thesis using False PNode.prems(1) sub(1) by (auto split: option.splits)
  qed
qed

lemma addrs_grow:
  "distinct (addrs t) \<Longrightarrow> l' \<notin> set (addrs t) \<Longrightarrow> r' \<notin> set (addrs t) \<Longrightarrow> l' \<noteq> r' \<Longrightarrow>
   set (addrs (grow h v l' r' t)) = insert l' (insert r' (set (addrs t))) \<and> distinct (addrs (grow h v l' r' t))"
  by (induction t) auto

lemma insertNode_writes:
  assumes root: "rb_root s \<noteq> NULL" and place: "find_place fuel v (rb_root s) (rb_root s) s = Some (Inr (p, par))"
    and p: "rb_heap s p = Some pn" and fresh: "p < rb_fresh s"
  shows "insertNode fuel v pid s = Some (p, s\<lparr>rb_heap := (rb_heap s)
      (p \<mapsto> pn\<lparr>rb_color := RED, rb_value := v, rb_pid := pid, rb_type := ALLOCATED,
          rb_left := rb_fresh s, rb_right := rb_fresh s + 1, rb_parent := par\<rparr>,
       rb_fresh s \<mapsto> \<lparr>rb_parent = p, rb_right = NULL, rb_left = NULL, rb_pid = 0, rb_value = 0, rb_color = BLACK, rb_type = NIL\<rparr>,
       rb_fresh s + 1 \<mapsto> \<lparr>rb_parent = p, rb_right = NULL, rb_left = NULL, rb_pid = 0, rb_value = 0, rb_color = BLACK, rb_type = NIL\<rparr>),
      rb_fresh := rb_fresh s + 2\<rparr>)"
  using assms by (simp add: insertNode_def rb_calloc_def upd_def fun_upd_twist)

text \<open>The state after a new value: what \<open>insertNode_inserts\<close> and the rebalancing rest on.\<close>

lemma insertNode_search:
  assumes ts: "tree_state s t" and t: "t = PNode l p0 r" and bst: "sorted_wrt (<) (inorder (rb_heap s) t)" and fuel: "height t < fuel"
  shows "rb_root s \<noteq> NULL" "find_place fuel v (rb_root s) (rb_root s) s =
      (if v \<in> set (inorder (rb_heap s) t) then Some (Inl ()) else Some (Inr (place (rb_heap s) v NULL t)))"
proof -
  have tr: "rb_root s = addr t" "is_tree (rb_heap s) NULL t" "NULL \<notin> set (addrs t)" using ts by (simp_all add: tree_state_def)
  then show "rb_root s \<noteq> NULL" using addr_neq [of NULL t] by simp
  show "find_place fuel v (rb_root s) (rb_root s) s =
      (if v \<in> set (inorder (rb_heap s) t) then Some (Inl ()) else Some (Inr (place (rb_heap s) v NULL t)))"
    using find_place_spec [OF tr(2) bst fuel, of v "rb_root s"] tr(1) t by simp
qed

lemma insertNode_duplicate:
  assumes "tree_state s t" "t = PNode l p0 r" "sorted_wrt (<) (inorder (rb_heap s) t)" "height t < fuel" "v \<in> set (inorder (rb_heap s) t)"
  shows "insertNode fuel v pid s = Some (NULL, s)"
  using insertNode_search [OF assms(1-4)] assms(5) by (simp add: insertNode_def)

lemma insertNode_grows:
  assumes ts: "tree_state s t" and t: "t = PNode l p0 r" and bst: "sorted_wrt (<) (inorder (rb_heap s) t)" and fuel: "height t < fuel"
    and new: "v \<notin> set (inorder (rb_heap s) t)" and t': "t' = grow (rb_heap s) v (rb_fresh s) (rb_fresh s + 1) t"
  shows "\<exists>p s'. insertNode fuel v pid s = Some (p, s') \<and> p = fst (place (rb_heap s) v NULL t) \<and> tree_state s' t'
      \<and> inorder (rb_heap s') t' = insort v (inorder (rb_heap s) t) \<and> rb_root s' = rb_root s
      \<and> (\<exists>n. rb_heap s' p = Some n \<and> rb_value n = v \<and> rb_pid n = pid \<and> rb_color n = RED)
      \<and> (\<forall>q \<in> {rb_fresh s, rb_fresh s + 1}. \<exists>n. rb_heap s' q = Some n \<and> rb_color n = BLACK)
      \<and> (\<forall>q. q \<notin> {p, rb_fresh s, rb_fresh s + 1} \<longrightarrow> rb_heap s' q = rb_heap s q)"
proof -
  let ?h = "rb_heap s" and ?f = "rb_fresh s"
  have tr: "rb_root s = addr t" "is_tree ?h NULL t" "distinct (addrs t)" "NULL \<notin> set (addrs t)" "\<forall>p \<in> set (addrs t). p < ?f"
    using ts by (simp_all add: tree_state_def)
  note search = insertNode_search [OF ts t bst fuel]
  obtain p par where pl: "place ?h v NULL t = (p, par)" by (cases "place ?h v NULL t")
  obtain pn where pn: "?h p = Some pn" using place_nil [OF tr(2), of v NULL] pl by auto
  have pm: "p \<in> set (addrs t)" using place_mem [of ?h v NULL t] pl by simp
  then have "p < ?f" using tr(5) by simp
  from insertNode_writes [OF search(1) _ pn this, of fuel v par pid] search(2) [of v] new pl obtain s' where
    ins: "insertNode fuel v pid s = Some (p, s')"
    and s': "s' = s\<lparr>rb_heap := ?h
    (p \<mapsto> pn\<lparr>rb_color := RED, rb_value := v, rb_pid := pid, rb_type := ALLOCATED, rb_left := ?f, rb_right := ?f + 1, rb_parent := par\<rparr>,
     ?f \<mapsto> \<lparr>rb_parent = p, rb_right = NULL, rb_left = NULL, rb_pid = 0, rb_value = 0, rb_color = BLACK, rb_type = NIL\<rparr>,
     ?f + 1 \<mapsto> \<lparr>rb_parent = p, rb_right = NULL, rb_left = NULL, rb_pid = 0, rb_value = 0, rb_color = BLACK, rb_type = NIL\<rparr>),
    rb_fresh := ?f + 2\<rparr>" by simp
  let ?h' = "rb_heap s'"
  have out: "?f \<notin> set (addrs t)" "?f + 1 \<notin> set (addrs t)" using tr(5) by auto
  have hp: "?h' p = Some (pn\<lparr>rb_color := RED, rb_value := v, rb_pid := pid, rb_type := ALLOCATED, rb_left := ?f, rb_right := ?f + 1, rb_parent := par\<rparr>)"
    using \<open>p < ?f\<close> s' by simp
  have same: "?h' q = ?h q" if "q \<in> set (addrs t)" "q \<noteq> p" for q using that out s' by auto
  have "is_tree ?h' NULL t'"
    unfolding t' by (rule is_tree_grow [OF tr(2,3)]) (use pl hp same s' in auto)
  moreover have io: "inorder ?h' t' = insort v (inorder ?h t)"
    unfolding t' by (rule inorder_grow [OF tr(2) bst new tr(3), of _ NULL]) (use pl hp same in \<open>auto simp: val_at_def\<close>)
  moreover note addrs_grow [OF tr(3) out, of ?h v]
  moreover have "0 < ?f" using \<open>p < ?f\<close> by simp
  ultimately have "tree_state s' t'" using tr s' by (auto simp: tree_state_def NULL_def t')
  moreover have "\<forall>q \<in> {?f, ?f + 1}. \<exists>n. ?h' q = Some n \<and> rb_color n = BLACK" using s' by simp
  moreover have "\<forall>q. q \<notin> {p, ?f, ?f + 1} \<longrightarrow> ?h' q = ?h q" "rb_root s' = rb_root s" using s' by simp_all
  ultimately show ?thesis using ins hp pl io by (intro exI [of _ p] exI [of _ s']) simp
qed

section \<open>Properties\<close>

text \<open>Inserting a task into a non-empty search tree: with fuel for its height, \<open>insertNode\<close> returns the
  null pointer and changes nothing when the run time is in the tree already, and otherwise returns a new
  red node, after which the heap holds a well-linked tree whose values in order are the old ones with the
  new one inserted.\<close>

theorem insertNode_inserts:
  assumes ts: "tree_state s t" and t: "t = PNode l p0 r" and bst: "sorted_wrt (<) (inorder (rb_heap s) t)" and fuel: "height t < fuel"
  shows "if v \<in> set (inorder (rb_heap s) t) then insertNode fuel v pid s = Some (NULL, s)
    else \<exists>p s' t'. insertNode fuel v pid s = Some (p, s') \<and> tree_state s' t'
      \<and> inorder (rb_heap s') t' = insort v (inorder (rb_heap s) t)
      \<and> (\<exists>n. rb_heap s' p = Some n \<and> rb_value n = v \<and> rb_pid n = pid \<and> rb_color n = RED)"
proof (cases "v \<in> set (inorder (rb_heap s) t)")
  case True
  with insertNode_duplicate [OF assms] show ?thesis by simp
next
  case False
  with insertNode_grows [OF assms False refl, of pid] show ?thesis by auto
qed

text \<open>Rotations. \<open>rotateLeft\<close> at a node with a right child succeeds wherever the node hangs, keeps the
  values in order, links the risen child to the parent and touches nothing outside the rotated subtree and
  its parent; \<open>rotateRight\<close> at the risen child gives back the original tree. Neither changes the root
  pointer.\<close>

theorem rotations_keep_order:
  assumes tr: "is_tree (rb_heap s) par (PNode a n (PNode b c d))" and dist: "distinct (addrs (PNode a n (PNode b c d)))"
    and null: "NULL \<notin> set (addrs (PNode a n (PNode b c d)))"
    and par: "par \<notin> set (addrs (PNode a n (PNode b c d)))" "linked_from (rb_heap s) par n"
  shows "\<exists>s' s''. rotateLeft n s = Some s' \<and> is_tree (rb_heap s') par (PNode (PNode a n b) c d)
    \<and> inorder (rb_heap s') (PNode (PNode a n b) c d) = inorder (rb_heap s) (PNode a n (PNode b c d))
    \<and> linked_from (rb_heap s') par c
    \<and> (\<forall>q. q \<noteq> par \<longrightarrow> q \<notin> set (addrs (PNode a n (PNode b c d))) \<longrightarrow> rb_heap s' q = rb_heap s q)
    \<and> rotateRight c s' = Some s'' \<and> is_tree (rb_heap s'') par (PNode a n (PNode b c d))
    \<and> inorder (rb_heap s'') (PNode a n (PNode b c d)) = inorder (rb_heap s) (PNode a n (PNode b c d))
    \<and> linked_from (rb_heap s'') par n \<and> rb_root s' = rb_root s \<and> rb_root s'' = rb_root s"
proof -
  from rotateLeft_spec [OF assms] obtain s' where
    s': "rotateLeft n s = Some s'" "is_tree (rb_heap s') par (PNode (PNode a n b) c d)"
      "inorder (rb_heap s') (PNode (PNode a n b) c d) = inorder (rb_heap s) (PNode a n (PNode b c d))"
      "linked_from (rb_heap s') par c" "rb_root s' = rb_root s"
      "\<forall>q. q \<noteq> par \<longrightarrow> q \<notin> set (addrs (PNode a n (PNode b c d))) \<longrightarrow> rb_heap s' q = rb_heap s q" by blast
  have "distinct (addrs (PNode (PNode a n b) c d))" "NULL \<notin> set (addrs (PNode (PNode a n b) c d))"
    "par \<notin> set (addrs (PNode (PNode a n b) c d))" using dist null par(1) by auto
  from rotateRight_spec [OF s'(2) this s'(4)] obtain s'' where
    "rotateRight c s' = Some s''" "is_tree (rb_heap s'') par (PNode a n (PNode b c d))"
      "inorder (rb_heap s'') (PNode a n (PNode b c d)) = inorder (rb_heap s') (PNode (PNode a n b) c d)"
      "linked_from (rb_heap s'') par n" "rb_root s'' = rb_root s'" by blast
  with s' show ?thesis by auto
qed

text \<open>The program: its nine tasks are printed in the order of their virtual run times, each with its own
  process id, no pointer is misused, and the tree is empty at the end. Ten turns of each loop are enough.\<close>

theorem rbt_main_output:
  "map_option (\<lambda>(out, s). (out, isEmpty s)) rbt_main =
     Some ([(7, 2), (5, 7), (1, 19), (0, 27), (2, 34), (4, 37), (6, 49), (3, 65), (8, 98)], True)"
  by code_simp

text \<open>The root pointer is not maintained: after inserting three tasks with ascending run times the rotation
  has moved the second node to the top, but the root still points at the first, whose subtree no longer
  contains the others.\<close>

lemma rbt_root_lost:
  "map_option (\<lambda>s. (rb_root s, is_tree (rb_heap s) 0 (PNode (PNode (PNil 2) 1 (PNil 4)) 3 (PNode (PNil 6) 5 (PNil 7))),
       inorder (rb_heap s) (PNode (PNode (PNil 2) 1 (PNil 4)) 3 (PNode (PNil 6) 5 (PNil 7))),
       is_tree (rb_heap s) 3 (PNode (PNil 2) 1 (PNil 4)), inorder (rb_heap s) (PNode (PNil 2) 1 (PNil 4))))
     (insert_tasks 20 0 [10, 20, 30] rbt_empty) = Some (1, True, [10, 20, 30], True, [10])"
  by code_simp

text \<open>A tree with a single task cannot be run: the nil children of the first node have no parent pointer,
  so \<open>leftmostNode\<close> returns the null pointer, which the main loop dereferences.\<close>

lemma single_task_faults:
  "\<exists>s. insert_task (Suc k) v pid rbt_empty = Some s \<and> leftmostNode (Suc (Suc k)) (rb_root s) s = Some NULL
    \<and> run_tasks (Suc m) (Suc (Suc k)) s = None"
  by (simp add: insert_task_def insertNode_def rbt_empty_def rb_calloc_def upd_def node_def leftmostNode_def isEmpty_def
      NULL_def NIL_def ALLOCATED_def BLACK_def RED_def)

section \<open>Witnesses\<close>

definition three_nodes :: rbt where
  "three_nodes = \<lparr>rb_heap = (\<lambda>p.
      if p = 1 then Some \<lparr>rb_parent = 0, rb_right = 3, rb_left = 2, rb_pid = 0, rb_value = 10, rb_color = BLACK, rb_type = ALLOCATED\<rparr>
      else if p = 3 then Some \<lparr>rb_parent = 1, rb_right = 5, rb_left = 4, rb_pid = 1, rb_value = 20, rb_color = RED, rb_type = ALLOCATED\<rparr>
      else if p \<in> {2, 4, 5} then Some \<lparr>rb_parent = (if p = 2 then 1 else 3), rb_right = 0, rb_left = 0, rb_pid = 0, rb_value = 0,
        rb_color = BLACK, rb_type = NIL\<rparr>
      else None), rb_root = 1, rb_fresh = 6\<rparr>"

definition three_shape :: ptree where
  "three_shape = PNode (PNil 2) 1 (PNode (PNil 4) 3 (PNil 5))"

lemma three_state: "tree_state three_nodes three_shape" "inorder (rb_heap three_nodes) three_shape = [10, 20]"
  by (simp_all add: tree_state_def three_nodes_def three_shape_def NULL_def val_at_def)

theorem insertNode_inserts_witness:
  "\<exists>p s' t'. insertNode 5 15 7 three_nodes = Some (p, s') \<and> tree_state s' t' \<and> inorder (rb_heap s') t' = [10, 15, 20]"
  using insertNode_inserts [OF three_state(1), of "PNil 2" 1 "PNode (PNil 4) 3 (PNil 5)" 5 15 7]
  by (auto simp: three_state(2)) (auto simp: three_shape_def)

theorem rotations_keep_order_witness:
  "\<exists>s'. rotateLeft 1 three_nodes = Some s' \<and> inorder (rb_heap s') (PNode (PNode (PNil 2) 1 (PNil 4)) 3 (PNil 5)) = [10, 20]
    \<and> rb_root s' = 1"
proof -
  have "is_tree (rb_heap three_nodes) NULL (PNode (PNil 2) 1 (PNode (PNil 4) 3 (PNil 5)))"
    "inorder (rb_heap three_nodes) (PNode (PNil 2) 1 (PNode (PNil 4) 3 (PNil 5))) = [10, 20]" "rb_root three_nodes = 1"
    by (simp_all add: three_nodes_def NULL_def val_at_def)
  with rotations_keep_order [of three_nodes NULL "PNil 2" 1 "PNil 4" 3 "PNil 5"] show ?thesis
    by (auto simp: NULL_def linked_from_def)
qed

end
