(* ===== verification/RbtBalance.thy ===== *)
theory RbtBalance
  imports RedBlackTree
begin

text \<open>
  The rebalancing after an insertion in \<open>src/hw4/hw4_redblacktree.c\<close>: on every red-black search tree \<open>insertNode\<close>
  followed by \<open>verifyInsertion\<close> runs without a fault, puts the value in its place and leaves a red-black tree; only the root pointer
  may be out of date afterwards.
\<close>

section \<open>A tree around a subtree\<close>

datatype crumb = InL rbt_ptr ptree | InR ptree rbt_ptr

fun plug :: "ptree \<Rightarrow> crumb list \<Rightarrow> ptree" where
  "plug t [] = t"
| "plug t (InL p r # c) = plug (PNode t p r) c"
| "plug t (InR l p # c) = plug (PNode l p t) c"

fun up :: "crumb list \<Rightarrow> rbt_ptr" where
  "up [] = NULL" | "up (InL p r # c) = p" | "up (InR l p # c) = p"

fun before :: "crumb list \<Rightarrow> rbt_ptr list" where
  "before [] = []" | "before (InL p r # c) = before c" | "before (InR l p # c) = before c @ addrs l @ [p]"

fun after :: "crumb list \<Rightarrow> rbt_ptr list" where
  "after [] = []" | "after (InL p r # c) = p # addrs r @ after c" | "after (InR l p # c) = after c"

definition outside :: "crumb list \<Rightarrow> rbt_ptr set" where
  "outside c = set (before c) \<union> set (after c)"

lemma outside_simps [simp]:
  "outside [] = {}" "outside (InL p r # c) = insert p (set (addrs r) \<union> outside c)" "outside (InR l p # c) = insert p (set (addrs l) \<union> outside c)"
  by (auto simp: outside_def)

lemma addrs_plug: "addrs (plug t c) = before c @ addrs t @ after c"
  by (induction t c rule: plug.induct) simp_all

lemma distinct_plug: "distinct (addrs (plug t c)) \<longleftrightarrow> distinct (addrs t) \<and> distinct (before c @ after c) \<and> set (addrs t) \<inter> outside c = {}"
  unfolding addrs_plug outside_def by auto

lemma set_plug: "set (addrs (plug t c)) = set (addrs t) \<union> outside c"
  unfolding addrs_plug outside_def by auto

lemma up_outside: "c \<noteq> [] \<Longrightarrow> up c \<in> outside c"
  by (cases c rule: up.cases) auto

fun ctx_ok :: "rb_mem \<Rightarrow> crumb list \<Rightarrow> rbt_ptr \<Rightarrow> bool" where
  "ctx_ok h [] a \<longleftrightarrow> True"
| "ctx_ok h (InL p r # c) a \<longleftrightarrow>
     (case h p of Some n \<Rightarrow> rb_type n = ALLOCATED \<and> rb_parent n = up c \<and> rb_left n = a \<and> rb_right n = addr r | None \<Rightarrow> False)
     \<and> is_tree h p r \<and> ctx_ok h c p"
| "ctx_ok h (InR l p # c) a \<longleftrightarrow>
     (case h p of Some n \<Rightarrow> rb_type n = ALLOCATED \<and> rb_parent n = up c \<and> rb_left n = addr l \<and> rb_right n = a | None \<Rightarrow> False)
     \<and> is_tree h p l \<and> ctx_ok h c p"

lemma is_tree_plug: "is_tree h NULL (plug t c) \<longleftrightarrow> is_tree h (up c) t \<and> ctx_ok h c (addr t)"
  by (induction t c rule: plug.induct) auto

lemma ctx_ok_cong: "(\<And>q. q \<in> outside c \<Longrightarrow> h' q = h q) \<Longrightarrow> ctx_ok h' c a = ctx_ok h c a"
proof (induction c arbitrary: a rule: before.induct)
  case (2 p r c)
  have "is_tree h' p r = is_tree h p r" by (rule is_tree_cong) (use 2 in auto)
  moreover have "h' p = h p" using 2 by simp
  moreover have "ctx_ok h' c p = ctx_ok h c p" by (rule 2) (use 2 in auto)
  ultimately show ?case by simp
next
  case (3 l p c)
  have "is_tree h' p l = is_tree h p l" by (rule is_tree_cong) (use 3 in auto)
  moreover have "h' p = h p" using 3 by simp
  moreover have "ctx_ok h' c p = ctx_ok h c p" by (rule 3) (use 3 in auto)
  ultimately show ?case by simp
qed simp

section \<open>Recolouring and rotating in the tree\<close>

text \<open>Colours are the function \<open>col\<close>; what neither a new colour nor a rotation changes is the \<open>core\<close>.\<close>

definition col :: "rb_mem \<Rightarrow> rbt_ptr \<Rightarrow> int" where
  "col h q = (case h q of Some n \<Rightarrow> rb_color n | None \<Rightarrow> 0)"

definition core :: "rb_mem \<Rightarrow> rbt_ptr \<Rightarrow> (int \<times> int \<times> int) option" where
  "core h q = map_option (\<lambda>n. (rb_pid n, rb_value n, rb_type n)) (h q)"

definition keeps :: "rbt \<Rightarrow> rbt \<Rightarrow> bool" where
  "keeps s s' \<longleftrightarrow> core (rb_heap s') = core (rb_heap s) \<and> rb_root s' = rb_root s \<and> rb_fresh s' = rb_fresh s"

lemma keeps_refl [simp]: "keeps s s"
  by (simp add: keeps_def)

lemma keeps_trans [trans]: "keeps s t \<Longrightarrow> keeps t u \<Longrightarrow> keeps s u"
  by (simp add: keeps_def)

lemma payload_core_col: "payload h' = payload h \<Longrightarrow> core h' = core h \<and> col h' = col h"
proof -
  assume eq: "payload h' = payload h"
  have "core h' q = core h q \<and> col h' q = col h q" for q
    using fun_cong [OF eq, of q] by (cases "h q"; cases "h' q") (auto simp: payload_def core_def col_def)
  then show ?thesis by (simp add: fun_eq_iff)
qed

lemma recolor:
  assumes "rb_heap s p = Some n"
  shows "\<exists>s'. upd p (set_color x) s = Some s' \<and> col (rb_heap s') = (col (rb_heap s))(p := x) \<and> keeps s s'
    \<and> (\<forall>par t. is_tree (rb_heap s') par t = is_tree (rb_heap s) par t)
    \<and> (\<forall>q. map_option (set_color 0) (rb_heap s' q) = map_option (set_color 0) (rb_heap s q))"
proof -
  let ?s = "s\<lparr>rb_heap := (rb_heap s)(p \<mapsto> set_color x n)\<rparr>"
  have "is_tree (rb_heap ?s) par t = is_tree (rb_heap s) par t" for par t
    by (induction t arbitrary: par) (use assms in \<open>auto split: option.splits\<close>)
  with assms show ?thesis
    by (intro exI [of _ ?s]) (auto simp: upd_def col_def keeps_def core_def fun_eq_iff)
qed

text \<open>The links of a node, which a new colour leaves alone.\<close>

lemma same_links:
  assumes "\<forall>q. map_option (set_color 0) (h' q) = map_option (set_color 0) (h q)" "h p = Some n"
  shows "\<exists>n'. h' p = Some n' \<and> rb_parent n' = rb_parent n \<and> rb_left n' = rb_left n \<and> rb_right n' = rb_right n"
proof -
  from assms obtain n' where n': "h' p = Some n'" "set_color 0 n' = set_color 0 n" by (metis map_option_eq_Some)
  then show ?thesis by (metis rbtnode.select_convs(1-3) rbtnode.surjective rbtnode.update_convs(6))
qed

lemma up_notin: "distinct (addrs (plug t c)) \<Longrightarrow> NULL \<notin> set (addrs (plug t c)) \<Longrightarrow> up c \<notin> set (addrs t)"
  by (cases "c = []") (use up_outside [of c] in \<open>auto simp: distinct_plug set_plug\<close>)

lemma linked_from_up: "ctx_ok h c a \<Longrightarrow> linked_from h (up c) a"
  by (cases c rule: up.cases) (auto simp: linked_from_def split: option.splits)

text \<open>A subtree that is replaced by another with the same nodes, its parent pointing to the new top.\<close>

lemma replug:
  assumes tree: "is_tree h NULL (plug t c)" and dist: "distinct (addrs (plug t c))" and null: "NULL \<notin> set (addrs (plug t c))"
    and new: "is_tree h' (up c) t'"
    and same: "\<forall>q. q \<noteq> up c \<longrightarrow> q \<notin> set (addrs t) \<longrightarrow> h' q = h q"
    and par: "\<And>pn. up c \<noteq> NULL \<Longrightarrow> h (up c) = Some pn \<Longrightarrow> rb_left pn \<noteq> rb_right pn \<Longrightarrow>
      h' (up c) = Some (if rb_left pn = addr t then pn\<lparr>rb_left := addr t'\<rparr> else pn\<lparr>rb_right := addr t'\<rparr>)"
  shows "is_tree h' NULL (plug t' c)"
proof (cases c rule: up.cases)
  case 1
  with new show ?thesis by simp
next
  case (2 p r c')
  have d: "p \<notin> outside c'" "p \<notin> set (addrs r)" "outside c' \<inter> set (addrs t) = {}" "set (addrs r) \<inter> set (addrs t) = {}" "p \<notin> set (addrs t)"
    using dist 2 unfolding addrs_plug outside_def by auto
  have p: "p \<noteq> NULL" using null 2 by (simp add: set_plug)
  from tree 2 have ok: "ctx_ok h c (addr t)" by (simp add: is_tree_plug)
  then obtain pn where pn: "h p = Some pn" "rb_type pn = ALLOCATED" "rb_parent pn = up c'" "rb_left pn = addr t" "rb_right pn = addr r"
    "is_tree h p r" "ctx_ok h c' p" using 2 by (auto split: option.splits)
  have "addr t \<noteq> addr r" using d(4) addr_mem [of t] addr_mem [of r] by (metis disjoint_iff)
  with par [of pn] pn p 2 have "h' p = Some (pn\<lparr>rb_left := addr t'\<rparr>)" by simp
  moreover have "is_tree h' p r = is_tree h p r" by (rule is_tree_cong) (use same d 2 in auto)
  moreover have "ctx_ok h' c' p = ctx_ok h c' p" by (rule ctx_ok_cong) (use same d 2 in auto)
  ultimately show ?thesis using new pn 2 by (simp add: is_tree_plug)
next
  case (3 l p c')
  have d: "p \<notin> outside c'" "p \<notin> set (addrs l)" "outside c' \<inter> set (addrs t) = {}" "set (addrs l) \<inter> set (addrs t) = {}" "p \<notin> set (addrs t)"
    using dist 3 unfolding addrs_plug outside_def by auto
  have p: "p \<noteq> NULL" using null 3 by (simp add: set_plug)
  from tree 3 have ok: "ctx_ok h c (addr t)" by (simp add: is_tree_plug)
  then obtain pn where pn: "h p = Some pn" "rb_type pn = ALLOCATED" "rb_parent pn = up c'" "rb_right pn = addr t" "rb_left pn = addr l"
    "is_tree h p l" "ctx_ok h c' p" using 3 by (auto split: option.splits)
  have "addr l \<noteq> addr t" using d(4) addr_mem [of t] addr_mem [of l] by (metis disjoint_iff)
  with par [of pn] pn p 3 have "h' p = Some (pn\<lparr>rb_right := addr t'\<rparr>)" by simp
  moreover have "is_tree h' p l = is_tree h p l" by (rule is_tree_cong) (use same d 3 in auto)
  moreover have "ctx_ok h' c' p = ctx_ok h c' p" by (rule ctx_ok_cong) (use same d 3 in auto)
  ultimately show ?thesis using new pn 3 by (simp add: is_tree_plug)
qed

lemma rotateRight_plug:
  assumes tree: "is_tree (rb_heap s) NULL (plug (PNode (PNode x m y) g u) c)" and dist: "distinct (addrs (plug (PNode (PNode x m y) g u) c))"
    and null: "NULL \<notin> set (addrs (plug (PNode (PNode x m y) g u) c))"
  shows "\<exists>s'. rotateRight g s = Some s' \<and> is_tree (rb_heap s') NULL (plug (PNode x m (PNode y g u)) c) \<and> keeps s s'
    \<and> col (rb_heap s') = col (rb_heap s) \<and> (\<forall>q. q \<notin> {up c, g, m, addr y} \<longrightarrow> rb_heap s' q = rb_heap s q)"
proof -
  let ?t = "PNode (PNode x m y) g u"
  have "is_tree (rb_heap s) (up c) ?t" "ctx_ok (rb_heap s) c g" using tree by (simp_all add: is_tree_plug)
  moreover have "distinct (addrs ?t)" "NULL \<notin> set (addrs ?t)" using dist null by (simp_all add: distinct_plug set_plug)
  ultimately obtain s' where s': "rotateRight g s = Some s'" "is_tree (rb_heap s') (up c) (PNode x m (PNode y g u))"
    "rb_root s' = rb_root s" "rb_fresh s' = rb_fresh s" "payload (rb_heap s') = payload (rb_heap s)"
    "\<forall>pn. up c \<noteq> NULL \<longrightarrow> rb_heap s (up c) = Some pn \<longrightarrow> rb_heap s' (up c) = Some (if rb_right pn = g then pn\<lparr>rb_right := m\<rparr> else pn\<lparr>rb_left := m\<rparr>)"
    "\<forall>q. q \<noteq> up c \<longrightarrow> q \<notin> set (addrs ?t) \<longrightarrow> rb_heap s' q = rb_heap s q"
    "\<forall>q. q \<notin> {up c, g, m, addr y} \<longrightarrow> rb_heap s' q = rb_heap s q"
    using rotateRight_spec [of s "up c" x m y g u] up_notin [OF dist null] linked_from_up by blast
  have "is_tree (rb_heap s') NULL (plug (PNode x m (PNode y g u)) c)"
  proof (rule replug [OF tree dist null s'(2,7)])
    fix pn
    assume pn: "up c \<noteq> NULL" "rb_heap s (up c) = Some pn" "rb_left pn \<noteq> rb_right pn"
    have "rb_left pn = g \<or> rb_right pn = g" using linked_from_up [OF \<open>ctx_ok (rb_heap s) c g\<close>] pn by (simp add: linked_from_def)
    with pn s'(6) show "rb_heap s' (up c) = Some (if rb_left pn = addr ?t then pn\<lparr>rb_left := addr (PNode x m (PNode y g u))\<rparr>
        else pn\<lparr>rb_right := addr (PNode x m (PNode y g u))\<rparr>)" by auto
  qed
  with s'(1,3,4,8) payload_core_col [OF s'(5)] show ?thesis by (simp add: keeps_def)
qed

lemma rotateLeft_plug:
  assumes tree: "is_tree (rb_heap s) NULL (plug (PNode u g (PNode y m x)) c)" and dist: "distinct (addrs (plug (PNode u g (PNode y m x)) c))"
    and null: "NULL \<notin> set (addrs (plug (PNode u g (PNode y m x)) c))"
  shows "\<exists>s'. rotateLeft g s = Some s' \<and> is_tree (rb_heap s') NULL (plug (PNode (PNode u g y) m x) c) \<and> keeps s s'
    \<and> col (rb_heap s') = col (rb_heap s) \<and> (\<forall>q. q \<notin> {up c, g, m, addr y} \<longrightarrow> rb_heap s' q = rb_heap s q)"
proof -
  let ?t = "PNode u g (PNode y m x)"
  have "is_tree (rb_heap s) (up c) ?t" "ctx_ok (rb_heap s) c g" using tree by (simp_all add: is_tree_plug)
  moreover have "distinct (addrs ?t)" "NULL \<notin> set (addrs ?t)" using dist null by (simp_all add: distinct_plug set_plug)
  ultimately obtain s' where s': "rotateLeft g s = Some s'" "is_tree (rb_heap s') (up c) (PNode (PNode u g y) m x)"
    "rb_root s' = rb_root s" "rb_fresh s' = rb_fresh s" "payload (rb_heap s') = payload (rb_heap s)"
    "\<forall>pn. up c \<noteq> NULL \<longrightarrow> rb_heap s (up c) = Some pn \<longrightarrow> rb_heap s' (up c) = Some (if rb_left pn = g then pn\<lparr>rb_left := m\<rparr> else pn\<lparr>rb_right := m\<rparr>)"
    "\<forall>q. q \<noteq> up c \<longrightarrow> q \<notin> set (addrs ?t) \<longrightarrow> rb_heap s' q = rb_heap s q"
    "\<forall>q. q \<notin> {up c, g, m, addr y} \<longrightarrow> rb_heap s' q = rb_heap s q"
    using rotateLeft_spec [of s "up c" u g y m x] up_notin [OF dist null] linked_from_up by blast
  have "is_tree (rb_heap s') NULL (plug (PNode (PNode u g y) m x) c)"
    by (rule replug [OF tree dist null s'(2,7)]) (use s'(6) in auto)
  with s'(1,3,4,8) payload_core_col [OF s'(5)] show ?thesis by (simp add: keeps_def)
qed

section \<open>Red-black trees\<close>

primrec invc :: "(rbt_ptr \<Rightarrow> int) \<Rightarrow> ptree \<Rightarrow> bool" where
  "invc k (PNil p) \<longleftrightarrow> k p = BLACK"
| "invc k (PNode l p r) \<longleftrightarrow> k p \<in> {RED, BLACK} \<and> (k p = RED \<longrightarrow> k (addr l) = BLACK \<and> k (addr r) = BLACK) \<and> invc k l \<and> invc k r"

primrec bh :: "(rbt_ptr \<Rightarrow> int) \<Rightarrow> ptree \<Rightarrow> nat" where
  "bh k (PNil p) = 0"
| "bh k (PNode l p r) = bh k l + of_bool (k p = BLACK)"

primrec invh :: "(rbt_ptr \<Rightarrow> int) \<Rightarrow> ptree \<Rightarrow> bool" where
  "invh k (PNil p) \<longleftrightarrow> True"
| "invh k (PNode l p r) \<longleftrightarrow> bh k l = bh k r \<and> invh k l \<and> invh k r"

definition red_black :: "(rbt_ptr \<Rightarrow> int) \<Rightarrow> ptree \<Rightarrow> bool" where
  "red_black k t \<longleftrightarrow> invc k t \<and> invh k t \<and> k (addr t) = BLACK"

text \<open>The surroundings of a subtree with a given black height.\<close>

fun ctx_rb :: "(rbt_ptr \<Rightarrow> int) \<Rightarrow> crumb list \<Rightarrow> nat \<Rightarrow> bool" where
  "ctx_rb k [] m \<longleftrightarrow> True"
| "ctx_rb k (InL p r # c) m \<longleftrightarrow> k p \<in> {RED, BLACK} \<and> (k p = RED \<longrightarrow> k (addr r) = BLACK \<and> c \<noteq> [] \<and> k (up c) = BLACK) \<and>
     invc k r \<and> invh k r \<and> bh k r = m \<and> ctx_rb k c (m + of_bool (k p = BLACK))"
| "ctx_rb k (InR l p # c) m \<longleftrightarrow> k p \<in> {RED, BLACK} \<and> (k p = RED \<longrightarrow> k (addr l) = BLACK \<and> c \<noteq> [] \<and> k (up c) = BLACK) \<and>
     invc k l \<and> invh k l \<and> bh k l = m \<and> ctx_rb k c (m + of_bool (k p = BLACK))"

lemma RED_BLACK [simp]: "RED \<noteq> BLACK" "BLACK \<noteq> RED"
  by (simp_all add: RED_def BLACK_def)

lemma colours_cong:
  "(\<And>q. q \<in> set (addrs t) \<Longrightarrow> k' q = k q) \<Longrightarrow> invc k' t = invc k t \<and> bh k' t = bh k t \<and> invh k' t = invh k t"
  by (induction t) auto

lemma ctx_rb_up: "ctx_rb k c m \<Longrightarrow> c \<noteq> [] \<Longrightarrow> k (up c) \<in> {RED, BLACK}"
  by (cases c rule: up.cases) auto

lemma ctx_rb_cong: "(\<And>q. q \<in> outside c \<Longrightarrow> k' q = k q) \<Longrightarrow> ctx_rb k' c m = ctx_rb k c m"
proof (induction c arbitrary: m rule: before.induct)
  case (2 p r c)
  have "invc k' r = invc k r \<and> bh k' r = bh k r \<and> invh k' r = invh k r" by (rule colours_cong) (use 2 in auto)
  moreover have "k' p = k p" "k' (addr r) = k (addr r)" using 2 by simp_all
  moreover have "c = [] \<or> k' (up c) = k (up c)" using 2 up_outside [of c] by auto
  moreover have "ctx_rb k' c (m + of_bool (k p = BLACK)) = ctx_rb k c (m + of_bool (k p = BLACK))" by (rule 2) (use 2 in auto)
  ultimately show ?case by (elim disjE) simp_all
next
  case (3 l p c)
  have "invc k' l = invc k l \<and> bh k' l = bh k l \<and> invh k' l = invh k l" by (rule colours_cong) (use 3 in auto)
  moreover have "k' p = k p" "k' (addr l) = k (addr l)" using 3 by simp_all
  moreover have "c = [] \<or> k' (up c) = k (up c)" using 3 up_outside [of c] by auto
  moreover have "ctx_rb k' c (m + of_bool (k p = BLACK)) = ctx_rb k c (m + of_bool (k p = BLACK))" by (rule 3) (use 3 in auto)
  ultimately show ?case by (elim disjE) simp_all
qed simp

lemma red_black_plug:
  "red_black k (plug t c) \<longleftrightarrow> invc k t \<and> invh k t \<and> ctx_rb k c (bh k t)
     \<and> (if c = [] then k (addr t) = BLACK else k (up c) = RED \<longrightarrow> k (addr t) = BLACK)"
proof (induction t c rule: plug.induct)
  case (2 t p r c)
  have up: "k (up c) = RED \<longleftrightarrow> k (up c) \<noteq> BLACK" if "ctx_rb k c (bh k t + of_bool (k p = BLACK))" "c \<noteq> []"
    using ctx_rb_up [OF that] by auto
  have eqs: "bh k (PNode t p r) = bh k t + of_bool (k p = BLACK)" "addr (PNode t p r) = p" by simp_all
  show ?case unfolding plug.simps(2) 2 eqs invc.simps invh.simps ctx_rb.simps up.simps using up
    by (cases "c = []"; cases "k p = BLACK"; cases "k p = RED") auto
next
  case (3 t l p c)
  have up: "k (up c) = RED \<longleftrightarrow> k (up c) \<noteq> BLACK" if "ctx_rb k c (bh k l + of_bool (k p = BLACK))" "c \<noteq> []"
    using ctx_rb_up [OF that] by auto
  have eqs: "bh k (PNode l p t) = bh k l + of_bool (k p = BLACK)" "addr (PNode l p t) = p" by simp_all
  show ?case unfolding plug.simps(3) 3 eqs invc.simps invh.simps ctx_rb.simps up.simps using up
    by (cases "c = []"; cases "k p = BLACK"; cases "k p = RED") auto
qed (simp add: red_black_def)

section \<open>The rebalancing\<close>

text \<open>The last part of \<open>verifyInsertion\<close>, from the final colours on.\<close>

definition recolour_rotate :: "rbt_ptr \<Rightarrow> rbt_ptr \<Rightarrow> rbt \<Rightarrow> rbt option" where
  "recolour_rotate target g s = do {
     tn \<leftarrow> node target s;
     s \<leftarrow> upd (rb_parent tn) (set_color BLACK) s;
     s \<leftarrow> upd g (set_color RED) s;
     pn \<leftarrow> node (rb_parent tn) s;
     if target = rb_left pn then rotateRight g s else rotateLeft g s
   }"

text \<open>What rebalancing a subtree has to achieve in the tree around it.\<close>

definition balanced :: "rbt \<Rightarrow> rbt \<Rightarrow> ptree \<Rightarrow> bool" where
  "balanced s s' t \<longleftrightarrow> (\<exists>t'. is_tree (rb_heap s') NULL t' \<and> addrs t' = addrs t \<and> keeps s s' \<and> red_black (col (rb_heap s')) t')"

lemma node_parent: "is_tree h par t \<Longrightarrow> t = PNode l p r \<Longrightarrow> \<exists>n. h p = Some n \<and> rb_parent n = par \<and> rb_left n = addr l \<and> rb_right n = addr r"
  by (auto split: option.splits)

lemma finish_right:
  assumes tree: "is_tree (rb_heap s) NULL (plug (PNode (PNode x m y) g u) c)" and dist: "distinct (addrs (plug (PNode (PNode x m y) g u) c))"
    and null: "NULL \<notin> set (addrs (plug (PNode (PNode x m y) g u) c))" and x: "x = PNode xl q xr"
    and k: "k = col (rb_heap s)"
    and invc: "invc k x" "invc k y" "invc k u" and invh: "invh k x" "invh k y" "invh k u"
    and eqh: "bh k x = bh k u" "bh k y = bh k u" and black: "k (addr y) = BLACK" "k (addr u) = BLACK"
    and ctx: "ctx_rb k c (Suc (bh k u))"
  shows "\<exists>s'. recolour_rotate q g s = Some s' \<and> balanced s s' (plug (PNode (PNode x m y) g u) c)"
proof -
  let ?t = "PNode (PNode x m y) g u"
  have sub: "is_tree (rb_heap s) (up c) ?t" using tree by (simp add: is_tree_plug)
  obtain qn where qn: "rb_heap s q = Some qn" "rb_parent qn = m" using node_parent [of "rb_heap s" m x xl q xr] sub x by auto
  obtain mn where mn: "rb_heap s m = Some mn" "rb_left mn = q"
    using node_parent [of "rb_heap s" g "PNode x m y" x m y] sub x by auto
  from recolor [OF mn(1), of BLACK] obtain s1 where s1: "upd m (set_color BLACK) s = Some s1"
    "col (rb_heap s1) = k(m := BLACK)" "keeps s s1" "\<forall>par t. is_tree (rb_heap s1) par t = is_tree (rb_heap s) par t"
    "\<forall>q. map_option (set_color 0) (rb_heap s1 q) = map_option (set_color 0) (rb_heap s q)" unfolding k by blast
  have "is_tree (rb_heap s1) (up c) ?t" using sub s1(4) by blast
  then obtain gn where gn: "rb_heap s1 g = Some gn" using node_parent [of "rb_heap s1" "up c" ?t] by blast
  from recolor [OF gn, of RED] obtain s2 where s2: "upd g (set_color RED) s1 = Some s2"
    "col (rb_heap s2) = (k(m := BLACK))(g := RED)" "keeps s1 s2" "\<forall>par t. is_tree (rb_heap s2) par t = is_tree (rb_heap s1) par t"
    "\<forall>q. map_option (set_color 0) (rb_heap s2 q) = map_option (set_color 0) (rb_heap s1 q)" unfolding s1(2) by blast
  from same_links [of "rb_heap s2" "rb_heap s" m mn] s1(5) s2(5) mn obtain mn' where
    mn': "rb_heap s2 m = Some mn'" "rb_left mn' = q" by auto
  have "is_tree (rb_heap s2) NULL (plug ?t c)" using tree s1(4) s2(4) by blast
  from rotateRight_plug [OF this dist null] obtain s3 where s3: "rotateRight g s2 = Some s3"
    "is_tree (rb_heap s3) NULL (plug (PNode x m (PNode y g u)) c)" "keeps s2 s3" "col (rb_heap s3) = col (rb_heap s2)" by blast
  have "recolour_rotate q g s = Some s3" using qn mn' s1(1) s2(1) s3(1) by (simp add: recolour_rotate_def node_def)
  moreover have "addrs (plug (PNode x m (PNode y g u)) c) = addrs (plug ?t c)" by (simp add: addrs_plug)
  moreover have "keeps s s3" using keeps_trans [OF keeps_trans [OF s1(3) s2(3)] s3(3)] .
  moreover have "red_black (col (rb_heap s3)) (plug (PNode x m (PNode y g u)) c)"
  proof -
    let ?k = "(k(m := BLACK))(g := RED)"
    have d: "distinct (addrs ?t)" "set (addrs ?t) \<inter> outside c = {}" using dist by (simp_all add: distinct_plug)
    have sx: "invc ?k x = invc k x \<and> bh ?k x = bh k x \<and> invh ?k x = invh k x" by (rule colours_cong) (use d in auto)
    have sy: "invc ?k y = invc k y \<and> bh ?k y = bh k y \<and> invh ?k y = invh k y" by (rule colours_cong) (use d in auto)
    have su: "invc ?k u = invc k u \<and> bh ?k u = bh k u \<and> invh ?k u = invh k u" by (rule colours_cong) (use d in auto)
    have "ctx_rb ?k c (Suc (bh k u)) = ctx_rb k c (Suc (bh k u))" by (rule ctx_rb_cong) (use d in auto)
    moreover have "?k (addr y) = BLACK" "?k (addr u) = BLACK" "?k m = BLACK" "?k g = RED"
      using black d addr_neq [of m y] addr_neq [of g y] addr_neq [of m u] addr_neq [of g u] by auto
    ultimately show ?thesis unfolding s3(4) s2(2) red_black_plug using sx sy su invc invh eqh ctx by simp
  qed
  ultimately show ?thesis using s3(2) unfolding balanced_def by blast
qed

lemma finish_left:
  assumes tree: "is_tree (rb_heap s) NULL (plug (PNode u g (PNode y m x)) c)" and dist: "distinct (addrs (plug (PNode u g (PNode y m x)) c))"
    and null: "NULL \<notin> set (addrs (plug (PNode u g (PNode y m x)) c))" and x: "x = PNode xl q xr"
    and k: "k = col (rb_heap s)"
    and invc: "invc k x" "invc k y" "invc k u" and invh: "invh k x" "invh k y" "invh k u"
    and eqh: "bh k x = bh k u" "bh k y = bh k u" and black: "k (addr y) = BLACK" "k (addr u) = BLACK"
    and ctx: "ctx_rb k c (Suc (bh k u))"
  shows "\<exists>s'. recolour_rotate q g s = Some s' \<and> balanced s s' (plug (PNode u g (PNode y m x)) c)"
proof -
  let ?t = "PNode u g (PNode y m x)"
  have sub: "is_tree (rb_heap s) (up c) ?t" using tree by (simp add: is_tree_plug)
  have d: "distinct (addrs ?t)" "set (addrs ?t) \<inter> outside c = {}" using dist by (simp_all add: distinct_plug)
  obtain qn where qn: "rb_heap s q = Some qn" "rb_parent qn = m" using node_parent [of "rb_heap s" m x xl q xr] sub x by auto
  obtain mn where mn: "rb_heap s m = Some mn" "rb_left mn = addr y"
    using node_parent [of "rb_heap s" g "PNode y m x" y m x] sub x by auto
  from recolor [OF mn(1), of BLACK] obtain s1 where s1: "upd m (set_color BLACK) s = Some s1"
    "col (rb_heap s1) = k(m := BLACK)" "keeps s s1" "\<forall>par t. is_tree (rb_heap s1) par t = is_tree (rb_heap s) par t"
    "\<forall>q. map_option (set_color 0) (rb_heap s1 q) = map_option (set_color 0) (rb_heap s q)" unfolding k by blast
  have "is_tree (rb_heap s1) (up c) ?t" using sub s1(4) by blast
  then obtain gn where gn: "rb_heap s1 g = Some gn" using node_parent [of "rb_heap s1" "up c" ?t] by blast
  from recolor [OF gn, of RED] obtain s2 where s2: "upd g (set_color RED) s1 = Some s2"
    "col (rb_heap s2) = (k(m := BLACK))(g := RED)" "keeps s1 s2" "\<forall>par t. is_tree (rb_heap s2) par t = is_tree (rb_heap s1) par t"
    "\<forall>q. map_option (set_color 0) (rb_heap s2 q) = map_option (set_color 0) (rb_heap s1 q)" unfolding s1(2) by blast
  from same_links [of "rb_heap s2" "rb_heap s" m mn] s1(5) s2(5) mn obtain mn' where
    mn': "rb_heap s2 m = Some mn'" "rb_left mn' = addr y" by auto
  have "is_tree (rb_heap s2) NULL (plug ?t c)" using tree s1(4) s2(4) by blast
  from rotateLeft_plug [OF this dist null] obtain s3 where s3: "rotateLeft g s2 = Some s3"
    "is_tree (rb_heap s3) NULL (plug (PNode (PNode u g y) m x) c)" "keeps s2 s3" "col (rb_heap s3) = col (rb_heap s2)" by blast
  have "q \<noteq> addr y" using d(1) x addr_mem [of y] by auto
  then have "recolour_rotate q g s = Some s3" using qn mn' s1(1) s2(1) s3(1) by (simp add: recolour_rotate_def node_def)
  moreover have "addrs (plug (PNode (PNode u g y) m x) c) = addrs (plug ?t c)" by (simp add: addrs_plug)
  moreover have "keeps s s3" using keeps_trans [OF keeps_trans [OF s1(3) s2(3)] s3(3)] .
  moreover have "red_black (col (rb_heap s3)) (plug (PNode (PNode u g y) m x) c)"
  proof -
    let ?k = "(k(m := BLACK))(g := RED)"
    have sx: "invc ?k x = invc k x \<and> bh ?k x = bh k x \<and> invh ?k x = invh k x" by (rule colours_cong) (use d in auto)
    have sy: "invc ?k y = invc k y \<and> bh ?k y = bh k y \<and> invh ?k y = invh k y" by (rule colours_cong) (use d in auto)
    have su: "invc ?k u = invc k u \<and> bh ?k u = bh k u \<and> invh ?k u = invh k u" by (rule colours_cong) (use d in auto)
    have "ctx_rb ?k c (Suc (bh k u)) = ctx_rb k c (Suc (bh k u))" by (rule ctx_rb_cong) (use d in auto)
    moreover have "?k (addr y) = BLACK" "?k (addr u) = BLACK" "?k m = BLACK" "?k g = RED"
      using black d addr_neq [of m y] addr_neq [of g y] addr_neq [of m u] addr_neq [of g u] by auto
    ultimately show ?thesis unfolding s3(4) s2(2) red_black_plug using sx sy su invc invh eqh ctx by simp
  qed
  ultimately show ?thesis using s3(2) unfolding balanced_def by blast
qed

text \<open>The cases of \<open>verifyInsertion\<close>.\<close>

lemma verify_root: "rb_heap s n = Some tn \<Longrightarrow> rb_parent tn = NULL \<Longrightarrow> verifyInsertion (Suc fuel) n s = upd n (set_color BLACK) s"
  by (simp add: node_def)

lemma verify_black:
  "rb_heap s n = Some tn \<Longrightarrow> rb_parent tn = p \<Longrightarrow> p \<noteq> NULL \<Longrightarrow> rb_heap s p = Some pn \<Longrightarrow> rb_color pn = BLACK \<Longrightarrow>
   verifyInsertion (Suc fuel) n s = Some s"
  by (simp add: node_def)

lemma verify_red:
  assumes n: "n \<noteq> NULL" "rb_heap s n = Some tn" "rb_parent tn = p" and p: "p \<noteq> NULL" "rb_heap s p = Some pn" "rb_color pn = RED" "rb_parent pn = g"
    and g: "g \<noteq> NULL" "rb_heap s g = Some gn" and u: "u = (if p = rb_left gn then rb_right gn else rb_left gn)" "u \<noteq> NULL" "rb_heap s u = Some un"
  shows "verifyInsertion (Suc fuel) n s =
    (if rb_color un = RED then do {
       s \<leftarrow> upd p (set_color BLACK) s; s \<leftarrow> upd u (set_color BLACK) s; s \<leftarrow> upd g (set_color RED) s; verifyInsertion fuel g s
     }
     else do {
       (target, s) \<leftarrow>
         (if n = rb_right pn \<and> p = rb_left gn then do { s \<leftarrow> rotateLeft p s; tn \<leftarrow> node n s; Some (rb_left tn, s) }
          else if n = rb_left pn \<and> p = rb_right gn then do { s \<leftarrow> rotateRight p s; tn \<leftarrow> node n s; Some (rb_right tn, s) }
          else Some (n, s));
       recolour_rotate target g s
     })"
proof -
  have gp: "grandparent n s = Some g" using n p by (simp add: grandparent_def node_def)
  then have "uncle n s = Some u" using n p g u(1) by (simp add: uncle_def node_def)
  with gp assms show ?thesis by (simp add: node_def recolour_rotate_def Let_def)
qed

lemma col_node: "h q = Some n \<Longrightarrow> col h q = rb_color n"
  by (simp add: col_def)

text \<open>A red parent with a red sibling: the violation moves to the grandparent.\<close>

lemma verify_uncle_red:
  assumes tree: "is_tree (rb_heap s) NULL (plug t c)" and dist: "distinct (addrs (plug t c))" and null: "NULL \<notin> set (addrs (plug t c))"
    and t: "t = PNode P g u \<or> t = PNode u g P" and P: "P = PNode a p b" and u: "u = PNode ul q ur"
    and n: "n \<noteq> NULL" "rb_heap s n = Some tn" "rb_parent tn = p" and k: "k = col (rb_heap s)"
    and red: "k p = RED" "k q = RED"
    and inv: "invc k a" "invc k b" "invc k u" "invh k a" "invh k b" "invh k u" "bh k a = bh k b" "bh k u = bh k a"
  shows "\<exists>s3. verifyInsertion (Suc fuel) n s = verifyInsertion fuel g s3 \<and> keeps s s3 \<and> is_tree (rb_heap s3) NULL (plug t c)
    \<and> col (rb_heap s3) g = RED \<and> col (rb_heap s3) p = BLACK \<and> col (rb_heap s3) q = BLACK
    \<and> invc (col (rb_heap s3)) t \<and> invh (col (rb_heap s3)) t \<and> bh (col (rb_heap s3)) P = Suc (bh k u) \<and> bh (col (rb_heap s3)) u = Suc (bh k u)
    \<and> (\<forall>x \<in> outside c. col (rb_heap s3) x = k x)"
proof -
  let ?h = "rb_heap s" and ?k = "((k(p := BLACK))(q := BLACK))(g := RED)"
  have sub: "is_tree ?h (up c) t" using tree by (simp add: is_tree_plug)
  have d: "distinct (addrs t)" "set (addrs t) \<inter> outside c = {}" "NULL \<notin> set (addrs t)" using dist null by (auto simp: distinct_plug set_plug)
  have neq: "p \<noteq> NULL" "g \<noteq> NULL" "q \<noteq> NULL" "p \<noteq> q" "p \<noteq> g" "q \<noteq> g" using d t P u by auto
  obtain gn where gn: "?h g = Some gn" "if p = rb_left gn then rb_right gn = q else rb_left gn = q"
    using sub t P u d neq by (auto split: option.splits)
  obtain pn where pn: "?h p = Some pn" "rb_parent pn = g" using sub t P by (auto split: option.splits)
  obtain un where un: "?h q = Some un" using sub t u by (auto split: option.splits)
  have cols: "rb_color pn = RED" "rb_color un = RED" using red k col_node [of ?h p pn] col_node [of ?h q un] pn(1) un by auto
  have "q = (if p = rb_left gn then rb_right gn else rb_left gn)" using gn(2) by (auto split: if_splits)
  from verify_red [OF n neq(1) pn(1) cols(1) pn(2) neq(2) gn(1) this neq(3) un] cols(2)
  have step: "verifyInsertion (Suc fuel) n s = do {
      s \<leftarrow> upd p (set_color BLACK) s; s \<leftarrow> upd q (set_color BLACK) s; s \<leftarrow> upd g (set_color RED) s; verifyInsertion fuel g s }" by simp
  from recolor [OF pn(1), of BLACK] obtain s1 where s1: "upd p (set_color BLACK) s = Some s1" "col (rb_heap s1) = k(p := BLACK)" "keeps s s1"
    "\<forall>par t. is_tree (rb_heap s1) par t = is_tree ?h par t"
    "\<forall>q. map_option (set_color 0) (rb_heap s1 q) = map_option (set_color 0) (?h q)" unfolding k by blast
  from same_links [OF s1(5) un] obtain un1 where "rb_heap s1 q = Some un1" by blast
  from recolor [OF this, of BLACK] obtain s2 where s2: "upd q (set_color BLACK) s1 = Some s2" "col (rb_heap s2) = (k(p := BLACK))(q := BLACK)" "keeps s1 s2"
    "\<forall>par t. is_tree (rb_heap s2) par t = is_tree (rb_heap s1) par t"
    "\<forall>q. map_option (set_color 0) (rb_heap s2 q) = map_option (set_color 0) (rb_heap s1 q)" unfolding s1(2) by blast
  from same_links [of "rb_heap s2" ?h g gn] s1(5) s2(5) gn(1) obtain gn2 where "rb_heap s2 g = Some gn2" by auto
  from recolor [OF this, of RED] obtain s3 where s3: "upd g (set_color RED) s2 = Some s3" "col (rb_heap s3) = ?k" "keeps s2 s3"
    "\<forall>par t. is_tree (rb_heap s3) par t = is_tree (rb_heap s2) par t" unfolding s2(2) by blast
  have "verifyInsertion (Suc fuel) n s = verifyInsertion fuel g s3" using step s1(1) s2(1) s3(1) by simp
  moreover have "is_tree (rb_heap s3) NULL (plug t c)" using tree s1(4) s2(4) s3(4) by blast
  moreover have "keeps s s3" using keeps_trans [OF keeps_trans [OF s1(3) s2(3)] s3(3)] .
  moreover have same: "invc ?k v = invc k v \<and> bh ?k v = bh k v \<and> invh ?k v = invh k v" if "v \<in> {a, b, ul, ur}" for v
  proof (rule colours_cong)
    fix x
    assume "x \<in> set (addrs v)"
    with d(1) t P u that have "x \<noteq> p" "x \<noteq> q" "x \<noteq> g" by auto
    then show "?k x = k x" by simp
  qed
  have "invc ?k t \<and> invh ?k t \<and> bh ?k P = Suc (bh k u) \<and> bh ?k u = Suc (bh k u)"
    using same [of a] same [of b] same [of ul] same [of ur] t P u inv red neq by auto
  moreover have "\<forall>x \<in> outside c. ?k x = k x" using d(2) t P u by auto
  moreover have "?k g = RED" "?k p = BLACK" "?k q = BLACK" using neq by auto
  ultimately show ?thesis using s3(2) by (intro exI [of _ s3]) auto
qed

text \<open>A red parent with a black sibling: one or two rotations at the grandparent, to either side.\<close>

lemma verify_outer_left:
  assumes tree: "is_tree (rb_heap s) NULL (plug (PNode (PNode (PNode l n r) p b) g u) c)"
    and dist: "distinct (addrs (plug (PNode (PNode (PNode l n r) p b) g u) c))" and null: "NULL \<notin> set (addrs (plug (PNode (PNode (PNode l n r) p b) g u) c))"
    and k: "k = col (rb_heap s)" and red: "k p = RED" and black: "k (addr u) = BLACK"
    and inv: "invc k (PNode l n r)" "invc k b" "invc k u" "invh k (PNode l n r)" "invh k b" "invh k u"
    and eqh: "bh k (PNode l n r) = bh k u" "bh k b = bh k u" and b: "k (addr b) = BLACK" and ctx: "ctx_rb k c (Suc (bh k u))"
  shows "\<exists>s'. verifyInsertion (Suc fuel) n s = Some s' \<and> balanced s s' (plug (PNode (PNode (PNode l n r) p b) g u) c)"
proof -
  let ?t = "PNode (PNode (PNode l n r) p b) g u" and ?h = "rb_heap s"
  have sub: "is_tree ?h (up c) ?t" using tree by (simp add: is_tree_plug)
  have d: "distinct (addrs ?t)" "NULL \<notin> set (addrs ?t)" using dist null by (simp_all add: distinct_plug set_plug)
  obtain tn pn gn where tn: "?h n = Some tn" "rb_parent tn = p" and pn: "?h p = Some pn" "rb_parent pn = g" "rb_left pn = n" "rb_right pn = addr b"
    and gn: "?h g = Some gn" "rb_left gn = p" "rb_right gn = addr u" and u: "is_tree ?h g u"
    using sub by (auto split: option.splits)
  obtain un where un: "?h (addr u) = Some un" using is_tree_dom [OF u addr_mem] by blast
  have neq: "n \<noteq> NULL" "p \<noteq> NULL" "g \<noteq> NULL" "addr u \<noteq> NULL" "n \<noteq> addr b" "p \<noteq> addr u"
    using d addr_neq [of _ u] addr_neq [of _ b] by auto
  have cols: "rb_color pn = RED" "rb_color un \<noteq> RED" using red black k col_node [of ?h p pn] col_node [of ?h "addr u" un] pn(1) un by auto
  have "addr u = (if p = rb_left gn then rb_right gn else rb_left gn)" using gn by simp
  from verify_red [OF neq(1) tn neq(2) pn(1) cols(1) pn(2) neq(3) gn(1) this neq(4) un, of fuel]
  have "verifyInsertion (Suc fuel) n s = recolour_rotate n g s" using cols(2) pn gn neq by simp
  with finish_right [OF tree dist null refl k inv eqh b black ctx] show ?thesis by simp
qed

lemma verify_outer_right:
  assumes tree: "is_tree (rb_heap s) NULL (plug (PNode u g (PNode b p (PNode l n r))) c)"
    and dist: "distinct (addrs (plug (PNode u g (PNode b p (PNode l n r))) c))" and null: "NULL \<notin> set (addrs (plug (PNode u g (PNode b p (PNode l n r))) c))"
    and k: "k = col (rb_heap s)" and red: "k p = RED" and black: "k (addr u) = BLACK"
    and inv: "invc k (PNode l n r)" "invc k b" "invc k u" "invh k (PNode l n r)" "invh k b" "invh k u"
    and eqh: "bh k (PNode l n r) = bh k u" "bh k b = bh k u" and b: "k (addr b) = BLACK" and ctx: "ctx_rb k c (Suc (bh k u))"
  shows "\<exists>s'. verifyInsertion (Suc fuel) n s = Some s' \<and> balanced s s' (plug (PNode u g (PNode b p (PNode l n r))) c)"
proof -
  let ?t = "PNode u g (PNode b p (PNode l n r))" and ?h = "rb_heap s"
  have sub: "is_tree ?h (up c) ?t" using tree by (simp add: is_tree_plug)
  have d: "distinct (addrs ?t)" "NULL \<notin> set (addrs ?t)" using dist null by (simp_all add: distinct_plug set_plug)
  obtain tn pn gn where tn: "?h n = Some tn" "rb_parent tn = p" and pn: "?h p = Some pn" "rb_parent pn = g" "rb_right pn = n" "rb_left pn = addr b"
    and gn: "?h g = Some gn" "rb_right gn = p" "rb_left gn = addr u" and u: "is_tree ?h g u"
    using sub by (auto split: option.splits)
  obtain un where un: "?h (addr u) = Some un" using is_tree_dom [OF u addr_mem] by blast
  have neq: "n \<noteq> NULL" "p \<noteq> NULL" "g \<noteq> NULL" "addr u \<noteq> NULL" "n \<noteq> addr b" "p \<noteq> addr u"
    using d addr_neq [of _ u] addr_neq [of _ b] by auto
  have cols: "rb_color pn = RED" "rb_color un \<noteq> RED" using red black k col_node [of ?h p pn] col_node [of ?h "addr u" un] pn(1) un by auto
  have "addr u = (if p = rb_left gn then rb_right gn else rb_left gn)" using gn neq by simp
  from verify_red [OF neq(1) tn neq(2) pn(1) cols(1) pn(2) neq(3) gn(1) this neq(4) un, of fuel]
  have "verifyInsertion (Suc fuel) n s = recolour_rotate n g s" using cols(2) pn gn neq by simp
  with finish_left [OF tree dist null refl k inv eqh b black ctx] show ?thesis by simp
qed

lemma balanced_trans: "keeps s s1 \<Longrightarrow> addrs t1 = addrs t \<Longrightarrow> balanced s1 s' t1 \<Longrightarrow> balanced s s' t"
  unfolding balanced_def using keeps_trans by metis

text \<open>An inner grandchild is first rotated to the outside.\<close>

lemma verify_inner_left:
  assumes tree: "is_tree (rb_heap s) NULL (plug (PNode (PNode a p (PNode l n r)) g u) c)"
    and dist: "distinct (addrs (plug (PNode (PNode a p (PNode l n r)) g u) c))" and null: "NULL \<notin> set (addrs (plug (PNode (PNode a p (PNode l n r)) g u) c))"
    and k: "k = col (rb_heap s)" and red: "k p = RED" and black: "k (addr u) = BLACK"
    and inv: "invc k (PNode a p l)" "invc k r" "invc k u" "invh k (PNode a p l)" "invh k r" "invh k u"
    and eqh: "bh k (PNode a p l) = bh k u" "bh k r = bh k u" and r: "k (addr r) = BLACK" and ctx: "ctx_rb k c (Suc (bh k u))"
  shows "\<exists>s'. verifyInsertion (Suc fuel) n s = Some s' \<and> balanced s s' (plug (PNode (PNode a p (PNode l n r)) g u) c)"
proof -
  let ?t = "PNode (PNode a p (PNode l n r)) g u" and ?h = "rb_heap s" and ?c = "InL g u # c" and ?t1 = "PNode (PNode (PNode a p l) n r) g u"
  have sub: "is_tree ?h (up c) ?t" using tree by (simp add: is_tree_plug)
  have d: "distinct (addrs ?t)" "NULL \<notin> set (addrs ?t)" using dist null by (simp_all add: distinct_plug set_plug)
  obtain tn pn gn where tn: "?h n = Some tn" "rb_parent tn = p" and pn: "?h p = Some pn" "rb_parent pn = g" "rb_right pn = n"
    and gn: "?h g = Some gn" "rb_left gn = p" "rb_right gn = addr u" and u: "is_tree ?h g u"
    using sub by (auto split: option.splits)
  obtain un where un: "?h (addr u) = Some un" using is_tree_dom [OF u addr_mem] by blast
  have neq: "n \<noteq> NULL" "p \<noteq> NULL" "g \<noteq> NULL" "addr u \<noteq> NULL" "p \<noteq> addr u"
    using d addr_neq [of _ u] by auto
  have cols: "rb_color pn = RED" "rb_color un \<noteq> RED" using red black k col_node [of ?h p pn] col_node [of ?h "addr u" un] pn(1) un by auto
  have "addr u = (if p = rb_left gn then rb_right gn else rb_left gn)" using gn by simp
  from verify_red [OF neq(1) tn neq(2) pn(1) cols(1) pn(2) neq(3) gn(1) this neq(4) un, of fuel]
  have step: "verifyInsertion (Suc fuel) n s = do {
      (target, s) \<leftarrow> do { s \<leftarrow> rotateLeft p s; tn \<leftarrow> node n s; Some (rb_left tn, s) }; recolour_rotate target g s }"
    using cols(2) pn gn neq by simp
  from rotateLeft_plug [of s a p l n r ?c] tree dist null obtain s1 where
    s1: "rotateLeft p s = Some s1" "is_tree (rb_heap s1) NULL (plug ?t1 c)" "keeps s s1" "col (rb_heap s1) = k" unfolding k by auto
  have "is_tree (rb_heap s1) (up c) ?t1" using s1(2) by (simp add: is_tree_plug)
  then obtain nn where nn: "rb_heap s1 n = Some nn" "rb_left nn = p" by (auto split: option.splits)
  have same: "addrs (plug ?t1 c) = addrs (plug ?t c)" by (simp add: addrs_plug)
  have dn: "distinct (addrs (plug ?t1 c))" "NULL \<notin> set (addrs (plug ?t1 c))" unfolding same using dist null by blast+
  from finish_right [OF s1(2) dn refl s1(4) [symmetric] inv eqh r black ctx] obtain s' where
    "recolour_rotate p g s1 = Some s'" "balanced s1 s' (plug ?t1 c)" by blast
  with balanced_trans [OF s1(3) same] step s1(1) nn show ?thesis by (simp add: node_def)
qed

lemma verify_inner_right:
  assumes tree: "is_tree (rb_heap s) NULL (plug (PNode u g (PNode (PNode l n r) p a)) c)"
    and dist: "distinct (addrs (plug (PNode u g (PNode (PNode l n r) p a)) c))" and null: "NULL \<notin> set (addrs (plug (PNode u g (PNode (PNode l n r) p a)) c))"
    and k: "k = col (rb_heap s)" and red: "k p = RED" and black: "k (addr u) = BLACK"
    and inv: "invc k (PNode r p a)" "invc k l" "invc k u" "invh k (PNode r p a)" "invh k l" "invh k u"
    and eqh: "bh k (PNode r p a) = bh k u" "bh k l = bh k u" and l: "k (addr l) = BLACK" and ctx: "ctx_rb k c (Suc (bh k u))"
  shows "\<exists>s'. verifyInsertion (Suc fuel) n s = Some s' \<and> balanced s s' (plug (PNode u g (PNode (PNode l n r) p a)) c)"
proof -
  let ?t = "PNode u g (PNode (PNode l n r) p a)" and ?h = "rb_heap s" and ?c = "InR u g # c" and ?t1 = "PNode u g (PNode l n (PNode r p a))"
  have sub: "is_tree ?h (up c) ?t" using tree by (simp add: is_tree_plug)
  have d: "distinct (addrs ?t)" "NULL \<notin> set (addrs ?t)" using dist null by (simp_all add: distinct_plug set_plug)
  obtain tn pn gn where tn: "?h n = Some tn" "rb_parent tn = p" and pn: "?h p = Some pn" "rb_parent pn = g" "rb_left pn = n" "rb_right pn = addr a"
    and gn: "?h g = Some gn" "rb_right gn = p" "rb_left gn = addr u" and u: "is_tree ?h g u"
    using sub by (auto split: option.splits)
  obtain un where un: "?h (addr u) = Some un" using is_tree_dom [OF u addr_mem] by blast
  have neq: "n \<noteq> NULL" "p \<noteq> NULL" "g \<noteq> NULL" "addr u \<noteq> NULL" "p \<noteq> addr u"
    using d addr_neq [of _ u] by auto
  have cols: "rb_color pn = RED" "rb_color un \<noteq> RED" using red black k col_node [of ?h p pn] col_node [of ?h "addr u" un] pn(1) un by auto
  have "addr u = (if p = rb_left gn then rb_right gn else rb_left gn)" using gn neq by simp
  from verify_red [OF neq(1) tn neq(2) pn(1) cols(1) pn(2) neq(3) gn(1) this neq(4) un, of fuel]
  have step: "verifyInsertion (Suc fuel) n s = do {
      (target, s) \<leftarrow> do { s \<leftarrow> rotateRight p s; tn \<leftarrow> node n s; Some (rb_right tn, s) }; recolour_rotate target g s }"
    using cols(2) pn gn neq by simp
  from rotateRight_plug [of s l n r p a ?c] tree dist null obtain s1 where
    s1: "rotateRight p s = Some s1" "is_tree (rb_heap s1) NULL (plug ?t1 c)" "keeps s s1" "col (rb_heap s1) = k" unfolding k by auto
  have "is_tree (rb_heap s1) (up c) ?t1" using s1(2) by (simp add: is_tree_plug)
  then obtain nn where nn: "rb_heap s1 n = Some nn" "rb_right nn = p" by (auto split: option.splits)
  have same: "addrs (plug ?t1 c) = addrs (plug ?t c)" by (simp add: addrs_plug)
  have dn: "distinct (addrs (plug ?t1 c))" "NULL \<notin> set (addrs (plug ?t1 c))" unfolding same using dist null by blast+
  from finish_left [OF s1(2) dn refl s1(4) [symmetric] inv eqh l black ctx] obtain s' where
    "recolour_rotate p g s1 = Some s'" "balanced s1 s' (plug ?t1 c)" by blast
  with balanced_trans [OF s1(3) same] step s1(1) nn show ?thesis by (simp add: node_def)
qed

text \<open>A tree that is red-black but for the red node \<open>n\<close>, whose parent may be red or missing.\<close>

definition broken :: "rbt \<Rightarrow> crumb list \<Rightarrow> ptree \<Rightarrow> rbt_ptr \<Rightarrow> ptree \<Rightarrow> bool" where
  "broken s c l n r \<longleftrightarrow> is_tree (rb_heap s) NULL (plug (PNode l n r) c) \<and> distinct (addrs (plug (PNode l n r) c)) \<and>
     NULL \<notin> set (addrs (plug (PNode l n r) c)) \<and> col (rb_heap s) n = RED \<and> col (rb_heap s) (addr l) = BLACK \<and> col (rb_heap s) (addr r) = BLACK \<and>
     invc (col (rb_heap s)) l \<and> invc (col (rb_heap s)) r \<and> invh (col (rb_heap s)) l \<and> invh (col (rb_heap s)) r \<and>
     bh (col (rb_heap s)) l = bh (col (rb_heap s)) r \<and> ctx_rb (col (rb_heap s)) c (bh (col (rb_heap s)) l)"

text \<open>The red uncle: the grandparent takes the place of the new node, with less tree above it.\<close>

lemma verify_up:
  assumes IH: "\<forall>s l n r. broken s c l n r \<longrightarrow> (\<exists>s'. verifyInsertion fuel n s = Some s' \<and> balanced s s' (plug (PNode l n r) c))"
    and tree: "is_tree (rb_heap s) NULL (plug t c)" and dist: "distinct (addrs (plug t c))" and null: "NULL \<notin> set (addrs (plug t c))"
    and t: "t = PNode P g u \<or> t = PNode u g P" and P: "P = PNode a p b"
    and n: "n \<noteq> NULL" "rb_heap s n = Some tn" "rb_parent tn = p" and k: "k = col (rb_heap s)"
    and red: "k p = RED" "k (addr u) = RED"
    and inv: "invc k a" "invc k b" "invc k u" "invh k a" "invh k b" "invh k u" "bh k a = bh k b" "bh k u = bh k a"
    and ctx: "ctx_rb k c (Suc (bh k u))"
  shows "\<exists>s'. verifyInsertion (Suc fuel) n s = Some s' \<and> balanced s s' (plug t c)"
proof -
  obtain ul q ur where u: "u = PNode ul q ur" using inv(3) red(2) by (cases u) auto
  with red have "k q = RED" by simp
  from verify_uncle_red [OF tree dist null t P u n k red(1) this inv, of fuel] obtain s3 where
    s3: "verifyInsertion (Suc fuel) n s = verifyInsertion fuel g s3" "keeps s s3" "is_tree (rb_heap s3) NULL (plug t c)"
    "col (rb_heap s3) g = RED" "col (rb_heap s3) p = BLACK" "col (rb_heap s3) q = BLACK"
    "invc (col (rb_heap s3)) t" "invh (col (rb_heap s3)) t" "bh (col (rb_heap s3)) P = Suc (bh k u)" "bh (col (rb_heap s3)) u = Suc (bh k u)"
    "\<forall>x \<in> outside c. col (rb_heap s3) x = k x" by blast
  have ctx3: "ctx_rb (col (rb_heap s3)) c (Suc (bh k u))" using ctx_rb_cong [of c "col (rb_heap s3)" k] s3(11) ctx by simp
  from t have "\<exists>s'. verifyInsertion fuel g s3 = Some s' \<and> balanced s3 s' (plug t c)"
  proof
    assume t: "t = PNode P g u"
    have "broken s3 c P g u" unfolding broken_def using s3 ctx3 t P u dist null by simp
    with IH t show ?thesis by blast
  next
    assume t: "t = PNode u g P"
    have "broken s3 c u g P" unfolding broken_def using s3 ctx3 t P u dist null by simp
    with IH t show ?thesis by blast
  qed
  with s3(1) balanced_trans [OF s3(2) refl] show ?thesis by auto
qed

lemma brokenD:
  assumes "broken s c l n r"
  shows "is_tree (rb_heap s) NULL (plug (PNode l n r) c)" "distinct (addrs (plug (PNode l n r) c))" "NULL \<notin> set (addrs (plug (PNode l n r) c))"
    "col (rb_heap s) n = RED" "col (rb_heap s) (addr l) = BLACK" "col (rb_heap s) (addr r) = BLACK"
    "invc (col (rb_heap s)) l" "invc (col (rb_heap s)) r" "invh (col (rb_heap s)) l" "invh (col (rb_heap s)) r"
    "bh (col (rb_heap s)) l = bh (col (rb_heap s)) r" "ctx_rb (col (rb_heap s)) c (bh (col (rb_heap s)) l)"
  using assms unfolding broken_def by blast+

lemma broken_node:
  assumes "broken s c l n r"
  shows "\<exists>tn. rb_heap s n = Some tn \<and> rb_parent tn = up c" "n \<noteq> NULL" "c \<noteq> [] \<Longrightarrow> up c \<noteq> NULL \<and> (\<exists>pn. rb_heap s (up c) = Some pn)"
proof -
  note b = brokenD [OF assms]
  have sub: "is_tree (rb_heap s) (up c) (PNode l n r)" "ctx_ok (rb_heap s) c n" using b(1) by (simp_all add: is_tree_plug)
  show "\<exists>tn. rb_heap s n = Some tn \<and> rb_parent tn = up c" using node_parent [OF sub(1) refl] by blast
  show "n \<noteq> NULL" using b(3) by (simp add: set_plug)
  assume "c \<noteq> []"
  then show "up c \<noteq> NULL \<and> (\<exists>pn. rb_heap s (up c) = Some pn)"
    using up_outside [of c] b(3) sub(2) by (cases c rule: up.cases) (auto simp: set_plug split: option.splits)
qed

lemma broken_root:
  assumes broken: "broken s [] l n r"
  shows "\<exists>s'. verifyInsertion (Suc fuel) n s = Some s' \<and> balanced s s' (PNode l n r)"
proof -
  let ?k = "col (rb_heap s)" and ?t = "PNode l n r"
  note b = brokenD [OF broken, unfolded plug.simps]
  obtain tn where tn: "rb_heap s n = Some tn" "rb_parent tn = NULL" using broken_node(1) [OF broken] by auto
  from recolor [OF tn(1), of BLACK] obtain s' where s': "upd n (set_color BLACK) s = Some s'" "col (rb_heap s') = ?k(n := BLACK)" "keeps s s'"
    "\<forall>par t. is_tree (rb_heap s') par t = is_tree (rb_heap s) par t" by blast
  have "invc (?k(n := BLACK)) l = invc ?k l \<and> bh (?k(n := BLACK)) l = bh ?k l \<and> invh (?k(n := BLACK)) l = invh ?k l"
    by (rule colours_cong) (use b(2) in auto)
  moreover have "invc (?k(n := BLACK)) r = invc ?k r \<and> bh (?k(n := BLACK)) r = bh ?k r \<and> invh (?k(n := BLACK)) r = invh ?k r"
    by (rule colours_cong) (use b(2) in auto)
  ultimately have "red_black (col (rb_heap s')) ?t" using b(7-11) s'(2) by (simp add: red_black_def)
  moreover have "is_tree (rb_heap s') NULL ?t" using s'(4) b(1) by blast
  ultimately have "balanced s s' ?t" using s'(3) unfolding balanced_def by blast
  with verify_root [OF tn] s'(1) show ?thesis by simp
qed

lemma broken_black:
  assumes broken: "broken s c l n r" and c: "c \<noteq> []" and black: "col (rb_heap s) (up c) = BLACK"
  shows "verifyInsertion (Suc fuel) n s = Some s \<and> balanced s s (plug (PNode l n r) c)"
proof -
  note b = brokenD [OF broken]
  obtain tn pn where tn: "rb_heap s n = Some tn" "rb_parent tn = up c" and pn: "rb_heap s (up c) = Some pn" "up c \<noteq> NULL"
    using broken_node [OF broken] c by blast
  have "verifyInsertion (Suc fuel) n s = Some s"
    by (rule verify_black [OF tn pn(2,1)]) (use black col_node [of "rb_heap s" _ pn] pn in auto)
  moreover have "red_black (col (rb_heap s)) (plug (PNode l n r) c)" unfolding red_black_plug using b c black by simp
  ultimately show ?thesis using b(1) by (auto simp: balanced_def)
qed

lemma broken_red:
  assumes IH: "\<forall>s l n r. broken s c l n r \<longrightarrow> (\<exists>s'. verifyInsertion fuel n s = Some s' \<and> balanced s s' (plug (PNode l n r) c))"
    and broken: "broken s (F # F2 # c) l n r" and red: "col (rb_heap s) (up (F # F2 # c)) = RED"
  shows "\<exists>s'. verifyInsertion (Suc fuel) n s = Some s' \<and> balanced s s' (plug (PNode l n r) (F # F2 # c))"
proof -
  let ?k = "col (rb_heap s)" and ?t = "PNode l n r"
  note b = brokenD [OF broken]
  have t: "invc ?k ?t" "invh ?k ?t" "bh ?k ?t = bh ?k l" using b by simp_all
  obtain p q lf where F: "F = (if lf then InL p q else InR q p)" by (cases F) (metis (full_types))+
  obtain g u lf2 where F2: "F2 = (if lf2 then InL g u else InR u g)" by (cases F2) (metis (full_types))+
  have facts: "?k p = RED" "?k (addr q) = BLACK" "invc ?k q" "invh ?k q" "bh ?k q = bh ?k l"
    "?k g = BLACK" "invc ?k u" "invh ?k u" "bh ?k u = bh ?k l" "ctx_rb ?k c (Suc (bh ?k u))"
    using b(12) red t F F2 by (auto split: if_splits)
  obtain tn where tn: "rb_heap s n = Some tn" "rb_parent tn = p" using broken_node(1) [OF broken] F by auto
  let ?P = "if lf then PNode ?t p q else PNode q p ?t"
  let ?T = "if lf2 then PNode ?P g u else PNode u g ?P"
  have pl: "plug ?t (F # F2 # c) = plug ?T c" using F F2 by auto
  note prem = b(1-3) [unfolded pl]
  consider (uncle) "?k (addr u) = RED" | (black) "?k (addr u) = BLACK" using facts(7) by (cases u) auto
  then show ?thesis unfolding pl
  proof cases
    case uncle
    note up = verify_up [OF IH prem, where P = ?P and g = g and u = u and n = n and tn = tn and p = p and k = ?k] broken_node(2) [OF broken]
    show "\<exists>s'. verifyInsertion (Suc fuel) n s = Some s' \<and> balanced s s' (plug ?T c)"
    proof (cases lf)
      case True
      show ?thesis by (rule up(1) [where a = ?t and b = q]) (use up(2) True tn facts uncle t b in simp_all)
    next
      case False
      show ?thesis by (rule up(1) [where a = q and b = ?t]) (use up(2) False tn facts uncle t b in simp_all)
    qed
  next
    case black
    note arg = refl facts(1) black
    show "\<exists>s'. verifyInsertion (Suc fuel) n s = Some s' \<and> balanced s s' (plug ?T c)"
    proof (cases lf; cases lf2)
      assume "lf" "lf2"
      then show ?thesis using verify_outer_left [OF _ _ _ arg] prem facts t by simp
    next
      assume "lf" "\<not> lf2"
      then show ?thesis using verify_inner_right [OF _ _ _ arg] prem facts b by simp
    next
      assume "\<not> lf" "lf2"
      then show ?thesis using verify_inner_left [OF _ _ _ arg] prem facts b by simp
    next
      assume "\<not> lf" "\<not> lf2"
      then show ?thesis using verify_outer_right [OF _ _ _ arg] prem facts t by simp
    qed
  qed
qed

lemma verify_ok: "broken s c l n r \<Longrightarrow> length c < fuel \<Longrightarrow> \<exists>s'. verifyInsertion fuel n s = Some s' \<and> balanced s s' (plug (PNode l n r) c)"
proof (induction fuel arbitrary: s l n r c)
  case (Suc fuel)
  note broken = Suc.prems(1)
  consider "c = []" | "c \<noteq> []" "col (rb_heap s) (up c) = BLACK" | "c \<noteq> []" "col (rb_heap s) (up c) = RED"
    using ctx_rb_up [OF brokenD(12) [OF broken]] by auto
  then show ?case
  proof cases
    case 1
    with broken_root [of s l n r] broken show ?thesis by simp
  next
    case 2
    with broken_black [OF broken] show ?thesis by blast
  next
    case 3
    then have "\<exists>F c1. c = F # c1 \<and> c1 \<noteq> []" using brokenD(12) [OF broken] by (cases c rule: up.cases) auto
    then obtain F F2 c2 where c: "c = F # F2 # c2" by (metis neq_Nil_conv)
    with Suc.prems(2) have "length c2 < fuel" by simp
    with Suc.IH have "\<forall>s l n r. broken s c2 l n r \<longrightarrow> (\<exists>s'. verifyInsertion fuel n s = Some s' \<and> balanced s s' (plug (PNode l n r) c2))"
      by blast
    from broken_red [OF this] broken 3 c show ?thesis by blast
  qed
qed simp


section \<open>The place of a new node\<close>

lemma plug_append: "plug t (c @ d) = plug (plug t c) d"
  by (induction t c rule: plug.induct) simp_all

lemma grow_plug:
  "\<exists>c. t = plug (PNil (fst (place h v par t))) c \<and> grow h v l' r' t = plug (PNode (PNil l') (fst (place h v par t)) (PNil r')) c \<and> length c \<le> height t"
proof (induction t arbitrary: par)
  case (PNil p)
  show ?case by (intro exI [of _ "[]"]) simp
next
  case (PNode l p r)
  show ?case
  proof (cases "val_at h p > v")
    case True
    from PNode.IH(1) [of p] obtain c where "l = plug (PNil (fst (place h v p l))) c"
      "grow h v l' r' l = plug (PNode (PNil l') (fst (place h v p l)) (PNil r')) c" "length c \<le> height l" by blast
    with True show ?thesis by (intro exI [of _ "c @ [InL p r]"]) (simp add: plug_append)
  next
    case False
    from PNode.IH(2) [of p] obtain c where "r = plug (PNil (fst (place h v p r))) c"
      "grow h v l' r' r = plug (PNode (PNil l') (fst (place h v p r)) (PNil r')) c" "length c \<le> height r" by blast
    with False show ?thesis by (intro exI [of _ "c @ [InR l p]"]) (simp add: plug_append)
  qed
qed

text \<open>The values in order depend only on the order of the nodes and the core of the heap.\<close>

definition allocated :: "rb_mem \<Rightarrow> rbt_ptr \<Rightarrow> bool" where
  "allocated h q \<longleftrightarrow> (case h q of Some n \<Rightarrow> rb_type n = ALLOCATED | None \<Rightarrow> False)"

lemma inorder_addrs: "is_tree h par t \<Longrightarrow> inorder h t = List.map (val_at h) (filter (allocated h) (addrs t))"
  by (induction t arbitrary: par) (auto simp: allocated_def split: option.splits)

lemma core_same: "core h' = core h \<Longrightarrow> val_at h' = val_at h \<and> allocated h' = allocated h"
proof -
  assume eq: "core h' = core h"
  have "val_at h' q = val_at h q \<and> allocated h' q = allocated h q" for q
    using fun_cong [OF eq, of q] by (cases "h q"; cases "h' q") (auto simp: core_def val_at_def allocated_def)
  then show ?thesis by (simp add: fun_eq_iff)
qed

lemma balanced_inorder:
  "balanced s s' t \<Longrightarrow> is_tree (rb_heap s) NULL t \<Longrightarrow>
   \<exists>t'. is_tree (rb_heap s') NULL t' \<and> addrs t' = addrs t \<and> keeps s s' \<and> red_black (col (rb_heap s')) t' \<and> inorder (rb_heap s') t' = inorder (rb_heap s) t"
proof -
  assume "balanced s s' t" and t: "is_tree (rb_heap s) NULL t"
  then obtain t' where t': "is_tree (rb_heap s') NULL t'" "addrs t' = addrs t" "keeps s s'" "red_black (col (rb_heap s')) t'"
    by (auto simp: balanced_def)
  then have "inorder (rb_heap s') t' = inorder (rb_heap s) t"
    using inorder_addrs [OF t'(1)] inorder_addrs [OF t] core_same [of "rb_heap s'" "rb_heap s"] by (simp add: keeps_def)
  with t' show ?thesis by blast
qed

section \<open>The height of a red-black tree\<close>

lemma height_bh: "invc k t \<Longrightarrow> invh k t \<Longrightarrow> height t \<le> 2 * bh k t + of_bool (k (addr t) \<noteq> BLACK)"
proof (induction t)
  case (PNode l p r)
  have le: "of_bool (k (addr u) \<noteq> BLACK) \<le> (1::nat)" for u by simp
  have "height l \<le> 2 * bh k l + of_bool (k (addr l) \<noteq> BLACK)" "height r \<le> 2 * bh k l + of_bool (k (addr r) \<noteq> BLACK)"
    using PNode by simp_all
  moreover have "k p = BLACK \<or> (k p \<noteq> BLACK \<and> k (addr l) = BLACK \<and> k (addr r) = BLACK)" using PNode.prems by auto
  ultimately show ?case using le [of l] le [of r] by (elim disjE) simp_all
qed simp

lemma bh_tasks: "invh k t \<Longrightarrow> 2 ^ bh k t \<le> length (inorder h t) + 1"
  by (induction t) auto

lemma red_black_height: "red_black k t \<Longrightarrow> 2 ^ height t \<le> (length (inorder h t) + 1)\<^sup>2"
proof -
  assume rb: "red_black k t"
  then have "height t \<le> 2 * bh k t" using height_bh [of k t] by (simp add: red_black_def)
  then have "(2::nat) ^ height t \<le> 2 ^ (2 * bh k t)" by (rule power_increasing) simp
  also have "\<dots> = (2 ^ bh k t)\<^sup>2" by (simp add: power_mult [symmetric] mult.commute)
  also have "\<dots> \<le> (length (inorder h t) + 1)\<^sup>2"
    by (rule power_mono) (use rb bh_tasks [of k t h] in \<open>simp_all add: red_black_def\<close>)
  finally show ?thesis .
qed

lemma log_fuel: "red_black k t \<Longrightarrow> (length (inorder h t) + 1)\<^sup>2 < 2 ^ fuel \<Longrightarrow> height t < fuel"
  using red_black_height [of k t h] by (meson le_less_trans nat_power_less_imp_less zero_less_numeral)

section \<open>Properties\<close>

text \<open>Inserting the first task.\<close>

lemma insert_task_first:
  "\<exists>s. insert_task (Suc k) v pid rbt_empty = Some s \<and> tree_state s (PNode (PNil 2) 1 (PNil 3)) \<and>
     inorder (rb_heap s) (PNode (PNil 2) 1 (PNil 3)) = [v] \<and> red_black (col (rb_heap s)) (PNode (PNil 2) 1 (PNil 3))"
  by (simp add: insert_task_def insertNode_def rbt_empty_def rb_calloc_def upd_def node_def tree_state_def val_at_def red_black_def col_def NULL_def)

text \<open>A second task with the run time of one in the tree: the main program hands the null pointer on.\<close>

lemma insert_task_duplicate:
  "tree_state s t \<Longrightarrow> t = PNode l p0 r \<Longrightarrow> sorted_wrt (<) (inorder (rb_heap s) t) \<Longrightarrow> height t < fuel \<Longrightarrow> v \<in> set (inorder (rb_heap s) t) \<Longrightarrow>
   rb_heap s NULL = None \<Longrightarrow> insert_task fuel v pid s = None"
  by (cases fuel) (simp_all add: insert_task_def insertNode_duplicate node_def)

text \<open>C9. Inserting a task into a red-black search tree of N tasks: as soon as 2 to the power of the fuel exceeds the square of
  N + 1, so after a number of turns logarithmic in N, \<open>insertNode\<close> followed by \<open>verifyInsertion\<close> returns without a misused pointer,
  and the heap then holds a red-black tree, with parent pointers, whose values in order are the old ones with the new one inserted.
  The root pointer still points at the old root, a node of that tree.\<close>

theorem insert_task_balanced:
  assumes ts: "tree_state s t" and t: "t = PNode l p0 r" and bst: "sorted_wrt (<) (inorder (rb_heap s) t)"
    and rb: "red_black (col (rb_heap s)) t" and fuel: "(length (inorder (rb_heap s) t) + 1)\<^sup>2 < 2 ^ fuel"
    and new: "v \<notin> set (inorder (rb_heap s) t)"
  shows "\<exists>s' t'. insert_task fuel v pid s = Some s' \<and> is_tree (rb_heap s') NULL t' \<and> distinct (addrs t') \<and> NULL \<notin> set (addrs t')
    \<and> (\<forall>p \<in> set (addrs t'). p < rb_fresh s') \<and> inorder (rb_heap s') t' = insort v (inorder (rb_heap s) t)
    \<and> red_black (col (rb_heap s')) t' \<and> rb_root s' = rb_root s \<and> rb_root s \<in> set (addrs t')"
proof -
  let ?h = "rb_heap s" and ?f = "rb_fresh s" and ?p = "fst (place (rb_heap s) v NULL t)"
  let ?g = "grow ?h v ?f (?f + 1) t" and ?n = "PNode (PNil ?f) ?p (PNil (?f + 1))"
  have ht: "height t < fuel" by (rule log_fuel [OF rb fuel])
  obtain s1 where s1: "insertNode fuel v pid s = Some (?p, s1)" "tree_state s1 ?g" "inorder (rb_heap s1) ?g = insort v (inorder ?h t)"
    "rb_root s1 = rb_root s" "\<exists>n. rb_heap s1 ?p = Some n \<and> rb_color n = RED"
    "\<forall>q \<in> {?f, ?f + 1}. \<exists>n. rb_heap s1 q = Some n \<and> rb_color n = BLACK"
    "\<forall>q. q \<notin> {?p, ?f, ?f + 1} \<longrightarrow> rb_heap s1 q = ?h q"
    using insertNode_grows [OF ts t bst ht new refl, of pid] by blast
  obtain c where c: "t = plug (PNil ?p) c" "?g = plug ?n c" "length c \<le> height t" using grow_plug [of t ?h v NULL ?f "?f + 1"] by blast
  let ?k = "col ?h" and ?k1 = "col (rb_heap s1)"
  have g: "is_tree (rb_heap s1) NULL (plug ?n c)" "distinct (addrs (plug ?n c))" "NULL \<notin> set (addrs (plug ?n c))"
    "\<forall>p \<in> set (addrs (plug ?n c)). p < rb_fresh s1" "rb_root s1 = addr (plug ?n c)"
    using s1(2) unfolding c(2) tree_state_def by blast+
  have cols: "?k1 ?p = RED" "?k1 ?f = BLACK" "?k1 (?f + 1) = BLACK" using s1(5,6) by (auto simp: col_def)
  have "red_black ?k (plug (PNil ?p) c)" using rb c(1) by simp
  then have "ctx_rb ?k c 0" by (simp add: red_black_plug)
  moreover have "?k1 q = ?k q" if "q \<in> outside c" for q
  proof -
    have "q \<notin> {?p, ?f, ?f + 1}" using g(2) that by (auto simp: distinct_plug)
    with s1(7) show ?thesis by (simp add: col_def)
  qed
  ultimately have ctx: "ctx_rb ?k1 c 0" using ctx_rb_cong [of c ?k1 ?k] by simp
  have "broken s1 c (PNil ?f) ?p (PNil (?f + 1))" unfolding broken_def using g(1-3) cols ctx by simp
  moreover have "length c < fuel" using c(3) ht by simp
  ultimately obtain s' where s': "verifyInsertion fuel ?p s1 = Some s'" "balanced s1 s' (plug ?n c)"
    using verify_ok by blast
  from balanced_inorder [OF s'(2) g(1)] obtain t' where
    t': "is_tree (rb_heap s') NULL t'" "addrs t' = addrs (plug ?n c)" "keeps s1 s'" "red_black (col (rb_heap s')) t'"
      "inorder (rb_heap s') t' = inorder (rb_heap s1) (plug ?n c)" by blast
  have "insert_task fuel v pid s = Some s'" using s1(1) s'(1) by (simp add: insert_task_def)
  moreover have "rb_root s \<in> set (addrs t')" using t'(2) g(5) s1(4) addr_mem [of "plug ?n c"] by metis
  ultimately show ?thesis using t' g s1(3,4) c(2) unfolding keeps_def by (intro exI [of _ s'] exI [of _ t']) simp
qed

text \<open>Three tasks that force a rotation at the root.\<close>

theorem insert_task_balanced_witness:
  "\<exists>s' t'. insert_task 5 30 7 three_nodes = Some s' \<and> is_tree (rb_heap s') NULL t' \<and> inorder (rb_heap s') t' = [10, 20, 30] \<and>
     red_black (col (rb_heap s')) t' \<and> rb_root s' = 1"
proof -
  have "red_black (col (rb_heap three_nodes)) three_shape"
    by (simp add: red_black_def three_shape_def three_nodes_def col_def)
  from insert_task_balanced [OF three_state(1) three_shape_def _ this, of 5 30 7]
  obtain s' t' where "insert_task 5 30 7 three_nodes = Some s'" "is_tree (rb_heap s') NULL t'" "inorder (rb_heap s') t' = insort 30 [10, 20]"
    "red_black (col (rb_heap s')) t'" "rb_root s' = rb_root three_nodes" by (auto simp: three_state(2) power2_eq_square)
  moreover have "insort 30 [10, 20] = [10, 20, 30 :: int]" "rb_root three_nodes = 1" by (simp_all add: three_nodes_def)
  ultimately show ?thesis by metis
qed

end
