(* ===== verification/RbtDeleteCases.thy ===== *)
theory RbtDeleteCases
  imports RbtBalance
begin

text \<open>
  The rebalancing after a deletion in \<open>src/hw4/hw4_redblacktree.c\<close>: \<open>delete_case1\<close> to \<open>delete_case6\<close> at a black node
  below which one black node is missing. The two sides of the code are treated together: a fork has a near subtree, the one with
  \<open>n\<close>, and a far one.
\<close>

section \<open>Forks\<close>

definition fork :: "bool \<Rightarrow> ptree \<Rightarrow> rbt_ptr \<Rightarrow> ptree \<Rightarrow> ptree" where
  "fork lf a p b = (if lf then PNode a p b else PNode b p a)"

definition crumb_in :: "bool \<Rightarrow> rbt_ptr \<Rightarrow> ptree \<Rightarrow> crumb" where
  "crumb_in lf p b = (if lf then InL p b else InR b p)"

definition near :: "bool \<Rightarrow> rbtnode \<Rightarrow> rbt_ptr" where
  "near lf n = (if lf then rb_left n else rb_right n)"

definition rotate_to :: "bool \<Rightarrow> rbt_ptr \<Rightarrow> rbt \<Rightarrow> rbt option" where
  "rotate_to lf p s = (if lf then rotateLeft p s else rotateRight p s)"

lemma fork_swap: "fork (\<not> lf) a p b = fork lf b p a"
  by (simp add: fork_def)

lemma fork_simps [simp]:
  "addr (fork lf a p b) = p" "set (addrs (fork lf a p b)) = insert p (set (addrs a) \<union> set (addrs b))"
  "distinct (addrs (fork lf a p b)) \<longleftrightarrow> distinct (addrs a) \<and> distinct (addrs b) \<and> p \<notin> set (addrs a) \<and> p \<notin> set (addrs b) \<and> set (addrs a) \<inter> set (addrs b) = {}"
  "invc k (fork lf a p b) \<longleftrightarrow> k p \<in> {RED, BLACK} \<and> (k p = RED \<longrightarrow> k (addr a) = BLACK \<and> k (addr b) = BLACK) \<and> invc k a \<and> invc k b"
  "invh k (fork lf a p b) \<longleftrightarrow> bh k a = bh k b \<and> invh k a \<and> invh k b"
  by (auto simp: fork_def)

lemma bh_fork: "bh k a = bh k b \<Longrightarrow> bh k (fork lf a p b) = bh k a + of_bool (k p = BLACK)"
  by (simp add: fork_def)

lemma crumb_simps [simp]:
  "plug t (crumb_in lf p b # c) = plug (fork lf t p b) c" "up (crumb_in lf p b # c) = p"
  "outside (crumb_in lf p b # c) = insert p (set (addrs b) \<union> outside c)"
  "ctx_rb k (crumb_in lf p b # c) m \<longleftrightarrow> k p \<in> {RED, BLACK} \<and> (k p = RED \<longrightarrow> k (addr b) = BLACK \<and> c \<noteq> [] \<and> k (up c) = BLACK) \<and>
     invc k b \<and> invh k b \<and> bh k b = m \<and> ctx_rb k c (m + of_bool (k p = BLACK))"
  by (auto simp: crumb_in_def fork_def)

lemma crumb_cases: obtains (Root) "c = []" | (In) lf p b c' where "c = crumb_in lf p b # c'"
proof (cases c rule: up.cases)
  case (2 p r c')
  then have "c = crumb_in True p r # c'" by (simp add: crumb_in_def)
  then show ?thesis by (rule In)
next
  case (3 l p c')
  then have "c = crumb_in False p l # c'" by (simp add: crumb_in_def)
  then show ?thesis by (rule In)
qed (rule Root)

lemma fork_cases: assumes "0 < bh k t" obtains a p b where "t = fork lf a p b"
proof (cases t)
  case (PNode l p r)
  then have "t = fork lf (if lf then l else r) p (if lf then r else l)" by (simp add: fork_def)
  then show ?thesis by (rule that)
qed (use assms in simp)

lemma is_tree_fork:
  "is_tree h par (fork lf a p b) \<longleftrightarrow>
     (\<exists>n. h p = Some n \<and> rb_type n = ALLOCATED \<and> rb_parent n = par \<and> near lf n = addr a \<and> near (\<not> lf) n = addr b) \<and> is_tree h p a \<and> is_tree h p b"
  by (auto simp: fork_def near_def split: option.splits)

lemma rotate_plug:
  assumes "is_tree (rb_heap s) NULL (plug (fork lf u g (fork lf y m x)) c)" "distinct (addrs (plug (fork lf u g (fork lf y m x)) c))"
    "NULL \<notin> set (addrs (plug (fork lf u g (fork lf y m x)) c))"
  shows "\<exists>s'. rotate_to lf g s = Some s' \<and> is_tree (rb_heap s') NULL (plug (fork lf (fork lf u g y) m x) c) \<and> keeps s s'
    \<and> col (rb_heap s') = col (rb_heap s) \<and> (\<forall>q. q \<notin> {up c, g, m, addr y} \<longrightarrow> rb_heap s' q = rb_heap s q)"
proof (cases lf)
  case True
  with assms rotateLeft_plug [of s u g y m x c] show ?thesis by (simp add: fork_def rotate_to_def)
next
  case False
  with assms rotateRight_plug [of s x m y g u c] show ?thesis by (simp add: fork_def rotate_to_def)
qed

section \<open>Painting nodes\<close>

definition painted :: "rbt \<Rightarrow> rbt \<Rightarrow> (rbt_ptr \<Rightarrow> int) \<Rightarrow> bool" where
  "painted s s' k \<longleftrightarrow> col (rb_heap s') = k \<and> keeps s s' \<and> (\<forall>q. map_option (set_color 0) (rb_heap s' q) = map_option (set_color 0) (rb_heap s q))"

lemma painted_refl: "painted s s (col (rb_heap s))"
  by (simp add: painted_def)

lemma paint:
  assumes "painted s s1 k" "rb_heap s p = Some n"
  shows "\<exists>s'. upd p (set_color x) s1 = Some s' \<and> painted s s' (k(p := x))"
proof -
  from same_links [of "rb_heap s1" "rb_heap s" p n] assms obtain n1 where "rb_heap s1 p = Some n1" by (auto simp: painted_def)
  from recolor [OF this, of x] assms(1) show ?thesis unfolding painted_def using keeps_trans by metis
qed

lemma painted_node:
  "painted s s' k \<Longrightarrow> rb_heap s p = Some n \<Longrightarrow>
   \<exists>n'. rb_heap s' p = Some n' \<and> rb_parent n' = rb_parent n \<and> (\<forall>lf. near lf n' = near lf n) \<and> rb_left n' = rb_left n \<and> rb_right n' = rb_right n \<and> rb_type n' = rb_type n"
proof -
  assume p: "painted s s' k" "rb_heap s p = Some n"
  then obtain n' where n': "rb_heap s' p = Some n'" "set_color 0 n' = set_color 0 n" unfolding painted_def by (metis map_option_eq_Some)
  from arg_cong [OF n'(2), of rb_parent] arg_cong [OF n'(2), of rb_left] arg_cong [OF n'(2), of rb_right] arg_cong [OF n'(2), of rb_type]
  show ?thesis using n'(1) by (simp add: near_def)
qed

lemma painted_tree: "painted s s' k \<Longrightarrow> is_tree (rb_heap s) par t \<Longrightarrow> is_tree (rb_heap s') par t"
proof (induction t arbitrary: par)
  case (PNil p)
  then obtain n where "rb_heap s p = Some n" "rb_type n = NIL" by (auto split: option.splits)
  moreover from painted_node [OF PNil(1) this(1)] obtain n' where "rb_heap s' p = Some n'" "rb_type n' = rb_type n" by blast
  ultimately show ?case by simp
next
  case (PNode l p r)
  then obtain n where "rb_heap s p = Some n" "rb_type n = ALLOCATED" "rb_parent n = par" "rb_left n = addr l" "rb_right n = addr r"
    by (auto split: option.splits)
  moreover from painted_node [OF PNode.prems(1) this(1)] obtain n' where "rb_heap s' p = Some n'" "rb_parent n' = rb_parent n"
    "rb_left n' = rb_left n" "rb_right n' = rb_right n" "rb_type n' = rb_type n" by blast
  moreover have "is_tree (rb_heap s') p l" "is_tree (rb_heap s') p r" using PNode by simp_all
  ultimately show ?case by simp
qed

section \<open>The place of a node\<close>

text \<open>\<open>n\<close> is the near child of \<open>p\<close>, and \<open>q\<close> its sibling.\<close>

definition sits :: "rbt \<Rightarrow> bool \<Rightarrow> rbt_ptr \<Rightarrow> rbt_ptr \<Rightarrow> rbt_ptr \<Rightarrow> bool" where
  "sits s lf n p q \<longleftrightarrow> n \<noteq> NULL \<and> p \<noteq> NULL \<and> q \<noteq> n \<and> (\<exists>tn. rb_heap s n = Some tn \<and> rb_parent tn = p)
     \<and> (\<exists>pn. rb_heap s p = Some pn \<and> near lf pn = n \<and> near (\<not> lf) pn = q)"

lemma sits_reads:
  assumes "sits s lf n p q"
  shows "sibling n s = Some q" "parent_of n s = Some p" "color_of p s = Some (col (rb_heap s) p)"
    "\<exists>pn. node p s = Some pn \<and> rb_color pn = col (rb_heap s) p \<and> (n = rb_left pn \<longleftrightarrow> lf) \<and> (n = rb_right pn \<longleftrightarrow> \<not> lf)"
  using assms by (auto simp: sits_def sibling_def parent_of_def node_def near_def color_of_def col_def split: if_splits)

lemma sits_painted: "sits s lf n p q \<Longrightarrow> painted s s' k \<Longrightarrow> sits s' lf n p q"
proof -
  assume "sits s lf n p q" and p: "painted s s' k"
  then obtain tn pn where *: "rb_heap s n = Some tn" "rb_heap s p = Some pn" "rb_parent tn = p" "near lf pn = n" "near (\<not> lf) pn = q"
    "n \<noteq> NULL" "p \<noteq> NULL" "q \<noteq> n" by (auto simp: sits_def)
  from painted_node [OF p *(1)] painted_node [OF p *(2)] * show ?thesis unfolding sits_def by metis
qed

lemma color_at: "rb_heap s q = Some qn \<Longrightarrow> color_of q s = Some (col (rb_heap s) q)"
  by (simp add: color_of_def node_def col_def)

lemma fork_sits:
  assumes tree: "is_tree (rb_heap s) NULL (plug (fork lf a p b) c)" and dist: "distinct (addrs (plug (fork lf a p b) c))"
    and null: "NULL \<notin> set (addrs (plug (fork lf a p b) c))" and par: "\<exists>tn. rb_heap s (addr a) = Some tn \<and> rb_parent tn = p"
  shows "sits s lf (addr a) p (addr b)"
proof -
  have "is_tree (rb_heap s) (up c) (fork lf a p b)" using tree by (simp add: is_tree_plug)
  then obtain pn where "rb_heap s p = Some pn" "near lf pn = addr a" "near (\<not> lf) pn = addr b" by (auto simp: is_tree_fork)
  moreover have "addr a \<notin> set (addrs b)" "p \<noteq> NULL" "addr a \<noteq> NULL"
    using dist null addr_neq [of NULL a] addr_mem [of a] by (auto simp: distinct_plug set_plug disjoint_iff simp del: addr_mem)
  ultimately show ?thesis using par addr_neq [of "addr a" b] by (simp add: sits_def)
qed

section \<open>The cases\<close>

text \<open>A tree that is red-black but for the near subtree of \<open>p\<close>, which lacks a black node.\<close>

definition whole :: "rbt \<Rightarrow> ptree \<Rightarrow> bool" where
  "whole s t \<longleftrightarrow> is_tree (rb_heap s) NULL t \<and> distinct (addrs t) \<and> NULL \<notin> set (addrs t)"

definition lacks :: "rbt \<Rightarrow> bool \<Rightarrow> ptree \<Rightarrow> rbt_ptr \<Rightarrow> ptree \<Rightarrow> crumb list \<Rightarrow> bool" where
  "lacks s lf a p b c \<longleftrightarrow> whole s (plug (fork lf a p b) c) \<and> (\<exists>tn. rb_heap s (addr a) = Some tn \<and> rb_parent tn = p)
     \<and> invc (col (rb_heap s)) a \<and> invh (col (rb_heap s)) a \<and> col (rb_heap s) (addr a) = BLACK
     \<and> ctx_rb (col (rb_heap s)) (crumb_in lf p b # c) (Suc (bh (col (rb_heap s)) a))"

lemma lacksD:
  assumes "lacks s lf a p b c"
  shows "is_tree (rb_heap s) NULL (plug (fork lf a p b) c)" "distinct (addrs (plug (fork lf a p b) c))" "NULL \<notin> set (addrs (plug (fork lf a p b) c))"
    "\<exists>tn. rb_heap s (addr a) = Some tn \<and> rb_parent tn = p" "invc (col (rb_heap s)) a" "invh (col (rb_heap s)) a" "col (rb_heap s) (addr a) = BLACK"
    "ctx_rb (col (rb_heap s)) (crumb_in lf p b # c) (Suc (bh (col (rb_heap s)) a))" "sits s lf (addr a) p (addr b)"
    "is_tree (rb_heap s) (up c) (fork lf a p b)"
proof -
  show *: "is_tree (rb_heap s) NULL (plug (fork lf a p b) c)" "distinct (addrs (plug (fork lf a p b) c))" "NULL \<notin> set (addrs (plug (fork lf a p b) c))"
    "\<exists>tn. rb_heap s (addr a) = Some tn \<and> rb_parent tn = p" "invc (col (rb_heap s)) a" "invh (col (rb_heap s)) a" "col (rb_heap s) (addr a) = BLACK"
    "ctx_rb (col (rb_heap s)) (crumb_in lf p b # c) (Suc (bh (col (rb_heap s)) a))"
    using assms unfolding lacks_def whole_def by blast+
  show "sits s lf (addr a) p (addr b)" by (rule fork_sits [OF *(1-4)])
  show "is_tree (rb_heap s) (up c) (fork lf a p b)" using *(1) by (simp add: is_tree_plug)
qed

lemma addrs_rotate: "addrs (plug (fork lf (fork lf u g y) m x) c) = addrs (plug (fork lf u g (fork lf y m x)) c)"
  by (simp add: addrs_plug fork_def)

lemma root_black:
  assumes "invc k d" "invh k d" "k (addr d) = RED" "distinct (addrs d)" "\<And>x. x \<in> set (addrs d) \<Longrightarrow> x \<noteq> addr d \<Longrightarrow> k' x = k x" "k' (addr d) = BLACK"
  shows "invc k' d \<and> invh k' d \<and> bh k' d = Suc (bh k d)"
proof (cases d)
  case (PNode l r m)
  have "invc k' l = invc k l \<and> bh k' l = bh k l \<and> invh k' l = invh k l" by (rule colours_cong) (use assms(4,5) PNode in auto)
  moreover have "invc k' m = invc k m \<and> bh k' m = bh k m \<and> invh k' m = invh k m" by (rule colours_cong) (use assms(4,5) PNode in auto)
  ultimately show ?thesis using assms PNode by simp
qed (use assms in simp)

lemma case6:
  assumes L: "lacks s lf a p (fork lf b q d) c" and k: "k = col (rb_heap s)" and cols: "k q = BLACK" "k (addr d) = RED"
  shows "\<exists>s'. delete_case6 (addr a) s = Some s' \<and> balanced s s' (plug (fork lf a p (fork lf b q d)) c)"
proof -
  note l = lacksD [OF L, folded k]
  have tree: "is_tree (rb_heap s) p (fork lf b q d)" "is_tree (rb_heap s) q d" using l(10) by (simp_all add: is_tree_fork)
  obtain dn where dn: "rb_heap s (addr d) = Some dn" using is_tree_dom [OF tree(2) addr_mem] by blast
  obtain pn where pn: "node p s = Some pn" "rb_color pn = k p" "addr a = rb_left pn \<longleftrightarrow> lf" using sits_reads(4) [OF l(9)] k by blast
  obtain qn where qn: "rb_heap s q = Some qn" "near (\<not> lf) qn = addr d" using tree(1) by (auto simp: is_tree_fork)
  note rd = sits_reads [OF l(9), simplified]
  from paint [OF painted_refl qn(1), of "k p"] obtain s1 where s1: "upd q (set_color (k p)) s = Some s1" "painted s s1 (k(q := k p))" unfolding k by blast
  have hp: "rb_heap s p = Some pn" using pn(1) by (simp add: node_def)
  from paint [OF s1(2) hp, of BLACK] obtain s2 where s2: "upd p (set_color BLACK) s1 = Some s2" "painted s s2 (k(q := k p, p := BLACK))" by blast
  from painted_node [OF s2(2) qn(1)] obtain sn where sn: "rb_heap s2 q = Some sn" "near (\<not> lf) sn = addr d" using qn(2) by metis
  from paint [OF s2(2) dn, of BLACK] obtain s3 where s3: "upd (addr d) (set_color BLACK) s2 = Some s3"
    "painted s s3 (k(q := k p, p := BLACK, addr d := BLACK))" by blast
  let ?k = "k(q := k p, p := BLACK, addr d := BLACK)"
  from rotate_plug [OF painted_tree [OF s3(2) l(1)] l(2,3)] obtain s4 where s4: "rotate_to lf p s3 = Some s4"
    "is_tree (rb_heap s4) NULL (plug (fork lf (fork lf a p b) q d) c)" "keeps s3 s4" "col (rb_heap s4) = ?k"
    using s3(2) unfolding painted_def by metis
  have "delete_case6 (addr a) s = Some s4"
    using rd(1,2) pn s1(1) s2(1) sn s3(1) s4(1) by (cases lf) (simp_all add: delete_case6_def node_def near_def rotate_to_def)
  moreover have "red_black ?k (plug (fork lf (fork lf a p b) q d) c)"
  proof -
    have d: "distinct (addrs (fork lf a p (fork lf b q d)))" "set (addrs (fork lf a p (fork lf b q d))) \<inter> outside c = {}" using l(2) by (simp_all only: distinct_plug)
    have sa: "invc ?k a = invc k a \<and> bh ?k a = bh k a \<and> invh ?k a = invh k a" by (rule colours_cong) (use d addr_mem [of d] in auto)
    have sb: "invc ?k b = invc k b \<and> bh ?k b = bh k b \<and> invh ?k b = invh k b" by (rule colours_cong) (use d addr_mem [of d] in auto)
    have sd: "invc ?k d \<and> invh ?k d \<and> bh ?k d = Suc (bh k d)"
      by (rule root_black [of k]) (use d cols l(8) in \<open>auto simp: bh_fork\<close>)
    have dd: "addr d \<notin> outside c" using d(2) addr_mem [of d] by (auto simp: disjoint_iff simp del: addr_mem)
    have ctx: "ctx_rb ?k c x = ctx_rb k c x" for x by (rule ctx_rb_cong) (use d dd in auto)
    have neq: "p \<noteq> q" "addr d \<noteq> p" "addr d \<noteq> q" using d addr_mem [of d] by auto
    have "c = [] \<or> up c \<in> outside c" using up_outside [of c] by blast
    then have upc: "c = [] \<or> ?k (up c) = k (up c)" using d dd by auto
    have f: "k p \<in> {RED, BLACK}" "k p = RED \<longrightarrow> c \<noteq> [] \<and> k (up c) = BLACK" "invc k b" "invh k b" "bh k b = bh k a" "bh k d = bh k a"
      "ctx_rb k c (Suc (bh k a) + of_bool (k p = BLACK))" using l(8) cols by (auto simp: bh_fork)
    have kq: "?k q = k p" "?k p = BLACK" "?k (addr d) = BLACK" using neq by simp_all
    have t: "bh ?k (fork lf a p b) = Suc (bh k a)" using sa sb f(5) kq by (simp add: bh_fork del: fun_upd_apply)
    then have T: "bh ?k (fork lf (fork lf a p b) q d) = Suc (bh k a) + of_bool (k p = BLACK)"
      using sd f(6) kq by (simp add: bh_fork del: fun_upd_apply)
    have "invc ?k (fork lf (fork lf a p b) q d)" unfolding fork_simps kq using sa sb sd f(1,3) l(5) RED_BLACK by blast
    moreover have "invh ?k (fork lf (fork lf a p b) q d)" using sa sb sd f l(6) t by (simp del: fun_upd_apply)
    moreover have "ctx_rb ?k c (bh ?k (fork lf (fork lf a p b) q d))" unfolding T ctx by (rule f(7))
    moreover have "if c = [] then ?k q = BLACK else ?k (up c) = RED \<longrightarrow> ?k q = BLACK" using upc f(1,2) unfolding kq(1) by auto
    ultimately show ?thesis unfolding red_black_plug fork_simps(1) by blast
  qed
  moreover have "keeps s s4" using s3(2) s4(3) keeps_trans unfolding painted_def by blast
  moreover have "addrs (plug (fork lf (fork lf a p b) q d) c) = addrs (plug (fork lf a p (fork lf b q d)) c)" by (rule addrs_rotate)
  ultimately show ?thesis using s4(2,4) unfolding balanced_def by metis
qed

lemma invc_col: "invc k t \<Longrightarrow> k (addr t) = RED \<or> k (addr t) = BLACK"
  by (cases t) auto

lemma invc_red: assumes "invc k t" "k (addr t) = RED" obtains a p b where "t = fork lf a p b"
proof (cases t)
  case (PNode l p r)
  then have "t = fork lf (if lf then l else r) p (if lf then r else l)" by (simp add: fork_def)
  then show ?thesis by (rule that)
qed (use assms in simp)

lemma case5_rotates:
  assumes L: "lacks s lf a p (fork lf (fork lf e r f) q d) c" and k: "k = col (rb_heap s)"
    and cols: "k q = BLACK" "k r = RED" "k (addr d) = BLACK"
  shows "\<exists>s'. delete_case5 (addr a) s = delete_case6 (addr a) s' \<and> lacks s' lf a p (fork lf e r (fork lf f q d)) c \<and> keeps s s'
    \<and> col (rb_heap s') = k(q := RED, r := BLACK)"
proof -
  note l = lacksD [OF L, folded k]
  let ?c = "crumb_in (\<not> lf) p a # c" and ?k = "k(q := RED, r := BLACK)"
  have tree: "is_tree (rb_heap s) p (fork lf (fork lf e r f) q d)" "is_tree (rb_heap s) q d" "is_tree (rb_heap s) q (fork lf e r f)"
    using l(10) by (simp_all add: is_tree_fork)
  have d: "distinct (addrs (fork lf a p (fork lf (fork lf e r f) q d)))" "set (addrs (fork lf a p (fork lf (fork lf e r f) q d))) \<inter> outside c = {}"
    using l(2) by (simp_all only: distinct_plug)
  obtain dn where dn: "rb_heap s (addr d) = Some dn" using is_tree_dom [OF tree(2) addr_mem] by blast
  obtain qn where qn: "rb_heap s q = Some qn" "near lf qn = r" "near (\<not> lf) qn = addr d" using tree(1) by (auto simp: is_tree_fork)
  obtain rn where rn: "rb_heap s r = Some rn" using tree(3) by (auto simp: is_tree_fork)
  obtain pn where pn: "node p s = Some pn" "addr a = rb_left pn \<longleftrightarrow> lf" "addr a = rb_right pn \<longleftrightarrow> \<not> lf" using sits_reads(4) [OF l(9)] by blast
  note rd = sits_reads [OF l(9), simplified]
  from paint [OF painted_refl qn(1), of RED] obtain s1 where s1: "upd q (set_color RED) s = Some s1" "painted s s1 (k(q := RED))" unfolding k by blast
  from paint [OF s1(2) rn, of BLACK] obtain s2 where s2: "upd r (set_color BLACK) s1 = Some s2" "painted s s2 ?k" by blast
  have view: "plug (fork (\<not> lf) d q (fork (\<not> lf) f r e)) ?c = plug (fork lf a p (fork lf (fork lf e r f) q d)) c"
    "plug (fork (\<not> lf) (fork (\<not> lf) d q f) r e) ?c = plug (fork lf a p (fork lf e r (fork lf f q d))) c" by (simp_all add: fork_swap)
  from rotate_plug [of s2 "\<not> lf" d q f r e ?c] painted_tree [OF s2(2) l(1)] l(2,3) obtain s3 where s3: "rotate_to (\<not> lf) q s2 = Some s3"
    "is_tree (rb_heap s3) NULL (plug (fork lf a p (fork lf e r (fork lf f q d))) c)" "keeps s2 s3" "col (rb_heap s3) = col (rb_heap s2)"
    "\<forall>x. x \<notin> {p, q, r, addr f} \<longrightarrow> rb_heap s3 x = rb_heap s2 x" unfolding view by auto
  have k3: "col (rb_heap s3) = ?k" using s3(4) s2(2) by (simp add: painted_def)
  have "delete_case5 (addr a) s = delete_case6 (addr a) s3"
    using rd(1,2) pn s1(1) s2(1) s3(1) qn cols color_at [OF dn] color_at [OF rn] color_at [OF qn(1)] k
    by (cases lf) (simp_all add: delete_case5_def colors_are_def node_def near_def rotate_to_def)
  moreover have "lacks s3 lf a p (fork lf e r (fork lf f q d)) c"
  proof -
    have na: "addr a \<notin> {p, q, r, addr f}" using d(1) addr_mem [of a] addr_mem [of f] by (auto simp: disjoint_iff simp del: addr_mem)
    obtain tn where "rb_heap s (addr a) = Some tn" "rb_parent tn = p" using l(4) by blast
    with painted_node [OF s2(2)] s3(5) na have par: "\<exists>tn. rb_heap s3 (addr a) = Some tn \<and> rb_parent tn = p" by metis
    have same: "invc ?k v = invc k v \<and> bh ?k v = bh k v \<and> invh ?k v = invh k v" if "v \<in> {a, e, f, d}" for v
      by (rule colours_cong) (use d(1) that in auto)
    have ctx: "ctx_rb ?k c x = ctx_rb k c x" for x by (rule ctx_rb_cong) (use d in auto)
    have "c = [] \<or> up c \<in> outside c" using up_outside [of c] by blast
    then have upc: "c = [] \<or> ?k (up c) = k (up c)" using d by auto
    have neq: "q \<noteq> r" "p \<noteq> q" "p \<noteq> r" "addr a \<noteq> q" "addr a \<noteq> r" "addr f \<noteq> q" "addr f \<noteq> r" "addr d \<noteq> q" "addr d \<noteq> r" 
      using d(1) na addr_neq [of _ f] addr_neq [of _ d] by auto
    have old: "k p \<in> {RED, BLACK}" "k p = RED \<longrightarrow> c \<noteq> [] \<and> k (up c) = BLACK" "k (addr f) = BLACK" "invc k e" "invc k f" "invc k d"
      "invh k e" "invh k f" "invh k d" "bh k e = bh k a" "bh k f = bh k a" "bh k d = bh k a" "ctx_rb k c (Suc (bh k a) + of_bool (k p = BLACK))"
      using l(8) cols by (auto simp: bh_fork)
    have kv: "?k q = RED" "?k r = BLACK" "?k p = k p" "?k (addr f) = BLACK" "?k (addr d) = BLACK" "?k (addr a) = BLACK"
      using neq old(3) cols(3) l(7) by simp_all
    have "bh ?k (fork lf f q d) = bh k a" using same [of f] same [of d] old kv by (simp add: bh_fork del: fun_upd_apply)
    moreover from this have "bh ?k (fork lf e r (fork lf f q d)) = Suc (bh k a)"
      using same [of e] old kv by (simp add: bh_fork del: fun_upd_apply)
    ultimately have "ctx_rb ?k (crumb_in lf p (fork lf e r (fork lf f q d)) # c) (Suc (bh ?k a))"
      using same old kv ctx upc by (auto simp del: fun_upd_apply)
    moreover have "distinct (addrs (plug (fork lf a p (fork lf e r (fork lf f q d))) c))" "NULL \<notin> set (addrs (plug (fork lf a p (fork lf e r (fork lf f q d))) c))"
      using l(2,3) by (auto simp: distinct_plug set_plug)
    ultimately show ?thesis unfolding lacks_def whole_def k3 using s3(2) par same [of a] l(5,6) kv(6) by simp
  qed
  moreover have "keeps s s3" using s2(2) s3(3) keeps_trans unfolding painted_def by blast
  ultimately show ?thesis using k3 by blast
qed

lemma case5:
  assumes L: "lacks s lf a p (fork lf b q d) c" and k: "k = col (rb_heap s)" and cols: "k q = BLACK" "\<not> (k (addr b) = BLACK \<and> k (addr d) = BLACK)"
  shows "\<exists>s'. delete_case5 (addr a) s = Some s' \<and> balanced s s' (plug (fork lf a p (fork lf b q d)) c)"
proof -
  note l = lacksD [OF L, folded k]
  have tree: "is_tree (rb_heap s) p (fork lf b q d)" "is_tree (rb_heap s) q d" "is_tree (rb_heap s) q b"
    using l(10) by (simp_all add: is_tree_fork)
  obtain dn where dn: "rb_heap s (addr d) = Some dn" using is_tree_dom [OF tree(2) addr_mem] by blast
  obtain qn where qn: "rb_heap s q = Some qn" "near lf qn = addr b" "near (\<not> lf) qn = addr d" using tree(1) by (auto simp: is_tree_fork)
  obtain pn where pn: "node p s = Some pn" "addr a = rb_left pn \<longleftrightarrow> lf" "addr a = rb_right pn \<longleftrightarrow> \<not> lf" using sits_reads(4) [OF l(9)] by blast
  note rd = sits_reads [OF l(9), simplified]
  consider "k (addr d) = RED" | "k (addr d) = BLACK" "k (addr b) = RED" using l(8) cols(2) invc_col [of k d] invc_col [of k b] by auto
  then show ?thesis
  proof cases
    case 1
    have "delete_case5 (addr a) s = delete_case6 (addr a) s"
      using rd(1,2) pn qn 1 color_at [OF dn] color_at [OF qn(1)] k cols(1)
      by (cases lf) (simp_all add: delete_case5_def colors_are_def node_def near_def)
    with case6 [OF L k cols(1) 1] show ?thesis by simp
  next
    case 2
    have "invc k b" using l(8) by simp
    then obtain e r f where b: "b = fork lf e r f" using 2(2) by (rule invc_red)
    with 2(2) have "k r = RED" by simp
    from case5_rotates [OF L [unfolded b] k cols(1) this 2(1)] obtain s1 where
      s1: "delete_case5 (addr a) s = delete_case6 (addr a) s1" "lacks s1 lf a p (fork lf e r (fork lf f q d)) c" "keeps s s1"
        "col (rb_heap s1) = k(q := RED, r := BLACK)" by blast
    have "q \<noteq> r" using l(2) b by (auto simp: distinct_plug)
    with case6 [OF s1(2) refl] s1(4) obtain s' where
      "delete_case6 (addr a) s1 = Some s'" "balanced s1 s' (plug (fork lf a p (fork lf e r (fork lf f q d))) c)" by auto
    moreover have "addrs (plug (fork lf a p (fork lf e r (fork lf f q d))) c) = addrs (plug (fork lf a p (fork lf b q d)) c)"
      using b by (simp add: addrs_plug fork_def)
    ultimately show ?thesis using s1(1) balanced_trans [OF s1(3)] by auto
  qed
qed

lemma black_children_fork:
  "is_tree (rb_heap s) par (fork lf b q d) \<Longrightarrow> black_children q s = Some (col (rb_heap s) (addr b) = BLACK \<and> col (rb_heap s) (addr d) = BLACK)"
proof -
  assume tree: "is_tree (rb_heap s) par (fork lf b q d)"
  then obtain qn where qn: "rb_heap s q = Some qn" "near lf qn = addr b" "near (\<not> lf) qn = addr d" by (auto simp: is_tree_fork)
  from tree have "is_tree (rb_heap s) q b" "is_tree (rb_heap s) q d" by (simp_all add: is_tree_fork)
  then obtain bn dn where "rb_heap s (addr b) = Some bn" "rb_heap s (addr d) = Some dn" using is_tree_dom [OF _ addr_mem] by metis
  with qn show ?thesis by (cases lf) (auto simp: black_children_def node_def near_def colors_are_def color_at)
qed

text \<open>The sibling alone becomes red: the two subtrees have the same black height again.\<close>

lemma sibling_red:
  assumes L: "lacks s lf a p (fork lf b q d) c" and k: "k = col (rb_heap s)"
    and cols: "k q = BLACK" "k (addr b) = BLACK" "k (addr d) = BLACK" and k': "k' = k(q := RED, p := BLACK)"
  shows "invc k' (fork lf a p (fork lf b q d)) \<and> invh k' (fork lf a p (fork lf b q d)) \<and> bh k' (fork lf a p (fork lf b q d)) = Suc (bh k a)
    \<and> ctx_rb k' c (Suc (bh k a) + of_bool (k p = BLACK)) \<and> (c = [] \<or> k' (up c) = k (up c))"
proof -
  note l = lacksD [OF L, folded k]
  have d: "distinct (addrs (fork lf a p (fork lf b q d)))" "set (addrs (fork lf a p (fork lf b q d))) \<inter> outside c = {}"
    using l(2) by (simp_all only: distinct_plug)
  have same: "invc k' v = invc k v \<and> bh k' v = bh k v \<and> invh k' v = invh k v" if "v \<in> {a, b, d}" for v
    by (rule colours_cong) (use d(1) that k' in auto)
  have ctx: "ctx_rb k' c x = ctx_rb k c x" for x by (rule ctx_rb_cong) (use d k' in auto)
  have "c = [] \<or> up c \<in> outside c" using up_outside [of c] by blast
  then have upc: "c = [] \<or> k' (up c) = k (up c)" using d k' by auto
  have old: "invc k b" "invc k d" "invh k b" "invh k d" "bh k b = bh k a" "bh k d = bh k a" "ctx_rb k c (Suc (bh k a) + of_bool (k p = BLACK))"
    using l(8) cols by (auto simp: bh_fork)
  have kv: "k' q = RED" "k' p = BLACK" "k' (addr b) = BLACK" "k' (addr d) = BLACK"
    using d(1) cols k' addr_neq [of _ b] addr_neq [of _ d] by auto
  have far: "bh k' (fork lf b q d) = bh k a" using same [of b] same [of d] old kv by (simp add: bh_fork)
  then have "bh k' (fork lf a p (fork lf b q d)) = Suc (bh k a)" using same [of a] kv by (simp add: bh_fork)
  then show ?thesis using same old kv ctx upc far l(5,6) by auto
qed

lemma case4:
  assumes L: "lacks s lf a p (fork lf b q d) c" and k: "k = col (rb_heap s)" and cols: "k q = BLACK"
    and red: "k p = RED \<or> \<not> (k (addr b) = BLACK \<and> k (addr d) = BLACK)"
  shows "\<exists>s'. delete_case4 (addr a) s = Some s' \<and> balanced s s' (plug (fork lf a p (fork lf b q d)) c)"
proof -
  note l = lacksD [OF L, folded k]
  have tree: "is_tree (rb_heap s) p (fork lf b q d)" using l(10) by (simp add: is_tree_fork)
  then obtain qn where qn: "rb_heap s q = Some qn" by (auto simp: is_tree_fork)
  obtain pn where pn: "rb_heap s p = Some pn" using l(10) by (auto simp: is_tree_fork)
  note rd = sits_reads [OF l(9), simplified, folded k] and ch = black_children_fork [OF tree, folded k]
  show ?thesis
  proof (cases "k (addr b) = BLACK \<and> k (addr d) = BLACK")
    case True
    with red have p: "k p = RED" by simp
    let ?k = "k(q := RED, p := BLACK)"
    from paint [OF painted_refl qn(1), of RED] obtain s1 where s1: "upd q (set_color RED) s = Some s1" "painted s s1 (k(q := RED))" unfolding k by blast
    from paint [OF s1(2) pn, of BLACK] obtain s2 where s2: "upd p (set_color BLACK) s1 = Some s2" "painted s s2 ?k" by blast
    have "delete_case4 (addr a) s = Some s2"
      using rd(1-3) p True ch color_at [OF qn] k cols s1(1) s2(1) by (simp add: delete_case4_def)
    moreover have "red_black ?k (plug (fork lf a p (fork lf b q d)) c)"
      unfolding red_black_plug using sibling_red [OF L k cols _ _ refl] True p by auto
    ultimately show ?thesis using painted_tree [OF s2(2) l(1)] s2(2) unfolding balanced_def painted_def by metis
  next
    case False
    then have "delete_case4 (addr a) s = delete_case5 (addr a) s"
      using rd(1-3) ch color_at [OF qn] k cols by (auto simp: delete_case4_def)
    with case5 [OF L k cols False] show ?thesis by simp
  qed
qed

text \<open>The subtree lacks a black node, wherever it is.\<close>

definition deficit :: "rbt \<Rightarrow> ptree \<Rightarrow> crumb list \<Rightarrow> bool" where
  "deficit s t c \<longleftrightarrow> whole s (plug t c) \<and> (\<exists>tn. rb_heap s (addr t) = Some tn \<and> rb_parent tn = up c)
     \<and> invc (col (rb_heap s)) t \<and> invh (col (rb_heap s)) t \<and> col (rb_heap s) (addr t) = BLACK
     \<and> ctx_rb (col (rb_heap s)) c (Suc (bh (col (rb_heap s)) t))"

lemma deficit_lacks: "deficit s a (crumb_in lf p b # c) \<longleftrightarrow> lacks s lf a p b c"
  by (simp add: deficit_def lacks_def)

lemma case3:
  assumes L: "lacks s lf a p (fork lf b q d) c" and k: "k = col (rb_heap s)" and cols: "k q = BLACK"
    and IH: "\<forall>s t. k p = BLACK \<longrightarrow> deficit s t c \<longrightarrow> (\<exists>s'. delete_case1 fuel (addr t) s = Some s' \<and> balanced s s' (plug t c))"
  shows "\<exists>s'. delete_case3 (Suc fuel) (addr a) s = Some s' \<and> balanced s s' (plug (fork lf a p (fork lf b q d)) c)"
proof -
  note l = lacksD [OF L, folded k]
  let ?t = "fork lf a p (fork lf b q d)"
  have tree: "is_tree (rb_heap s) p (fork lf b q d)" using l(10) by (simp add: is_tree_fork)
  then obtain qn where qn: "rb_heap s q = Some qn" by (auto simp: is_tree_fork)
  note rd = sits_reads [OF l(9), simplified, folded k] and ch = black_children_fork [OF tree, folded k]
  show ?thesis
  proof (cases "k p = BLACK \<and> k (addr b) = BLACK \<and> k (addr d) = BLACK")
    case True
    from paint [OF painted_refl qn, of RED] obtain s1 where s1: "upd q (set_color RED) s = Some s1" "painted s s1 (k(q := RED))" unfolding k by blast
    have "q \<noteq> p" using l(2) by (auto simp: distinct_plug)
    then have k1: "col (rb_heap s1) = k(q := RED, p := BLACK)" using s1(2) True by (auto simp: painted_def)
    have step: "delete_case3 (Suc fuel) (addr a) s = delete_case1 fuel p s1"
      using rd(1-3) True ch color_at [OF qn] k cols s1(1) by simp
    have up: "is_tree (rb_heap s1) (up c) ?t" using painted_tree [OF s1(2)] l(10) by blast
    have red: "invc (col (rb_heap s1)) ?t" "invh (col (rb_heap s1)) ?t" "bh (col (rb_heap s1)) ?t = Suc (bh k a)"
      "ctx_rb (col (rb_heap s1)) c (Suc (bh k a) + of_bool (k p = BLACK))"
      using sibling_red [OF L k cols _ _ k1] True by blast+
    have par: "\<exists>tn. rb_heap s1 p = Some tn \<and> rb_parent tn = up c" using up by (auto simp: is_tree_fork)
    have kp: "col (rb_heap s1) p = BLACK" using k1 by simp
    have "deficit s1 ?t c"
      unfolding deficit_def whole_def fork_simps(1) using painted_tree [OF s1(2) l(1)] l(2,3) par red kp True by simp
    with IH True obtain s' where "delete_case1 fuel p s1 = Some s'" "balanced s1 s' (plug ?t c)" by fastforce
    moreover have "keeps s s1" using s1(2) by (simp add: painted_def)
    ultimately show ?thesis using step balanced_trans [of s s1] by auto
  next
    case False
    then have "delete_case3 (Suc fuel) (addr a) s = delete_case4 (addr a) s"
      using rd(1-3) ch color_at [OF qn] k cols by auto
    moreover have "k p = RED \<or> \<not> (k (addr b) = BLACK \<and> k (addr d) = BLACK)" using False l(8) by auto
    ultimately show ?thesis using case4 [OF L k cols] by simp
  qed
qed

text \<open>A red sibling: one rotation, after which the parent is red and the sibling black.\<close>

lemma case2_rotates:
  assumes L: "lacks s lf a p (fork lf b q d) c" and k: "k = col (rb_heap s)" and cols: "k q = RED"
  shows "\<exists>s'. delete_case2 (Suc fuel) (addr a) s = delete_case3 fuel (addr a) s' \<and> lacks s' lf a p b (crumb_in lf q d # c) \<and> keeps s s'
    \<and> col (rb_heap s') = k(p := RED, q := BLACK) \<and> k (addr b) = BLACK \<and> bh (col (rb_heap s')) b = Suc (bh k a)"
proof -
  note l = lacksD [OF L, folded k]
  let ?k = "k(p := RED, q := BLACK)"
  have tree: "is_tree (rb_heap s) p (fork lf b q d)" using l(10) by (simp add: is_tree_fork)
  have d: "distinct (addrs (fork lf a p (fork lf b q d)))" "set (addrs (fork lf a p (fork lf b q d))) \<inter> outside c = {}"
    using l(2) by (simp_all only: distinct_plug)
  obtain qn where qn: "rb_heap s q = Some qn" using tree by (auto simp: is_tree_fork)
  obtain pn where pn: "rb_heap s p = Some pn" "near lf pn = addr a" "near (\<not> lf) pn = q" using l(10) by (auto simp: is_tree_fork)
  note rd = sits_reads [OF l(9), simplified, folded k]
  from paint [OF painted_refl pn(1), of RED] obtain s1 where s1: "upd p (set_color RED) s = Some s1" "painted s s1 (k(p := RED))" unfolding k by blast
  from paint [OF s1(2) qn, of BLACK] obtain s2 where s2: "upd q (set_color BLACK) s1 = Some s2" "painted s s2 ?k" by blast
  from sits_reads(4) [OF sits_painted [OF l(9) s2(2)]] obtain pn2 where pn2: "node p s2 = Some pn2" "addr a = rb_left pn2 \<longleftrightarrow> lf" by blast
  from rotate_plug [OF painted_tree [OF s2(2) l(1)] l(2,3)] obtain s3 where s3: "rotate_to lf p s2 = Some s3"
    "is_tree (rb_heap s3) NULL (plug (fork lf (fork lf a p b) q d) c)" "keeps s2 s3" "col (rb_heap s3) = col (rb_heap s2)"
    "\<forall>x. x \<notin> {up c, p, q, addr b} \<longrightarrow> rb_heap s3 x = rb_heap s2 x" by blast
  have k3: "col (rb_heap s3) = ?k" using s3(4) s2(2) by (simp add: painted_def)
  have "delete_case2 (Suc fuel) (addr a) s = delete_case3 fuel (addr a) s3"
    using rd(1,2) s1(1) s2(1) s3(1) pn2 cols k color_at [OF qn] by (cases lf) (simp_all add: rotate_to_def)
  moreover have old: "k p = BLACK" "k (addr b) = BLACK" "k (addr d) = BLACK" "invc k b" "invc k d" "invh k b" "invh k d" "bh k b = Suc (bh k a)" "bh k d = Suc (bh k a)"
    "ctx_rb k c (Suc (Suc (bh k a)))" using l(8) cols by (auto simp: bh_fork)
  have same: "invc ?k v = invc k v \<and> bh ?k v = bh k v \<and> invh ?k v = invh k v" if "v \<in> {a, b, d}" for v
    by (rule colours_cong) (use d(1) that in auto)
  moreover have "lacks s3 lf a p b (crumb_in lf q d # c)"
  proof -
    have "up c \<notin> set (addrs (fork lf a p (fork lf b q d)))" by (rule up_notin [OF l(2,3)])
    then have na: "addr a \<notin> {up c, p, q, addr b}" using d(1) addr_mem [of a] addr_mem [of b] by (auto simp: disjoint_iff simp del: addr_mem)
    obtain tn where "rb_heap s (addr a) = Some tn" "rb_parent tn = p" using l(4) by blast
    with painted_node [OF s2(2)] s3(5) na have par: "\<exists>tn. rb_heap s3 (addr a) = Some tn \<and> rb_parent tn = p" by metis
    have ctx: "ctx_rb ?k c x = ctx_rb k c x" for x by (rule ctx_rb_cong) (use d in auto)
    have neq: "addr a \<noteq> p" "addr a \<noteq> q" "addr b \<noteq> p" "addr b \<noteq> q" "addr d \<noteq> p" "addr d \<noteq> q" "p \<noteq> q"
      using d(1) na addr_neq [of _ b] addr_neq [of _ d] by auto
    have kv: "?k p = RED" "?k q = BLACK" "?k (addr a) = BLACK" "?k (addr b) = BLACK" "?k (addr d) = BLACK"
      using neq old(2,3) l(7) by simp_all
    have "ctx_rb ?k (crumb_in lf p b # crumb_in lf q d # c) (Suc (bh ?k a))"
      using same old kv ctx by (simp del: fun_upd_apply)
    moreover have "distinct (addrs (plug (fork lf a p b) (crumb_in lf q d # c)))" "NULL \<notin> set (addrs (plug (fork lf a p b) (crumb_in lf q d # c)))"
      using l(2,3) by (auto simp: distinct_plug set_plug)
    ultimately show ?thesis unfolding lacks_def whole_def k3 using s3(2) par same [of a] l(5,6) kv(3) by simp
  qed
  moreover have "keeps s s3" using s2(2) s3(3) keeps_trans unfolding painted_def by blast
  ultimately show ?thesis using k3 old(2,8) same [of b] by auto
qed

lemma case2:
  assumes L: "lacks s lf a p B c"
    and IH: "\<forall>s t. deficit s t c \<longrightarrow> (\<exists>s'. delete_case1 fuel (addr t) s = Some s' \<and> balanced s s' (plug t c))"
  shows "\<exists>s'. delete_case2 (Suc (Suc fuel)) (addr a) s = Some s' \<and> balanced s s' (plug (fork lf a p B) c)"
proof -
  define k where "k = col (rb_heap s)"
  note l = lacksD [OF L, folded k_def]
  have "0 < bh k B" using l(8) by simp
  then obtain b q d where B: "B = fork lf b q d" by (rule fork_cases)
  note L' = L [unfolded B]
  have tree: "is_tree (rb_heap s) p (fork lf b q d)" using l(10) B by (simp add: is_tree_fork)
  obtain qn where qn: "rb_heap s q = Some qn" using tree by (auto simp: is_tree_fork)
  consider "k q = BLACK" | "k q = RED" using l(8) B by auto
  then show ?thesis
  proof cases
    case 1
    then have "delete_case2 (Suc (Suc fuel)) (addr a) s = delete_case3 (Suc fuel) (addr a) s"
      using sits_reads(1) [OF l(9)] B color_at [OF qn] k_def by (simp del: delete_case3.simps)
    with case3 [OF L' k_def 1, of fuel] IH B show ?thesis by simp
  next
    case 2
    from case2_rotates [OF L' k_def 2, of "Suc fuel"] obtain s1 where
      s1: "delete_case2 (Suc (Suc fuel)) (addr a) s = delete_case3 (Suc fuel) (addr a) s1" "lacks s1 lf a p b (crumb_in lf q d # c)" "keeps s s1"
        "col (rb_heap s1) = k(p := RED, q := BLACK)" "k (addr b) = BLACK" "bh (col (rb_heap s1)) b = Suc (bh k a)" by blast
    from s1(6) have "0 < bh (col (rb_heap s1)) b" by simp
    then obtain e r f where b: "b = fork lf e r f" by (rule fork_cases)
    have "r \<noteq> p" "r \<noteq> q" "p \<noteq> q" using l(2) B b by (auto simp: distinct_plug)
    then have "col (rb_heap s1) r = BLACK" "col (rb_heap s1) p = RED" using s1(4,5) b by simp_all
    with case3 [OF s1(2) [unfolded b] refl, of fuel] obtain s' where
      s': "delete_case3 (Suc fuel) (addr a) s1 = Some s'" "balanced s1 s' (plug (fork lf a p b) (crumb_in lf q d # c))" using b by auto
    have "addrs (plug (fork lf a p b) (crumb_in lf q d # c)) = addrs (plug (fork lf a p B) c)"
      using B by (simp add: addrs_plug fork_def)
    with s1(1,3) s' balanced_trans show ?thesis by metis
  qed
qed

lemma case1:
  "deficit s t c \<Longrightarrow> 3 * length c < fuel \<Longrightarrow> \<exists>s'. delete_case1 fuel (addr t) s = Some s' \<and> balanced s s' (plug t c)"
proof (induction c arbitrary: s t fuel rule: length_induct)
  case (1 c)
  obtain f where f: "fuel = Suc f" using 1(3) by (cases fuel) auto
  show ?case
  proof (cases c rule: crumb_cases)
    case Root
    with 1(2) have "delete_case1 fuel (addr t) s = Some s" "red_black (col (rb_heap s)) t" "is_tree (rb_heap s) NULL t"
      using f by (auto simp: deficit_def whole_def parent_of_def node_def red_black_def)
    with Root show ?thesis by (auto simp: balanced_def)
  next
    case (In lf p b c')
    then have L: "lacks s lf t p b c'" using 1(2) by (simp add: deficit_lacks)
    have "length c = Suc (length c')" using In by simp
    then have g: "f = Suc (Suc (f - 2))" "3 * length c' < f - 2" using 1(3) f by arith+
    then obtain g where g: "f = Suc (Suc g)" "3 * length c' < g" by blast
    have "\<forall>s t. deficit s t c' \<longrightarrow> (\<exists>s'. delete_case1 g (addr t) s = Some s' \<and> balanced s s' (plug t c'))"
      using 1(1) In g(2) by simp
    from case2 [OF L this] obtain s' where "delete_case2 f (addr t) s = Some s'" "balanced s s' (plug (fork lf t p b) c')" using g(1) by blast
    moreover have "p \<noteq> NULL" "parent_of (addr t) s = Some p" using lacksD(9) [OF L] sits_reads(2) by (auto simp: sits_def)
    ultimately show ?thesis using f In by (simp del: delete_case2.simps)
  qed
qed

end
