(* ===== verification/RbtUnlink.thy ===== *)
theory RbtUnlink
  imports RbtDeleteCases
begin

text \<open>
  \<open>deleteNode\<close> of \<open>src/hw4/hw4_redblacktree.c\<close> at any node of a red-black search tree: a node with two children takes over the task of its
  predecessor, which is unlinked in its place; the child of the unlinked node moves up, and the cases of the rebalancing follow when a
  black node was lost.
\<close>

section \<open>Unlinking a node\<close>

text \<open>The second half of \<open>deleteNode\<close>: the pointers around the node, then the colours.\<close>

definition relink :: "rbt_ptr \<Rightarrow> rbt_ptr \<Rightarrow> rbtnode \<Rightarrow> rbt \<Rightarrow> rbt option" where
  "relink d child dn s =
     (if rb_parent dn = NULL then do {
        s \<leftarrow> upd child (set_parent NULL) s;
        Some (s\<lparr>rb_root := child\<rparr>)
      }
      else do {
        pn \<leftarrow> node (rb_parent dn) s;
        s \<leftarrow> (if rb_left pn = d then upd (rb_parent dn) (set_left child) s else upd (rb_parent dn) (set_right child) s);
        upd child (set_parent (rb_parent dn)) s
      })"

definition unlink :: "nat \<Rightarrow> rbt_ptr \<Rightarrow> rbt \<Rightarrow> rbt option" where
  "unlink fuel d s = do {
     dn \<leftarrow> node d s;
     rl \<leftarrow> isLeaf (rb_right dn) s;
     let child = (if rl then rb_left dn else rb_right dn);
     s \<leftarrow> relink d child dn s;
     dn \<leftarrow> node d s;
     cc \<leftarrow> color_of child s;
     s \<leftarrow> (if rb_color dn = BLACK then (if cc = RED then upd child (set_color BLACK) s else delete_case1 fuel child s) else Some s);
     upd d (\<lambda>n. n\<lparr>rb_right := NULL, rb_left := NULL, rb_type := NIL\<rparr>) s
   }"

lemma deleteNode_inner:
  assumes "rb_heap s p = Some n" "rb_heap s (rb_right n) = Some rn" "rb_heap s (rb_left n) = Some ln" "\<not> (rb_type rn = NIL \<and> rb_type ln = NIL)"
  shows "deleteNode fuel p s = do {
      (d, s) \<leftarrow>
         (if rb_type rn = ALLOCATED \<and> rb_type ln = ALLOCATED then do {
            d \<leftarrow> getMaximum fuel (rb_left n) s;
            dn \<leftarrow> node d s;
            s' \<leftarrow> upd d (\<lambda>m. m\<lparr>rb_value := rb_value n\<rparr>) s;
            s' \<leftarrow> upd d (\<lambda>m. m\<lparr>rb_value := rb_pid n\<rparr>) s';
            s' \<leftarrow> upd p (\<lambda>m. m\<lparr>rb_value := rb_value dn, rb_pid := rb_pid dn\<rparr>) s';
            Some (d, s')
          }
          else Some (p, s));
      unlink fuel d s }"
  using assms by (cases "rb_type rn = NIL"; cases "rb_type ln = NIL") (simp_all add: deleteNode_def unlink_def relink_def node_def)

lemma is_tree_without: assumes "is_tree h par t" "m \<notin> set (addrs t)" shows "is_tree (h(m \<mapsto> n)) par t"
proof -
  have "is_tree (h(m \<mapsto> n)) par t = is_tree h par t" by (rule is_tree_cong) (use assms(2) in auto)
  with assms(1) show ?thesis by simp
qed

lemma red_black_without: assumes "red_black (col h) t" "m \<notin> set (addrs t)" shows "red_black (col (h(m \<mapsto> n))) t"
proof -
  have "col (h(m \<mapsto> n)) q = col h q" if "q \<in> set (addrs t)" for q using that assms(2) by (auto simp: col_def)
  then show ?thesis using colours_cong [of t "col (h(m \<mapsto> n))" "col h"] assms(1) by (simp add: red_black_def)
qed

lemma relink_ok:
  assumes w: "whole s (plug (PNode l m r) c)" and u: "u = l \<or> u = r" and m: "rb_heap s m = Some mn"
  shows "\<exists>s'. relink m (addr u) mn s = Some s' \<and> whole s' (plug u c) \<and> core (rb_heap s') = core (rb_heap s) \<and> col (rb_heap s') = col (rb_heap s)
    \<and> rb_fresh s' = rb_fresh s \<and> rb_root s' = (if c = [] then addr u else rb_root s) \<and> rb_heap s' m = Some mn
    \<and> (\<exists>un. rb_heap s' (addr u) = Some un \<and> rb_parent un = up c)"
proof -
  let ?h = "rb_heap s" and ?T = "PNode l m r"
  have t: "is_tree ?h NULL (plug ?T c)" "distinct (addrs (plug ?T c))" "NULL \<notin> set (addrs (plug ?T c))" using w by (simp_all add: whole_def)
  have sub: "is_tree ?h (up c) ?T" "ctx_ok ?h c m" using t(1) by (simp_all add: is_tree_plug)
  have par: "rb_parent mn = up c" "is_tree ?h m u" using sub(1) m u by auto
  obtain un where un: "?h (addr u) = Some un" using is_tree_dom [OF par(2) addr_mem] by blast
  have d: "distinct (addrs u)" "m \<notin> set (addrs u)" "up c \<notin> set (addrs u)" "up c \<noteq> m" "addr u \<noteq> m" "addr u \<noteq> up c"
    using t(2) u up_notin [OF t(2,3)] addr_neq [of _ u] by (auto simp: distinct_plug)
  have upc: "up c = NULL \<longleftrightarrow> c = []" using up_outside [of c] t(3) by (cases "c = []") (auto simp: set_plug)
  have plug: "distinct (addrs (plug u c))" "NULL \<notin> set (addrs (plug u c))" using t(2,3) u by (auto simp: distinct_plug set_plug)
  show ?thesis
  proof (cases "c = []")
    case True
    let ?h' = "?h(addr u \<mapsto> un\<lparr>rb_parent := NULL\<rparr>)" and ?s = "s\<lparr>rb_heap := ?h(addr u \<mapsto> un\<lparr>rb_parent := NULL\<rparr>), rb_root := addr u\<rparr>"
    have "relink m (addr u) mn s = Some ?s" using par(1) upc un True by (simp add: relink_def upd_def)
    moreover have "is_tree ?h' NULL u" by (rule reparent [OF par(2) d(1) un])
    moreover have "core ?h' = core ?h" "col ?h' = col ?h" using un by (auto simp: core_def col_def fun_eq_iff)
    ultimately show ?thesis using True m d(5) plug by (intro exI [of _ ?s]) (simp add: whole_def)
  next
    case False
    have "\<exists>pn. ?h (up c) = Some pn" using False sub(2) by (cases c rule: up.cases) (auto split: option.splits)
    then obtain pn where pn: "?h (up c) = Some pn" by blast
    define pn' where "pn' = (if rb_left pn = m then pn\<lparr>rb_left := addr u\<rparr> else pn\<lparr>rb_right := addr u\<rparr>)"
    let ?h1 = "?h(up c \<mapsto> pn')"
    let ?h' = "?h1(addr u \<mapsto> un\<lparr>rb_parent := up c\<rparr>)"
    let ?s = "s\<lparr>rb_heap := ?h'\<rparr>"
    have "relink m (addr u) mn s = Some ?s"
      using par(1) upc un pn d False by (simp add: relink_def upd_def node_def pn'_def)
    moreover have "is_tree ?h1 m u" by (rule is_tree_without [OF par(2) d(3)])
    then have "is_tree ?h' (up c) u" by (rule reparent) (use d un in simp_all)
    then have "is_tree ?h' NULL (plug u c)"
    proof (rule replug [OF t])
      show "\<forall>q. q \<noteq> up c \<longrightarrow> q \<notin> set (addrs ?T) \<longrightarrow> ?h' q = ?h q" using u addr_mem [of u] by (auto simp del: addr_mem)
    qed (use pn d in \<open>simp add: pn'_def\<close>)
    moreover have "core ?h' = core ?h" "col ?h' = col ?h" using un pn d by (auto simp: core_def col_def fun_eq_iff pn'_def)
    ultimately show ?thesis using False m d plug by (intro exI [of _ ?s]) (simp add: whole_def)
  qed
qed

text \<open>A node with a nil child, and the subtree at the other.\<close>

lemma unlink_ok:
  assumes w: "whole s (plug (PNode l m r) c)" and rb: "red_black (col (rb_heap s)) (plug (PNode l m r) c)"
    and u: "(\<exists>z. r = PNil z) \<and> u = l \<or> (\<exists>z. l = PNil z) \<and> (\<nexists>z. r = PNil z) \<and> u = r" and fuel: "3 * length c < fuel"
  shows "\<exists>s' t'. unlink fuel m s = Some s' \<and> whole s' t' \<and> addrs t' = addrs (plug u c) \<and> red_black (col (rb_heap s')) t'
    \<and> (\<forall>x. x \<noteq> m \<longrightarrow> core (rb_heap s') x = core (rb_heap s) x) \<and> rb_fresh s' = rb_fresh s \<and> rb_root s' = (if c = [] then addr u else rb_root s)"
proof -
  define k where "k = col (rb_heap s)"
  have tr: "is_tree (rb_heap s) (up c) (PNode l m r)" "distinct (addrs (plug (PNode l m r) c))" using w by (simp_all add: whole_def is_tree_plug)
  then obtain mn where mn: "rb_heap s m = Some mn" "rb_left mn = addr l" "rb_right mn = addr r" by (auto split: option.splits)
  have leaf: "isLeaf (rb_right mn) s = Some (\<exists>z. r = PNil z)" using tr(1) mn(3) by (cases r) (auto simp: isLeaf_def node_def split: option.splits)
  have child: "(if \<exists>z. r = PNil z then rb_left mn else rb_right mn) = addr u" using u mn by auto
  have "u = l \<or> u = r" using u by blast
  from relink_ok [OF w this mn(1)] obtain s1 where s1: "relink m (addr u) mn s = Some s1" "whole s1 (plug u c)" "core (rb_heap s1) = core (rb_heap s)"
    "col (rb_heap s1) = k" "rb_fresh s1 = rb_fresh s" "rb_root s1 = (if c = [] then addr u else rb_root s)" "rb_heap s1 m = Some mn"
    "\<exists>un. rb_heap s1 (addr u) = Some un \<and> rb_parent un = up c" unfolding k_def by blast
  then obtain un where un: "rb_heap s1 (addr u) = Some un" "rb_parent un = up c" by blast
  have out: "m \<notin> set (addrs (plug u c))" using tr(2) u by (auto simp: distinct_plug set_plug)
  have rk: "invc k u" "invh k u" "bh k u = 0 \<or> k (addr u) = RED" "bh k u = 0" "ctx_rb k c (of_bool (k m = BLACK))" "k m = RED \<or> k m = BLACK" "k m = RED \<longrightarrow> k (addr u) = BLACK"
    using rb u unfolding red_black_plug k_def [symmetric] by auto
  have colm: "rb_color mn = k m" using mn(1) by (simp add: k_def col_def)
  define s2 where "s2 = (if k m = BLACK then (if k (addr u) = RED then upd (addr u) (set_color BLACK) s1 else delete_case1 fuel (addr u) s1) else Some s1)"
  have step: "unlink fuel m s = Option.bind s2 (upd m (\<lambda>n. n\<lparr>rb_right := NULL, rb_left := NULL, rb_type := NIL\<rparr>))"
    using mn(1) leaf child s1(1,4,7) colm color_at [OF un(1)] by (simp add: unlink_def node_def s2_def del: delete_case1.simps)
  have "\<exists>s'. s2 = Some s' \<and> balanced s1 s' (plug u c)"
  proof -
    consider (red) "k m = RED" | (child) "k m = BLACK" "k (addr u) = RED" | (repair) "k m = BLACK" "k (addr u) = BLACK"
      using rk(6) invc_col [OF rk(1)] by blast
    then show ?thesis
    proof cases
      case red
      then have "red_black k (plug u c)" unfolding red_black_plug using rk by simp
      with red s1(2,4) show ?thesis by (auto simp: s2_def balanced_def whole_def)
    next
      case child
      from paint [OF painted_refl un(1), of BLACK] obtain s' where s': "upd (addr u) (set_color BLACK) s1 = Some s'" "painted s1 s' (k(addr u := BLACK))"
        unfolding s1(4) by blast
      have d: "distinct (addrs u)" "set (addrs u) \<inter> outside c = {}" using s1(2) by (simp_all add: whole_def distinct_plug)
      have "invc (k(addr u := BLACK)) u \<and> invh (k(addr u := BLACK)) u \<and> bh (k(addr u := BLACK)) u = Suc (bh k u)"
        by (rule root_black [OF rk(1,2) child(2) d(1)]) simp_all
      moreover have "ctx_rb (k(addr u := BLACK)) c x = ctx_rb k c x" for x
        by (rule ctx_rb_cong) (use d(2) addr_mem [of u] in \<open>auto simp: disjoint_iff simp del: addr_mem\<close>)
      ultimately have "red_black (k(addr u := BLACK)) (plug u c)" unfolding red_black_plug using rk child by simp
      moreover have "is_tree (rb_heap s') NULL (plug u c)" by (rule painted_tree [OF s'(2)]) (use s1(2) in \<open>simp add: whole_def\<close>)
      ultimately show ?thesis using child s' unfolding s2_def balanced_def painted_def by auto
    next
      case repair
      have "deficit s1 u c" unfolding deficit_def s1(4) using s1(2,8) rk repair by simp
      from case1 [OF this fuel] repair show ?thesis by (simp add: s2_def del: delete_case1.simps)
    qed
  qed
  then obtain s' t' where s': "s2 = Some s'" "is_tree (rb_heap s') NULL t'" "addrs t' = addrs (plug u c)" "keeps s1 s'" "red_black (col (rb_heap s')) t'"
    by (auto simp: balanced_def)
  have "core (rb_heap s') m = core (rb_heap s1) m" using s'(4) by (simp add: keeps_def)
  then obtain m' where m': "rb_heap s' m = Some m'" using s1(7) by (cases "rb_heap s' m") (auto simp: core_def)
  let ?n = "m'\<lparr>rb_right := NULL, rb_left := NULL, rb_type := NIL\<rparr>"
  let ?s = "s'\<lparr>rb_heap := (rb_heap s')(m \<mapsto> ?n)\<rparr>"
  have "unlink fuel m s = Some ?s" using step s'(1) m' by (simp add: upd_def)
  moreover have "whole ?s t'" using is_tree_without [OF s'(2)] out s'(3) s1(2) by (simp add: whole_def)
  moreover have "red_black (col (rb_heap ?s)) t'" using red_black_without [OF s'(5)] out s'(3) by simp
  moreover have "\<forall>x. x \<noteq> m \<longrightarrow> core (rb_heap ?s) x = core (rb_heap s) x" using s'(4) s1(3) by (auto simp: keeps_def core_def fun_eq_iff)
  ultimately show ?thesis using s'(3,4) s1(5,6) by (intro exI [of _ ?s] exI [of _ t']) (simp add: keeps_def)
qed

section \<open>Values in order\<close>

definition vals :: "rb_mem \<Rightarrow> rbt_ptr list \<Rightarrow> int list" where
  "vals h ps = List.map (val_at h) (filter (allocated h) ps)"

lemma vals_simps [simp]: "vals h [] = []" "vals h (ps @ qs) = vals h ps @ vals h qs"
  "vals h (p # ps) = (if allocated h p then val_at h p # vals h ps else vals h ps)"
  by (simp_all add: vals_def)

lemma inorder_vals_of: "is_tree h par t \<Longrightarrow> inorder h t = vals h (addrs t)"
  by (simp add: vals_def inorder_addrs)

lemma vals_core: "(\<And>x. x \<in> set ps \<Longrightarrow> core h' x = core h x) \<Longrightarrow> vals h' ps = vals h ps"
proof -
  assume same: "\<And>x. x \<in> set ps \<Longrightarrow> core h' x = core h x"
  have "val_at h' x = val_at h x \<and> allocated h' x = allocated h x" if "x \<in> set ps" for x
    using same [OF that] by (cases "h x"; cases "h' x") (auto simp: core_def val_at_def allocated_def)
  then show ?thesis by (auto simp: vals_def intro!: map_cong filter_cong)
qed

lemma vals_nil: "is_tree h par (PNil z) \<Longrightarrow> vals h [z] = []"
  by (auto simp: vals_def allocated_def split: option.splits)

lemma remove1_middle: "sorted_wrt (<) (xs @ v # ys) \<Longrightarrow> remove1 (v :: int) (xs @ v # ys) = xs @ ys"
  by (auto simp: sorted_wrt_append remove1_append)

section \<open>Finding the nodes\<close>

text \<open>The parent pointers of the nil nodes, which \<open>leftmostNode\<close> and \<open>getMaximum\<close> follow.\<close>

primrec nils_linked :: "rb_mem \<Rightarrow> rbt_ptr \<Rightarrow> ptree \<Rightarrow> bool" where
  "nils_linked h par (PNil p) \<longleftrightarrow> (case h p of Some n \<Rightarrow> rb_parent n = par | None \<Rightarrow> False)"
| "nils_linked h par (PNode l p r) \<longleftrightarrow> nils_linked h p l \<and> nils_linked h p r"

primrec max_parent :: "rbt_ptr \<Rightarrow> ptree \<Rightarrow> rbt_ptr" where
  "max_parent par (PNil p) = par"
| "max_parent par (PNode l p r) = max_parent p r"

lemma down_right_max:
  "is_tree (rb_heap s) par t \<Longrightarrow> nils_linked (rb_heap s) par t \<Longrightarrow> height t < fuel \<Longrightarrow> down_right fuel (addr t) s = Some (max_parent par t)"
proof (induction t arbitrary: par fuel)
  case (PNil p)
  then show ?case by (cases fuel) (auto simp: node_def split: option.splits)
next
  case (PNode l p r)
  then obtain f where f: "fuel = Suc f" "height r < f" by (cases fuel) auto
  with PNode show ?case by (auto simp: node_def split: option.splits)
qed

lemma nils_linked_plug: "nils_linked h NULL (plug t c) \<Longrightarrow> nils_linked h (up c) t"
  by (induction t c rule: plug.induct) auto

lemma after_append: "after (c @ d) = after c @ after d"
  by (induction c rule: after.induct) simp_all

lemma before_append: "before (c @ d) = before d @ before c"
  by (induction c rule: before.induct) simp_all

lemma right_spine:
  "\<exists>c a m z. PNode l p r = plug (PNode a m (PNil z)) c \<and> after c = [] \<and> max_parent x (PNode l p r) = m \<and> length c < height (PNode l p r)"
proof (induction r arbitrary: l p x)
  case (PNil z)
  show ?case by (intro exI [of _ "[]"]) auto
next
  case (PNode l1 p1 r1)
  from PNode.IH(2) [of l1 p1 p] obtain c a m z where
    *: "PNode l1 p1 r1 = plug (PNode a m (PNil z)) c" "after c = []" "max_parent p (PNode l1 p1 r1) = m" "length c < height (PNode l1 p1 r1)" by blast
  then show ?case
    by (intro exI [of _ "c @ [InR l p]"] exI [of _ a] exI [of _ m] exI [of _ z]) (simp add: plug_append after_append)
qed

lemma find_node:
  "p \<in> set (addrs t) \<Longrightarrow> is_tree h par t \<Longrightarrow> h p = Some n \<Longrightarrow> rb_type n = ALLOCATED \<Longrightarrow>
   \<exists>l r c. t = plug (PNode l p r) c \<and> length c + height (PNode l p r) \<le> height t"
proof (induction t arbitrary: par)
  case (PNode l q r)
  consider "p = q" | "p \<in> set (addrs l)" | "p \<in> set (addrs r)" using PNode.prems(1) by auto
  then show ?case
  proof cases
    case 1
    then show ?thesis by (intro exI [of _ l] exI [of _ r] exI [of _ "[]"]) simp
  next
    case 2
    with PNode.IH(1) [of q] PNode.prems obtain l' r' c where "l = plug (PNode l' p r') c" "length c + height (PNode l' p r') \<le> height l" by auto
    then show ?thesis by (intro exI [of _ l'] exI [of _ r'] exI [of _ "c @ [InL q r]"]) (simp add: plug_append)
  next
    case 3
    with PNode.IH(2) [of q] PNode.prems obtain l' r' c where "r = plug (PNode l' p r') c" "length c + height (PNode l' p r') \<le> height r" by auto
    then show ?thesis by (intro exI [of _ l'] exI [of _ r'] exI [of _ "c @ [InR l q]"]) (simp add: plug_append)
  qed
qed auto

section \<open>Deletion by the number of children\<close>

lemma delete_leaf:
  assumes w: "whole s (plug (PNode (PNil q) m (PNil w)) c)" and root: "rb_root s = m \<longleftrightarrow> c = []"
  shows "\<exists>s'. deleteNode fuel m s = Some s' \<and> is_tree (rb_heap s') NULL (plug (PNil m) c) \<and> rb_fresh s' = rb_fresh s
    \<and> rb_root s' = (if c = [] then NULL else rb_root s) \<and> (\<forall>x \<in> outside c. rb_heap s' x = rb_heap s x)"
proof -
  let ?h = "rb_heap s"
  have sub: "is_tree ?h (up c) (PNode (PNil q) m (PNil w))" "ctx_ok ?h c m" using w by (simp_all add: whole_def is_tree_plug)
  obtain tn qn wn where n: "?h m = Some tn" "rb_left tn = q" "rb_right tn = w" "?h q = Some qn" "rb_type qn = NIL" "?h w = Some wn" "rb_type wn = NIL"
    using sub(1) by (auto split: option.splits)
  have d: "q \<noteq> m" "w \<noteq> m" "q \<noteq> w" "m \<notin> outside c" "q \<notin> outside c" "w \<notin> outside c" using w by (auto simp: whole_def distinct_plug)
  let ?h' = "?h(w := None, q := None, m \<mapsto> tn\<lparr>rb_right := NULL, rb_left := NULL, rb_type := NIL\<rparr>)"
  let ?s = "s\<lparr>rb_heap := ?h', rb_root := (if c = [] then NULL else rb_root s)\<rparr>"
  have "deleteNode fuel m s = Some ?s"
    using n d root by (auto simp: deleteNode_def node_def rb_free_def upd_def)
  moreover have "ctx_ok ?h' c m = ctx_ok ?h c m" by (rule ctx_ok_cong) (use d in auto)
  moreover have "\<forall>x \<in> outside c. ?h' x = ?h x" using d by auto
  ultimately show ?thesis using sub(2) by (intro exI [of _ ?s]) (simp add: is_tree_plug)
qed

lemma delete_one_child:
  assumes w: "whole s (plug (PNode l m r) c)" and rb: "red_black (col (rb_heap s)) (plug (PNode l m r) c)"
    and u: "(\<exists>z. r = PNil z) \<and> (\<nexists>z. l = PNil z) \<and> u = l \<or> (\<exists>z. l = PNil z) \<and> (\<nexists>z. r = PNil z) \<and> u = r" and fuel: "3 * length c < fuel"
  shows "\<exists>s' t'. deleteNode fuel m s = Some s' \<and> whole s' t' \<and> addrs t' = addrs (plug u c) \<and> red_black (col (rb_heap s')) t'
    \<and> (\<forall>x. x \<noteq> m \<longrightarrow> core (rb_heap s') x = core (rb_heap s) x) \<and> rb_fresh s' = rb_fresh s \<and> rb_root s' = (if c = [] then addr u else rb_root s)"
proof -
  have tr: "is_tree (rb_heap s) (up c) (PNode l m r)" using w by (simp add: whole_def is_tree_plug)
  then obtain n ln rn where n: "rb_heap s m = Some n" "rb_left n = addr l" "rb_right n = addr r" "rb_heap s (addr l) = Some ln" "rb_heap s (addr r) = Some rn"
    using is_tree_dom [of "rb_heap s" m l, OF _ addr_mem] is_tree_dom [of "rb_heap s" m r, OF _ addr_mem] by (auto split: option.splits)
  have types: "rb_type ln = NIL \<longleftrightarrow> (\<exists>z. l = PNil z)" "rb_type rn = NIL \<longleftrightarrow> (\<exists>z. r = PNil z)" "rb_type ln \<noteq> NIL \<Longrightarrow> rb_type ln = ALLOCATED"
    using tr n by (cases l; cases r; auto)+
  have "deleteNode fuel m s = unlink fuel m s"
    using deleteNode_inner [of s m n rn ln fuel] n types u by auto
  moreover have "(\<exists>z. r = PNil z) \<and> u = l \<or> (\<exists>z. l = PNil z) \<and> (\<nexists>z. r = PNil z) \<and> u = r" using u by blast
  ultimately show ?thesis using unlink_ok [OF w rb _ fuel] by metis
qed

lemma is_tree_links:
  assumes "\<And>q. map_option (\<lambda>n. (rb_parent n, rb_left n, rb_right n, rb_type n)) (h' q) = map_option (\<lambda>n. (rb_parent n, rb_left n, rb_right n, rb_type n)) (h q)"
  shows "is_tree h' par t = is_tree h par t"
proof (induction t arbitrary: par)
  case (PNil p)
  then show ?case using assms [of p] by (auto split: option.splits)
next
  case (PNode l p r)
  then show ?case using assms [of p] by (auto split: option.splits)
qed

text \<open>The tasks of a node and its predecessor after the exchange; the predecessor keeps the process id as its value.\<close>

definition exchanged :: "rbt_ptr \<Rightarrow> rbtnode \<Rightarrow> rbt_ptr \<Rightarrow> rbtnode \<Rightarrow> rbt \<Rightarrow> rbt" where
  "exchanged p n d dn s = s\<lparr>rb_heap := (rb_heap s)(d \<mapsto> dn\<lparr>rb_value := rb_pid n\<rparr>, p \<mapsto> n\<lparr>rb_value := rb_value dn, rb_pid := rb_pid dn\<rparr>)\<rparr>"

lemma exchanged_facts:
  assumes "rb_heap s p = Some n" "rb_heap s d = Some dn" "p \<noteq> d" "s' = exchanged p n d dn s"
  shows "is_tree (rb_heap s') par t = is_tree (rb_heap s) par t" "col (rb_heap s') = col (rb_heap s)"
    "x \<noteq> d \<Longrightarrow> x \<noteq> p \<Longrightarrow> core (rb_heap s') x = core (rb_heap s) x" "rb_root s' = rb_root s" "rb_fresh s' = rb_fresh s"
    "val_at (rb_heap s') p = rb_value dn" "allocated (rb_heap s') p = (rb_type n = ALLOCATED)"
proof -
  show "is_tree (rb_heap s') par t = is_tree (rb_heap s) par t" by (rule is_tree_links) (use assms in \<open>simp add: exchanged_def\<close>)
qed (use assms in \<open>auto simp: exchanged_def col_def core_def fun_eq_iff val_at_def allocated_def\<close>)

lemma delete_two_children:
  assumes w: "whole s (plug (PNode l p r) c)" and rb: "red_black (col (rb_heap s)) (plug (PNode l p r) c)"
    and inner: "\<nexists>z. l = PNil z" "\<nexists>z. r = PNil z" and nils: "nils_linked (rb_heap s) NULL (plug (PNode l p r) c)"
    and fuel: "3 * (length c + height (PNode l p r)) < fuel"
  shows "\<exists>s' t'. deleteNode fuel p s = Some s' \<and> whole s' t' \<and> set (addrs t') \<subseteq> set (addrs (plug (PNode l p r) c)) \<and> insert p (outside c) \<subseteq> set (addrs t')
    \<and> red_black (col (rb_heap s')) t' \<and> vals (rb_heap s') (addrs t') = vals (rb_heap s) (before c) @ inorder (rb_heap s) l @ inorder (rb_heap s) r @ vals (rb_heap s) (after c)
    \<and> rb_fresh s' = rb_fresh s \<and> rb_root s' = rb_root s"
proof -
  let ?h = "rb_heap s"
  have tr: "is_tree ?h (up c) (PNode l p r)" "distinct (addrs (plug (PNode l p r) c))" "NULL \<notin> set (addrs (plug (PNode l p r) c))"
    using w by (simp_all add: whole_def is_tree_plug)
  obtain l1 l0 l2 where l: "l = PNode l1 l0 l2" using inner(1) by (cases l) auto
  from right_spine [of l1 l0 l2 p] obtain c' a d z where
    sp: "l = plug (PNode a d (PNil z)) c'" "after c' = []" "max_parent p l = d" "length c' < height l" unfolding l [symmetric] by blast
  let ?C = "c' @ InL p r # c"
  have whole: "plug (PNode l p r) c = plug (PNode a d (PNil z)) ?C" using sp(1) by (simp add: plug_append)
  obtain n where n: "?h p = Some n" "rb_type n = ALLOCATED" "rb_left n = addr l" "rb_right n = addr r" using tr(1) by (auto split: option.splits)
  have lr: "is_tree ?h p l" "is_tree ?h p r" using tr(1) by simp_all
  obtain ln rn where lrn: "?h (addr l) = Some ln" "rb_type ln = ALLOCATED" "?h (addr r) = Some rn" "rb_type rn = ALLOCATED"
    using lr inner by (cases l; cases r) (auto split: option.splits)
  have sd: "is_tree ?h (up ?C) (PNode a d (PNil z))" using w whole by (simp add: whole_def is_tree_plug)
  then obtain dn where dn: "?h d = Some dn" "rb_type dn = ALLOCATED" by (auto split: option.splits)
  have lnull: "addr l \<noteq> NULL" using tr(3) addr_neq [of NULL l] by (simp add: set_plug)
  have "nils_linked ?h p l" using nils_linked_plug [OF nils] by simp
  from down_right_max [OF lr(1) this, of fuel] fuel sp(3) lnull have max: "getMaximum fuel (addr l) s = Some d" by (simp add: getMaximum_def)
  have d: "distinct (addrs (plug (PNode a d (PNil z)) ?C))" using tr(2) whole by simp
  then have pd: "p \<noteq> d" by (auto simp: distinct_plug outside_def after_append)
  define s0 where "s0 = exchanged p n d dn s"
  note ex = exchanged_facts [OF n(1) dn(1) pd s0_def]
  have "deleteNode fuel p s = unlink fuel d s0"
    using deleteNode_inner [of s p n rn ln fuel] n lrn max dn(1) pd by (simp add: node_def upd_def s0_def exchanged_def fun_upd_twist)
  moreover have "whole s0 (plug (PNode a d (PNil z)) ?C)" "red_black (col (rb_heap s0)) (plug (PNode a d (PNil z)) ?C)"
    using w rb ex(1,2) unfolding whole_def whole by simp_all
  moreover have "length ?C < length c + height (PNode l p r)" using sp(4) by simp
  then have "3 * length ?C \<le> 3 * (length c + height (PNode l p r))" by (intro mult_le_mono2 less_imp_le)
  then have "3 * length ?C < fuel" using fuel by (rule le_less_trans)
  ultimately obtain s' t' where s': "deleteNode fuel p s = Some s'" "whole s' t'" "addrs t' = addrs (plug a ?C)" "red_black (col (rb_heap s')) t'"
    "\<forall>x. x \<noteq> d \<longrightarrow> core (rb_heap s') x = core (rb_heap s0) x" "rb_fresh s' = rb_fresh s0" "rb_root s' = rb_root s0"
    using unlink_ok [of s0 a d "PNil z" ?C a fuel] by auto
  have ord: "addrs t' = before c @ (before c' @ addrs a) @ p # addrs r @ after c"
    using s'(3) sp(2) by (simp add: addrs_plug before_append after_append)
  have old: "addrs (plug (PNode l p r) c) = before c @ (before c' @ addrs a @ [d, z]) @ p # addrs r @ after c"
    using sp(1,2) by (simp add: addrs_plug)
  have "vals (rb_heap s') (addrs t') = vals (rb_heap s0) (addrs t')"
    by (rule vals_core) (use s'(5) tr(2) ord old in auto)
  also have "\<dots> = vals ?h (before c @ before c' @ addrs a) @ rb_value dn # vals ?h (addrs r @ after c)"
  proof -
    have "vals (rb_heap s0) (before c @ before c' @ addrs a) = vals ?h (before c @ before c' @ addrs a)"
      "vals (rb_heap s0) (addrs r @ after c) = vals ?h (addrs r @ after c)"
      by (rule vals_core, rule ex(3); use tr(2) old in auto)+
    then show ?thesis using ex(6,7) n(2) unfolding ord by simp
  qed
  also have "\<dots> = vals ?h (before c) @ inorder ?h l @ inorder ?h r @ vals ?h (after c)"
  proof -
    have "inorder ?h l = vals ?h (before c' @ addrs a @ [d, z])" using inorder_vals_of [OF lr(1)] sp(1,2) by (simp add: addrs_plug)
    moreover have "vals ?h [d, z] = [rb_value dn]" using vals_nil [of ?h d z] sd dn by (simp add: allocated_def val_at_def)
    ultimately show ?thesis using inorder_vals_of [OF lr(2)] by simp
  qed
  finally show ?thesis using s'(1,2,4,6,7) ex(4,5) ord old by (intro exI [of _ s'] exI [of _ t']) (auto simp: outside_def)
qed

lemma addr_plug: "c \<noteq> [] \<Longrightarrow> addr (plug t c) = addr (plug t' c) \<and> addr (plug t c) \<in> outside c"
proof (induction t c arbitrary: t' rule: plug.induct)
  case (2 t p r c)
  then show ?case using 2(1) [of "PNode t' p r"] by (cases "c = []") auto
next
  case (3 t l p c)
  then show ?case using 3(1) [of "PNode l p t'"] by (cases "c = []") auto
qed simp

lemma addr_plug_in: "addr (plug t c) \<in> insert (addr t) (outside c)"
  using addr_plug [of c t t] by (cases "c = []") auto

lemma vals_outside: "ctx_ok h c m \<Longrightarrow> c \<noteq> [] \<Longrightarrow> vals h (before c @ after c) \<noteq> []"
proof -
  assume "ctx_ok h c m" "c \<noteq> []"
  then have "allocated h (up c)" by (cases c rule: up.cases) (auto simp: allocated_def split: option.splits)
  moreover have "up c \<in> set (before c @ after c)" using up_outside [OF \<open>c \<noteq> []\<close>] by (simp add: outside_def)
  ultimately show ?thesis unfolding vals_def by (simp only: map_is_Nil_conv filter_empty_conv) blast
qed

section \<open>Properties\<close>

text \<open>What a deletion has to achieve for the tree.\<close>

definition deleted :: "rbt \<Rightarrow> ptree \<Rightarrow> int \<Rightarrow> rbt \<Rightarrow> ptree \<Rightarrow> bool" where
  "deleted s t v s' t' \<longleftrightarrow> is_tree (rb_heap s') NULL t' \<and> distinct (addrs t') \<and> NULL \<notin> set (addrs t') \<and> (\<forall>q \<in> set (addrs t'). q < rb_fresh s')
     \<and> inorder (rb_heap s') t' = remove1 v (inorder (rb_heap s) t)
     \<and> (if inorder (rb_heap s') t' = [] then isEmpty s' else rb_root s' \<in> set (addrs t'))"

lemma deleted_vals:
  assumes w: "whole s' t'" and bst: "sorted_wrt (<) (inorder (rb_heap s) t)" and t: "inorder (rb_heap s) t = xs @ v # ys"
    and vals: "vals (rb_heap s') (addrs t') = xs @ ys" and fresh: "\<forall>q \<in> set (addrs t'). q < rb_fresh s'"
    and root: "if xs @ ys = [] then isEmpty s' else rb_root s' \<in> set (addrs t')"
  shows "deleted s t v s' t'"
proof -
  have "inorder (rb_heap s') t' = xs @ ys" using inorder_vals_of [of "rb_heap s'" NULL t'] w vals by (simp add: whole_def)
  moreover have "remove1 v (inorder (rb_heap s) t) = xs @ ys" using remove1_middle [of xs v ys] bst t by simp
  ultimately show ?thesis using w fresh root by (simp add: deleted_def whole_def)
qed

lemma inorder_plug:
  assumes "is_tree h NULL (plug (PNode l p r) c)"
  shows "inorder h (plug (PNode l p r) c) = vals h (before c) @ (inorder h l @ val_at h p # inorder h r) @ vals h (after c)"
proof -
  have "is_tree h (up c) (PNode l p r)" using assms by (simp add: is_tree_plug)
  from inorder_vals_of [OF this] inorder_vals_of [OF assms] show ?thesis by (simp add: addrs_plug)
qed

text \<open>The three kinds of nodes.\<close>

lemma deleted_leaf:
  assumes ts: "tree_state s (plug (PNode (PNil q) p (PNil w)) c)" and bst: "sorted_wrt (<) (inorder (rb_heap s) (plug (PNode (PNil q) p (PNil w)) c))"
  shows "\<exists>s' t'. deleteNode fuel p s = Some s' \<and> deleted s (plug (PNode (PNil q) p (PNil w)) c) (val_at (rb_heap s) p) s' t'"
proof -
  let ?h = "rb_heap s" and ?t = "plug (PNode (PNil q) p (PNil w)) c"
  have tr: "rb_root s = addr ?t" "is_tree ?h NULL ?t" "distinct (addrs ?t)" "NULL \<notin> set (addrs ?t)" "\<forall>q \<in> set (addrs ?t). q < rb_fresh s"
    using ts by (simp_all add: tree_state_def)
  have "rb_root s = p \<longleftrightarrow> c = []" using addr_plug [of c "PNode (PNil q) p (PNil w)" "PNode (PNil q) p (PNil w)"] tr(1,3) by (cases "c = []") (auto simp: distinct_plug)
  with delete_leaf [of s q p w c fuel] tr(2-4) obtain s' where s': "deleteNode fuel p s = Some s'" "is_tree (rb_heap s') NULL (plug (PNil p) c)"
    "rb_fresh s' = rb_fresh s" "rb_root s' = (if c = [] then NULL else rb_root s)" "\<forall>x \<in> outside c. rb_heap s' x = ?h x" by (auto simp: whole_def)
  have "vals (rb_heap s') (addrs (plug (PNil p) c)) = vals (rb_heap s') (before c @ after c)"
  proof -
    have "vals (rb_heap s') [p] = []" by (rule vals_nil [of _ "up c"]) (use s'(2) in \<open>simp only: is_tree_plug\<close>)
    then show ?thesis by (simp only: addrs_plug addrs.simps vals_simps append_Nil)
  qed
  also have "\<dots> = vals ?h (before c @ after c)" by (rule vals_core) (use s'(5) in \<open>auto simp: outside_def core_def\<close>)
  finally have v: "vals (rb_heap s') (addrs (plug (PNil p) c)) = vals ?h (before c) @ vals ?h (after c)" by simp
  have "deleted s ?t (val_at ?h p) s' (plug (PNil p) c)"
  proof (rule deleted_vals [OF _ bst _ v])
    show "whole s' (plug (PNil p) c)" using s'(2) tr(3,4) by (auto simp: whole_def distinct_plug set_plug)
    show "inorder ?h ?t = vals ?h (before c) @ val_at ?h p # vals ?h (after c)" using inorder_plug [OF tr(2)] by simp
    show "\<forall>q \<in> set (addrs (plug (PNil p) c)). q < rb_fresh s'" using s'(3) tr(5) by (simp add: set_plug)
    show "if vals ?h (before c) @ vals ?h (after c) = [] then isEmpty s' else rb_root s' \<in> set (addrs (plug (PNil p) c))"
      using s'(4) tr(1) addr_plug [of c "PNode (PNil q) p (PNil w)" "PNode (PNil q) p (PNil w)"] vals_outside [of ?h c p] tr(2) by (cases "c = []") (auto simp: isEmpty_def is_tree_plug set_plug)
  qed
  with s'(1) show ?thesis by blast
qed

lemma deleted_one_child:
  assumes ts: "tree_state s (plug (PNode l p r) c)" and bst: "sorted_wrt (<) (inorder (rb_heap s) (plug (PNode l p r) c))"
    and rb: "red_black (col (rb_heap s)) (plug (PNode l p r) c)"
    and u: "(\<exists>z. r = PNil z) \<and> (\<nexists>z. l = PNil z) \<and> u = l \<or> (\<exists>z. l = PNil z) \<and> (\<nexists>z. r = PNil z) \<and> u = r" and fuel: "3 * length c < fuel"
  shows "\<exists>s' t'. deleteNode fuel p s = Some s' \<and> deleted s (plug (PNode l p r) c) (val_at (rb_heap s) p) s' t' \<and> red_black (col (rb_heap s')) t'"
proof -
  let ?h = "rb_heap s" and ?t = "plug (PNode l p r) c"
  have tr: "rb_root s = addr ?t" "is_tree ?h NULL ?t" "distinct (addrs ?t)" "\<forall>q \<in> set (addrs ?t). q < rb_fresh s" "whole s ?t"
    using ts by (simp_all add: tree_state_def whole_def)
  from delete_one_child [OF tr(5) rb u fuel] obtain s' t' where s': "deleteNode fuel p s = Some s'" "whole s' t'" "addrs t' = addrs (plug u c)"
    "red_black (col (rb_heap s')) t'" "\<forall>x. x \<noteq> p \<longrightarrow> core (rb_heap s') x = core ?h x" "rb_fresh s' = rb_fresh s" "rb_root s' = (if c = [] then addr u else rb_root s)" by blast
  have sub: "is_tree ?h p l" "is_tree ?h p r" using tr(2) by (simp_all add: is_tree_plug)
  have "vals (rb_heap s') (addrs t') = vals ?h (addrs t')" by (rule vals_core) (use s'(3,5) tr(3) u in \<open>auto simp: distinct_plug set_plug\<close>)
  also have "\<dots> = vals ?h (before c) @ (inorder ?h l @ inorder ?h r) @ vals ?h (after c)"
  proof -
    have "vals ?h (addrs u) = inorder ?h l @ inorder ?h r"
      using u inorder_vals_of [OF sub(1)] inorder_vals_of [OF sub(2)] by (elim disjE conjE exE) simp_all
    then show ?thesis unfolding s'(3) addrs_plug by simp
  qed
  finally have v: "vals (rb_heap s') (addrs t') = (vals ?h (before c) @ inorder ?h l) @ inorder ?h r @ vals ?h (after c)" by simp
  have ne: "inorder ?h l @ inorder ?h r \<noteq> []" using u by (cases l; cases r) auto
  have "deleted s ?t (val_at ?h p) s' t'"
  proof (rule deleted_vals [OF s'(2) bst _ v])
    show "inorder ?h ?t = (vals ?h (before c) @ inorder ?h l) @ val_at ?h p # inorder ?h r @ vals ?h (after c)" using inorder_plug [OF tr(2)] by simp
    show "\<forall>q \<in> set (addrs t'). q < rb_fresh s'" using s'(3,6) tr(4) u by (auto simp: set_plug)
    have "rb_root s' \<in> set (addrs t')" using s'(3,7) tr(1) addr_plug [of c "PNode l p r" "PNode l p r"] by (cases "c = []") (auto simp: set_plug)
    then show "if (vals ?h (before c) @ inorder ?h l) @ inorder ?h r @ vals ?h (after c) = [] then isEmpty s' else rb_root s' \<in> set (addrs t')"
      using ne by auto
  qed
  with s'(1,4) show ?thesis by blast
qed

lemma deleted_two_children:
  assumes ts: "tree_state s (plug (PNode l p r) c)" and bst: "sorted_wrt (<) (inorder (rb_heap s) (plug (PNode l p r) c))"
    and rb: "red_black (col (rb_heap s)) (plug (PNode l p r) c)" and inner: "\<nexists>z. l = PNil z" "\<nexists>z. r = PNil z"
    and nils: "nils_linked (rb_heap s) NULL (plug (PNode l p r) c)" and fuel: "3 * (length c + height (PNode l p r)) < fuel"
  shows "\<exists>s' t'. deleteNode fuel p s = Some s' \<and> deleted s (plug (PNode l p r) c) (val_at (rb_heap s) p) s' t' \<and> red_black (col (rb_heap s')) t'"
proof -
  let ?h = "rb_heap s" and ?t = "plug (PNode l p r) c"
  have tr: "rb_root s = addr ?t" "is_tree ?h NULL ?t" "\<forall>q \<in> set (addrs ?t). q < rb_fresh s" "whole s ?t"
    using ts by (simp_all add: tree_state_def whole_def)
  from delete_two_children [OF tr(4) rb inner nils fuel] obtain s' t' where s': "deleteNode fuel p s = Some s'" "whole s' t'"
    "set (addrs t') \<subseteq> set (addrs ?t)" "insert p (outside c) \<subseteq> set (addrs t')" "red_black (col (rb_heap s')) t'"
    "vals (rb_heap s') (addrs t') = (vals ?h (before c) @ inorder ?h l) @ inorder ?h r @ vals ?h (after c)"
    "rb_fresh s' = rb_fresh s" "rb_root s' = rb_root s" by auto
  have "deleted s ?t (val_at ?h p) s' t'"
  proof (rule deleted_vals [OF s'(2) bst _ s'(6)])
    show "inorder ?h ?t = (vals ?h (before c) @ inorder ?h l) @ val_at ?h p # inorder ?h r @ vals ?h (after c)" using inorder_plug [OF tr(2)] by simp
    show "\<forall>q \<in> set (addrs t'). q < rb_fresh s'" using s'(3,7) tr(3) by auto
    have "inorder ?h l \<noteq> []" using inner(1) by (cases l) auto
    then show "if (vals ?h (before c) @ inorder ?h l) @ inorder ?h r @ vals ?h (after c) = [] then isEmpty s' else rb_root s' \<in> set (addrs t')"
      using s'(4,8) tr(1) addr_plug_in [of "PNode l p r" c] by auto
  qed
  with s'(1,5) show ?thesis by blast
qed

text \<open>C10. Deletion of any task of a red-black search tree whose nil nodes point to their parents, with fuel for its height:
  \<open>deleteNode\<close> returns without a misused pointer and leaves a well-linked tree with the other run times in order, the root pointer in it, or a
  null root pointer when nothing remains. Unless the task was at a leaf, which is not rebalanced, the tree is red-black again, whether
  a red child takes over or \<open>delete_case1\<close> to \<open>delete_case6\<close> restore the missing black node.\<close>

theorem delete_task_balanced:
  assumes ts: "tree_state s t" and bst: "sorted_wrt (<) (inorder (rb_heap s) t)" and rb: "red_black (col (rb_heap s)) t"
    and nils: "nils_linked (rb_heap s) NULL t" and fuel: "3 * height t < fuel"
    and p: "p \<in> set (addrs t)" "rb_heap s p = Some n" "rb_type n = ALLOCATED"
  shows "\<exists>s' t'. deleteNode fuel p s = Some s' \<and> is_tree (rb_heap s') NULL t' \<and> distinct (addrs t') \<and> NULL \<notin> set (addrs t')
    \<and> (\<forall>q \<in> set (addrs t'). q < rb_fresh s') \<and> inorder (rb_heap s') t' = remove1 (rb_value n) (inorder (rb_heap s) t)
    \<and> (if inorder (rb_heap s') t' = [] then isEmpty s' else rb_root s' \<in> set (addrs t'))
    \<and> ((\<exists>q \<in> {rb_left n, rb_right n}. \<exists>c. rb_heap s q = Some c \<and> rb_type c = ALLOCATED) \<longrightarrow> red_black (col (rb_heap s')) t')"
proof -
  let ?h = "rb_heap s"
  have tr: "rb_root s = addr t" "is_tree ?h NULL t" "distinct (addrs t)" "NULL \<notin> set (addrs t)" "\<forall>q \<in> set (addrs t). q < rb_fresh s"
    using ts by (simp_all add: tree_state_def)
  obtain l r c where t: "t = plug (PNode l p r) c" "length c + height (PNode l p r) \<le> height t" using find_node [OF p(1) tr(2) p(2,3)] by blast
  have val: "val_at ?h p = rb_value n" using p(2) by (simp add: val_at_def)
  note hyps = ts [unfolded t(1)] bst [unfolded t(1)]
  have f: "3 * (length c + height (PNode l p r)) < fuel" "3 * length c < fuel" using t(2) fuel by simp_all
  have kids: "(\<exists>c. ?h (rb_left n) = Some c \<and> rb_type c = ALLOCATED) \<longrightarrow> (\<nexists>z. l = PNil z)"
    "(\<exists>c. ?h (rb_right n) = Some c \<and> rb_type c = ALLOCATED) \<longrightarrow> (\<nexists>z. r = PNil z)"
    using tr(2) t(1) p(2) by (auto simp: is_tree_plug split: option.splits)
  have "\<exists>s' t'. deleteNode fuel p s = Some s' \<and> deleted s t (rb_value n) s' t'
      \<and> ((\<nexists>z. l = PNil z) \<or> (\<nexists>z. r = PNil z) \<longrightarrow> red_black (col (rb_heap s')) t')"
  proof -
    consider (leaf) q w where "l = PNil q" "r = PNil w" | (left) "\<exists>z. r = PNil z" "\<nexists>z. l = PNil z" | (right) "\<exists>z. l = PNil z" "\<nexists>z. r = PNil z"
      | (both) "\<nexists>z. l = PNil z" "\<nexists>z. r = PNil z" by blast
    then show ?thesis
    proof cases
      case leaf
      with deleted_leaf [of s q p w c fuel] hyps val t(1) show ?thesis by auto
    next
      case left
      with deleted_one_child [OF hyps rb [unfolded t(1)] _ f(2), of l] val t(1) show ?thesis by auto
    next
      case right
      with deleted_one_child [OF hyps rb [unfolded t(1)] _ f(2), of r] val t(1) show ?thesis by auto
    next
      case both
      with deleted_two_children [OF hyps rb [unfolded t(1)] both nils [unfolded t(1)] f(1)] val t(1) show ?thesis by auto
    qed
  qed
  then obtain s' t' where s': "deleteNode fuel p s = Some s'" "deleted s t (rb_value n) s' t'"
    "(\<nexists>z. l = PNil z) \<or> (\<nexists>z. r = PNil z) \<longrightarrow> red_black (col (rb_heap s')) t'" by blast
  with kids have "(\<exists>q \<in> {rb_left n, rb_right n}. \<exists>c. ?h q = Some c \<and> rb_type c = ALLOCATED) \<longrightarrow> red_black (col (rb_heap s')) t'" by blast
  with s'(1,2) show ?thesis unfolding deleted_def by blast
qed

text \<open>Three black nodes: the task at the root is deleted, its predecessor is a black leaf, and the rebalancing turns the sibling red.\<close>

definition black_nodes :: rbt where
  "black_nodes = \<lparr>rb_heap = (\<lambda>p.
      if p = 1 then Some \<lparr>rb_parent = 0, rb_right = 3, rb_left = 2, rb_pid = 0, rb_value = 20, rb_color = BLACK, rb_type = ALLOCATED\<rparr>
      else if p = 2 then Some \<lparr>rb_parent = 1, rb_right = 5, rb_left = 4, rb_pid = 1, rb_value = 10, rb_color = BLACK, rb_type = ALLOCATED\<rparr>
      else if p = 3 then Some \<lparr>rb_parent = 1, rb_right = 7, rb_left = 6, rb_pid = 2, rb_value = 30, rb_color = BLACK, rb_type = ALLOCATED\<rparr>
      else if p \<in> {4, 5, 6, 7} then Some \<lparr>rb_parent = p div 2, rb_right = 0, rb_left = 0, rb_pid = 0, rb_value = 0, rb_color = BLACK, rb_type = NIL\<rparr>
      else None), rb_root = 1, rb_fresh = 8\<rparr>"

definition black_shape :: ptree where
  "black_shape = PNode (PNode (PNil 4) 2 (PNil 5)) 1 (PNode (PNil 6) 3 (PNil 7))"

theorem delete_task_balanced_witness:
  "\<exists>s' t'. deleteNode 7 1 black_nodes = Some s' \<and> is_tree (rb_heap s') NULL t' \<and> inorder (rb_heap s') t' = [10, 30] \<and> red_black (col (rb_heap s')) t'"
proof -
  have ts: "tree_state black_nodes black_shape" and io: "inorder (rb_heap black_nodes) black_shape = [10, 20, 30]"
    by (simp_all add: tree_state_def black_nodes_def black_shape_def NULL_def val_at_def)
  have rb: "red_black (col (rb_heap black_nodes)) black_shape" and nils: "nils_linked (rb_heap black_nodes) NULL black_shape"
    by (simp_all add: red_black_def black_nodes_def black_shape_def col_def)
  have "3 * height black_shape < 7" "1 \<in> set (addrs black_shape)" by (simp_all add: black_shape_def)
  moreover obtain n where n: "rb_heap black_nodes 1 = Some n" "rb_type n = ALLOCATED" "rb_value n = 20" "rb_left n = 2" by (simp add: black_nodes_def)
  moreover have "\<exists>c. rb_heap black_nodes 2 = Some c \<and> rb_type c = ALLOCATED" by (simp add: black_nodes_def)
  ultimately show ?thesis using delete_task_balanced [OF ts _ rb nils, of 7 1 n] io by auto
qed

end
