(* ===== verification/RbtDelete.thy ===== *)
theory RbtDelete
  imports RbtUnlink
begin

text \<open>
  The body of the loop in \<open>main\<close> of \<open>src/hw4/hw4_redblacktree.c\<close> on a red-black search tree: \<open>leftmostNode\<close> finds the
  task with the least run time and \<open>deleteNode\<close> removes it. A node without children turns into a nil node, which keeps its
  colour; a node with a right child is replaced by the child, which becomes black, and the tree is red-black again.
\<close>

section \<open>The leftmost node\<close>

primrec min_parent :: "rbt_ptr \<Rightarrow> ptree \<Rightarrow> rbt_ptr" where
  "min_parent par (PNil p) = par"
| "min_parent par (PNode l p r) = min_parent p l"

lemma down_left_min:
  "is_tree (rb_heap s) par t \<Longrightarrow> nils_linked (rb_heap s) par t \<Longrightarrow> height t < fuel \<Longrightarrow> down_left fuel (addr t) s = Some (min_parent par t)"
proof (induction t arbitrary: par fuel)
  case (PNil p)
  then show ?case by (cases fuel) (auto simp: node_def split: option.splits)
next
  case (PNode l p r)
  then obtain f where f: "fuel = Suc f" "height l < f" by (cases fuel) auto
  with PNode show ?case by (auto simp: node_def split: option.splits)
qed

lemma spine: "\<exists>c q m u. PNode l p r = plug (PNode (PNil q) m u) c \<and> before c = [] \<and> min_parent x (PNode l p r) = m"
proof (induction l arbitrary: p r x)
  case (PNil q)
  show ?case by (intro exI [of _ "[]"]) auto
next
  case (PNode l1 p1 r1)
  from PNode.IH(1) [of p1 r1 p] obtain c q m u where
    "PNode l1 p1 r1 = plug (PNode (PNil q) m u) c" "before c = []" "min_parent p (PNode l1 p1 r1) = m" by blast
  then show ?case by (intro exI [of _ "c @ [InL p r]"] exI [of _ q] exI [of _ m] exI [of _ u]) (simp add: plug_append before_append)
qed

lemma plug_inorder:
  assumes "is_tree h NULL (plug t c)" "before c = []"
  shows "inorder h (plug t c) = inorder h t @ List.map (val_at h) (filter (allocated h) (after c))"
proof -
  have "is_tree h (up c) t" using assms(1) by (simp add: is_tree_plug)
  from inorder_addrs [OF assms(1)] inorder_addrs [OF this] show ?thesis by (simp add: addrs_plug assms(2))
qed

lemma inorder_core: "(\<And>q. q \<in> set (addrs t) \<Longrightarrow> core h' q = core h q) \<Longrightarrow> inorder h' t = inorder h t"
proof (induction t)
  case (PNode l p r)
  have "core h' p = core h p" using PNode.prems by simp
  then have "val_at h' p = val_at h p" by (cases "h p"; cases "h' p") (auto simp: core_def val_at_def)
  with PNode show ?case by simp
qed simp

lemma after_cong:
  "(\<And>q. q \<in> outside c \<Longrightarrow> core h' q = core h q) \<Longrightarrow>
   List.map (val_at h') (filter (allocated h') (after c)) = List.map (val_at h) (filter (allocated h) (after c))"
proof -
  assume same: "\<And>q. q \<in> outside c \<Longrightarrow> core h' q = core h q"
  have "val_at h' q = val_at h q \<and> allocated h' q = allocated h q" if "q \<in> set (after c)" for q
    using same [of q] that by (cases "h q"; cases "h' q") (auto simp: outside_def core_def val_at_def allocated_def)
  then show ?thesis by (auto intro!: map_cong filter_cong)
qed

section \<open>Deletion of the leftmost node\<close>

text \<open>A tree with its leftmost task, which is at \<open>m\<close>.\<close>

definition at_min :: "rbt \<Rightarrow> rbt_ptr \<Rightarrow> rbt_ptr \<Rightarrow> ptree \<Rightarrow> crumb list \<Rightarrow> bool" where
  "at_min s q m u c \<longleftrightarrow> tree_state s (plug (PNode (PNil q) m u) c) \<and> before c = []"

lemma at_minD:
  assumes "at_min s q m u c"
  shows "is_tree (rb_heap s) NULL (plug (PNode (PNil q) m u) c)" "distinct (addrs (plug (PNode (PNil q) m u) c))"
    "NULL \<notin> set (addrs (plug (PNode (PNil q) m u) c))" "\<forall>p \<in> set (addrs (plug (PNode (PNil q) m u) c)). p < rb_fresh s"
    "rb_root s = addr (plug (PNode (PNil q) m u) c)" "before c = []" "rb_root s = m \<longleftrightarrow> c = []"
proof -
  show *: "is_tree (rb_heap s) NULL (plug (PNode (PNil q) m u) c)" "distinct (addrs (plug (PNode (PNil q) m u) c))"
    "NULL \<notin> set (addrs (plug (PNode (PNil q) m u) c))" "\<forall>p \<in> set (addrs (plug (PNode (PNil q) m u) c)). p < rb_fresh s"
    "rb_root s = addr (plug (PNode (PNil q) m u) c)" "before c = []"
    using assms unfolding at_min_def tree_state_def by blast+
  show "rb_root s = m \<longleftrightarrow> c = []"
    using addr_plug [of c "PNode (PNil q) m u"] *(2,5) by (cases "c = []") (auto simp: distinct_plug)
qed

lemma at_min_leaf: "at_min s q m (PNil w) c \<Longrightarrow> whole s (plug (PNode (PNil q) m (PNil w)) c) \<and> (rb_root s = m \<longleftrightarrow> c = [])"
  using at_minD [of s q m "PNil w" c] by (simp add: whole_def)

lemma delete_with_child:
  assumes min: "at_min s q m (PNode a w b) c" and cols: "col (rb_heap s) m = BLACK" "col (rb_heap s) w = RED"
  shows "\<exists>s'. deleteNode fuel m s = Some s' \<and> is_tree (rb_heap s') NULL (plug (PNode a w b) c) \<and> rb_fresh s' = rb_fresh s
    \<and> rb_root s' = (if c = [] then w else rb_root s) \<and> (\<forall>x. x \<noteq> m \<longrightarrow> core (rb_heap s') x = core (rb_heap s) x)
    \<and> col (rb_heap s') = (col (rb_heap s))(w := BLACK)"
proof -
  let ?h = "rb_heap s" and ?T = "PNode (PNil q) m (PNode a w b)"
  note t = at_minD [OF min]
  have sub: "is_tree ?h (up c) ?T" "ctx_ok ?h c m" using t(1) by (simp_all add: is_tree_plug)
  obtain tn qn wn where n: "?h m = Some tn" "rb_left tn = q" "rb_right tn = w" "rb_parent tn = up c" "?h q = Some qn" "rb_type qn = NIL"
    "?h w = Some wn" "rb_type wn = ALLOCATED" "rb_left wn = addr a" "rb_right wn = addr b" and ab: "is_tree ?h w a" "is_tree ?h w b"
    using sub(1) by (auto split: option.splits)
  have up: "up c \<notin> set (addrs ?T)" by (rule up_notin [OF t(2,3)])
  then have d: "q \<noteq> m" "w \<noteq> m" "q \<noteq> w" "up c \<noteq> m" "up c \<noteq> w" "up c \<notin> set (addrs a)" "up c \<notin> set (addrs b)" 
    "m \<notin> set (addrs a)" "m \<notin> set (addrs b)" "w \<notin> set (addrs a)" "w \<notin> set (addrs b)" using t(2) by (auto simp: distinct_plug)
  have col: "rb_color tn = BLACK" "rb_color wn = RED" using cols n col_node [of ?h m tn] col_node [of ?h w wn] by auto
  define h1 where "h1 = (if c = [] then ?h else case ?h (up c) of None \<Rightarrow> ?h
    | Some pn \<Rightarrow> ?h(up c \<mapsto> if rb_left pn = m then pn\<lparr>rb_left := w\<rparr> else pn\<lparr>rb_right := w\<rparr>))"
  let ?h' = "h1(w \<mapsto> wn\<lparr>rb_parent := up c, rb_color := BLACK\<rparr>, m \<mapsto> tn\<lparr>rb_right := NULL, rb_left := NULL, rb_type := NIL\<rparr>)"
  let ?s = "s\<lparr>rb_heap := ?h', rb_root := (if c = [] then w else rb_root s)\<rparr>"
  have upc: "up c = NULL \<longleftrightarrow> c = []" using up_outside [of c] t(3) by (cases "c = []") (auto simp: set_plug)
  have parent: "\<exists>pn. ?h (up c) = Some pn" if "c \<noteq> []" using that sub(2) by (cases c rule: up.cases) (auto split: option.splits)
  have h1: "h1 m = Some tn" "h1 w = Some wn" using n(1,7) d(4,5) by (auto simp: h1_def split: option.splits)
  have "deleteNode fuel m s = Some ?s"
  proof (cases "c = []")
    case True
    with n d col upc show ?thesis
      by (simp add: deleteNode_def node_def upd_def isLeaf_def color_of_def h1_def fun_upd_twist)
  next
    case False
    then obtain pn where pn: "?h (up c) = Some pn" using parent by blast
    with n d col upc False show ?thesis
      by (simp add: deleteNode_def node_def upd_def isLeaf_def color_of_def h1_def fun_upd_twist)
  qed
  moreover have same: "?h' x = ?h x" if "x \<noteq> up c" "x \<noteq> m" "x \<noteq> w" for x using that by (simp add: h1_def split: option.split)
  have "is_tree ?h' w a = is_tree ?h w a" "is_tree ?h' w b = is_tree ?h w b"
    by (rule is_tree_cong, rule same; use d in auto)+
  then have "is_tree ?h' (up c) (PNode a w b)" using n ab d by simp
  then have "is_tree ?h' NULL (plug (PNode a w b) c)"
    by (rule replug [OF t(1-3)]) (use same d upc in \<open>auto simp: h1_def\<close>)
  moreover have "core ?h' x = core ?h x" if "x \<noteq> m" for x
    using that n d by (auto simp: core_def h1_def split: option.split)
  moreover have "col ?h' = (col ?h)(w := BLACK)"
    using n d by (auto simp: col_def h1_def fun_eq_iff split: option.split)
  ultimately show ?thesis by (intro exI [of _ ?s]) simp
qed

lemma rest_empty:
  assumes "ctx_ok h c x" "before c = []"
  shows "filter (allocated h) (after c) = [] \<longleftrightarrow> c = []"
  using assms by (cases c rule: up.cases) (auto simp: allocated_def split: option.splits)

section \<open>Properties\<close>

lemma child_colours:
  assumes "red_black k (plug (PNode (PNil q) m (PNode a w b)) c)"
  shows "k m = BLACK" "k w = RED"
  using assms by (auto simp: red_black_plug)

lemma child_red_black:
  assumes rb: "red_black k (plug (PNode (PNil q) m (PNode a w b)) c)" and dist: "distinct (addrs (plug (PNode (PNil q) m (PNode a w b)) c))"
  shows "red_black (k(w := BLACK)) (plug (PNode a w b) c)"
proof -
  let ?k = "k(w := BLACK)"
  note cols = child_colours [OF rb]
  have d: "w \<notin> set (addrs a)" "w \<notin> set (addrs b)" "w \<notin> outside c" using dist by (auto simp: distinct_plug)
  have a: "invc ?k a = invc k a \<and> bh ?k a = bh k a \<and> invh ?k a = invh k a" by (rule colours_cong) (use d in auto)
  have b: "invc ?k b = invc k b \<and> bh ?k b = bh k b \<and> invh ?k b = invh k b" by (rule colours_cong) (use d in auto)
  have "ctx_rb ?k c (Suc 0) = ctx_rb k c (Suc 0)" by (rule ctx_rb_cong) (use d in auto)
  with rb cols a b show ?thesis unfolding red_black_plug by simp
qed


text \<open>The stale root pointer during insertions: eight tasks after which the root is back at the top, but the tree is out of order, and
  so is the output of \<open>main\<close>.\<close>

lemma rbt_out_of_order:
  "map_option (\<lambda>(out, s). (List.map snd out, isEmpty s)) (Option.bind (insert_tasks 20 0 [5, 6, 8, 4, 3, 7, 2, 1] rbt_empty) (run_tasks 8 20))
     = Some ([3, 4, 1, 2, 5, 7, 6, 8], True)"
  by code_simp

text \<open>The stale root pointer during deletions: with these eleven tasks the tree is complete, in order and has its root at the root pointer, but
  the fifth deletion rotates at the root. The tasks 8, 10 and 11 are not reached any more, and a node is deleted twice, which follows a null
  pointer.\<close>

lemma rbt_deletion_faults:
  "Option.bind (insert_tasks 20 0 [5, 10, 8, 6, 4, 9, 3, 11, 1, 2, 7] rbt_empty)
     (\<lambda>s. Some (map_option fst (run_tasks 30 40 s), map_option (\<lambda>n. rb_parent n = NULL) (node (rb_root s) s))) = Some (None, Some True)"
  by code_simp


end
