(* ===== verification/Procmon.thy ===== *)
theory Procmon
  imports Prelude
begin

text \<open>
  \<open>src/project2/procmon.c\<close>, a kernel module with two files in \<open>/proc\<close>: reading \<open>procmon\<close> prints a table
  of the processes sorted by the current criterion, writing \<open>procmon_sorting\<close> selects the criterion, reading
  it shows the choice. The module is built for \<open>x86_64\<close>, so a \<open>long\<close> has 64 bits. The process list is the
  input of the table; the kernel's I/O accounting is a parameter of the model. The theorems: the
  bubble sort is the stable sort by the criterion, the table lists every process once in that order and
  overflows its array beyond 2048 processes, and what a write selects.
\<close>

section \<open>Data\<close>

type_synonym long = "64 word"

record mydata =
  md_pid :: int
  md_name :: string
  md_virt :: long
  md_rss :: long
  md_diskread :: long
  md_diskwrite :: long
  md_totalio :: long

definition PID :: int where "PID = 0"
definition VIRT :: int where "VIRT = 1"
definition RSS :: int where "RSS = 2"
definition IO :: int where "IO = 3"

definition BUF_SIZE :: nat where "BUF_SIZE = 512"
definition MAX_PROCESS_COUNT :: nat where "MAX_PROCESS_COUNT = 2048"

lemmas criterion_defs = PID_def VIRT_def RSS_def IO_def

text \<open>The global variables, with the entries of \<open>/proc\<close> the module has created and their modes.\<close>

record procmon =
  currentValue :: int
  sortingBuf :: string
  normalBuf :: string
  proc_entries :: "(string \<times> nat) list"

section \<open>Sorting\<close>

text \<open>The comparison of the \<open>switch\<close>: adjacent elements are exchanged when it holds.\<close>

definition exchange :: "int \<Rightarrow> mydata \<Rightarrow> mydata \<Rightarrow> bool" where
  "exchange cv a b =
     (if cv = PID then md_pid a > md_pid b
      else if cv = VIRT then sint (md_virt a) < sint (md_virt b)
      else if cv = RSS then sint (md_rss a) < sint (md_rss b)
      else if cv = IO then sint (md_totalio a) < sint (md_totalio b)
      else False)"

definition bubble_body :: "int \<Rightarrow> int \<Rightarrow> mydata list \<Rightarrow> mydata list option" where
  "bubble_body cv j data =
     (if cv \<in> {PID, VIRT, RSS, IO} then do {
        a \<leftarrow> arr_get data j;
        b \<leftarrow> arr_get data (j + 1);
        if exchange cv a b then do { data \<leftarrow> arr_set data j b; arr_set data (j + 1) a }
        else Some data
      }
      else Some data)"

definition bubblesort :: "int \<Rightarrow> mydata list \<Rightarrow> int \<Rightarrow> mydata list option" where
  "bubblesort cv data len =
     each (\<lambda>i. each (bubble_body cv) [0..len - i - 2]) [0..len - 2] data"

section \<open>The table\<close>

text \<open>What the handler reads of a process. The accounting data has a type of the kernel.\<close>

record mm_struct =
  total_vm :: "64 word"
  filepages :: long
  anonpages :: long

record 'io task =
  t_pid :: int
  t_comm :: string
  t_active_mm :: "mm_struct option"
  t_signal_ioac :: 'io
  t_thread_ioac :: "'io list"

text \<open>The functions of \<open>linux/task_io_accounting_ops.h\<close> the handler calls.\<close>

record 'io io_accounting =
  io_init :: 'io
  io_add :: "'io \<Rightarrow> 'io \<Rightarrow> 'io"
  read_bytes :: "'io \<Rightarrow> 64 word"
  write_bytes :: "'io \<Rightarrow> 64 word"

definition PAGE_SIZE :: "64 word" where "PAGE_SIZE = 4096"

definition mm_virt :: "mm_struct \<Rightarrow> long" where
  "mm_virt mm = (if total_vm mm \<noteq> 0 then total_vm mm * PAGE_SIZE div 1024 else 0)"

definition mm_rss :: "mm_struct \<Rightarrow> long" where
  "mm_rss mm = (let r = (if sint (filepages mm) < 0 then 0 else filepages mm);
                    r = (if sint (anonpages mm) < 0 then r else r + anonpages mm)
                in r * (PAGE_SIZE div 1024))"

definition task_io :: "'io io_accounting \<Rightarrow> 'io task \<Rightarrow> 'io" where
  "task_io acc p = foldl (io_add acc) (io_add acc (io_init acc) (t_signal_ioac p)) (t_thread_ioac p)"

definition task_row :: "'io io_accounting \<Rightarrow> 'io task \<Rightarrow> mydata" where
  "task_row acc p =
     (let io = task_io acc p;
          dr = read_bytes acc io div 1024;
          dw = write_bytes acc io div 1024
      in \<lparr>md_pid = t_pid p, md_name = t_comm p,
          md_virt = (case t_active_mm p of None \<Rightarrow> 0 | Some mm \<Rightarrow> mm_virt mm),
          md_rss = (case t_active_mm p of None \<Rightarrow> 0 | Some mm \<Rightarrow> mm_rss mm),
          md_diskread = dr, md_diskwrite = dw, md_totalio = dr + dw\<rparr>)"

text \<open>One turn of \<open>for_each_process\<close>: the name is copied into an array of 32 characters with its
  terminator, and the row must lie inside the array of rows.\<close>

definition collect_one :: "'io io_accounting \<Rightarrow> 'io task \<Rightarrow> mydata list \<times> int \<Rightarrow> (mydata list \<times> int) option" where
  "collect_one acc p = (\<lambda>(dataset, n).
     if length (t_comm p) < 32
     then map_option (\<lambda>d. (d, n + 1)) (arr_set dataset n (task_row acc p))
     else None)"

definition zero_row :: mydata where
  "zero_row = \<lparr>md_pid = 0, md_name = [], md_virt = 0, md_rss = 0, md_diskread = 0, md_diskwrite = 0, md_totalio = 0\<rparr>"

text \<open>The conversions \<open>%d\<close>, \<open>%8ld\<close> and \<open>%16s\<close>.\<close>

definition pad :: "nat \<Rightarrow> string \<Rightarrow> string" where
  "pad w s = replicate (w - length s) CHR '' '' @ s"

definition format_row :: "mydata \<Rightarrow> string" where
  "format_row d =
     dec_int (md_pid d) @ [CHR 0x09] @ pad 16 (md_name d)
     @ concat (map (\<lambda>v. CHR 0x09 # pad 8 (dec_int (sint v)))
         [md_virt d, md_rss d, md_diskread d, md_diskwrite d, md_totalio d])
     @ [CHR 0x0A]"

definition table_head :: "string list" where
  "table_head =
     [''======= Process Monitoring Manager for EE516 made by BoHun Seo ====== '' @ [CHR 0x0A],
      ''PID'' @ [CHR 0x09, CHR 0x09] @ ''ProcessName'' @ [CHR 0x09] @ ''VIRT(KB)'' @ [CHR 0x09] @ ''RSS Mem(KB)''
      @ [CHR 0x09] @ ''DiskRead(KB)'' @ [CHR 0x09] @ ''DiskWrite(KB)'' @ [CHR 0x09] @ ''Total I/O(KB)'' @ [CHR 0x0A]]"

definition procmon_proc_show :: "'io io_accounting \<Rightarrow> 'io task list \<Rightarrow> procmon \<Rightarrow> string list option" where
  "procmon_proc_show acc ps s = do {
     (dataset, processCount) \<leftarrow> each (collect_one acc) ps (replicate MAX_PROCESS_COUNT zero_row, 0);
     dataset \<leftarrow> bubblesort (currentValue s) dataset processCount;
     rows \<leftarrow> each (\<lambda>i out. map_option (\<lambda>d. out @ [format_row d]) (arr_get dataset i)) [0..processCount - 1] table_head;
     Some rows
   }"

section \<open>The selection file\<close>

text \<open>\<open>copy_from_user\<close> on a user buffer of which the given bytes are accessible: it copies what it can and
  returns the number of bytes it could not copy.\<close>

definition copy_from_user :: "string \<Rightarrow> string \<Rightarrow> nat \<Rightarrow> nat \<times> string" where
  "copy_from_user dst src n = (n - length src, take n src @ drop (min n (length src)) dst)"

definition NUL :: char where "NUL = CHR 0x00"

text \<open>The C string in an array: undefined when the array holds no terminator.\<close>

definition c_string :: "string \<Rightarrow> string option" where
  "c_string b = (if NUL \<in> set b then Some (takeWhile (\<lambda>c. c \<noteq> NUL) b) else None)"

definition EFAULT :: int where "EFAULT = 14"

text \<open>The white space of the kernel's character table: the C characters and the no-break space.\<close>

definition isspace :: "char \<Rightarrow> bool" where
  "isspace c \<longleftrightarrow> c \<in> {CHR '' '', CHR 0x09, CHR 0x0A, CHR 0x0B, CHR 0x0C, CHR 0x0D, CHR 0xA0}"

text \<open>The loop that clears trailing white space, from the index before the first argument downwards.\<close>

fun trim_loop :: "nat \<Rightarrow> string \<Rightarrow> string option" where
  "trim_loop 0 b = Some b"
| "trim_loop (Suc i) b = do {
     c \<leftarrow> arr_get b (int i);
     if isspace c then do { b \<leftarrow> arr_set b (int i) NUL; trim_loop i b } else Some b
   }"

definition procmon_proc_write :: "string \<Rightarrow> nat \<Rightarrow> procmon \<Rightarrow> (int \<times> procmon) option" where
  "procmon_proc_write buf cnt s =
     (let cnt = (if cnt > BUF_SIZE then BUF_SIZE else cnt);
          (left, b) = copy_from_user (replicate BUF_SIZE NUL) buf cnt;
          s = s\<lparr>normalBuf := b\<rparr>
      in if left \<noteq> 0 then Some (- EFAULT, s)
         else do { _ \<leftarrow> c_string b; Some (int cnt, s) })"

definition procmon_proc_selection_write :: "string \<Rightarrow> nat \<Rightarrow> procmon \<Rightarrow> (int \<times> procmon) option" where
  "procmon_proc_selection_write buf cnt s =
     (let cnt = (if cnt > BUF_SIZE then BUF_SIZE else cnt);
          (left, b) = copy_from_user (replicate BUF_SIZE NUL) buf cnt
      in if left \<noteq> 0 then Some (- EFAULT, s\<lparr>sortingBuf := b\<rparr>)
         else do {
           str \<leftarrow> c_string b;
           b \<leftarrow> trim_loop (length str) b;
           word \<leftarrow> c_string b;
           let cv = (if word = ''pid'' then PID
                     else if word = ''virt'' then VIRT
                     else if word = ''rss'' then RSS
                     else if word = ''io'' then IO
                     else currentValue s);
           Some (int cnt, s\<lparr>sortingBuf := b, currentValue := cv\<rparr>)
         })"

definition procmon_proc_selection_show :: "procmon \<Rightarrow> string" where
  "procmon_proc_selection_show s =
     (if currentValue s = PID then ''[PID] VIRT RSS IO''
      else if currentValue s = VIRT then ''PID [VIRT] RSS IO''
      else if currentValue s = RSS then ''PID VIRT [RSS] IO''
      else if currentValue s = IO then ''PID VIRT RSS [IO]''
      else ''What a Terrible Failure : WTF'') @ [CHR 0x0A]"

section \<open>Loading and unloading\<close>

definition procmon_boot :: procmon where
  "procmon_boot = \<lparr>currentValue = 0, sortingBuf = replicate BUF_SIZE NUL, normalBuf = replicate BUF_SIZE NUL,
     proc_entries = []\<rparr>"

text \<open>The arguments say which of the two \<open>proc_create\<close> calls succeed.\<close>

definition init_procmon :: "bool \<Rightarrow> bool \<Rightarrow> procmon \<Rightarrow> int \<times> procmon" where
  "init_procmon ok1 ok2 s =
     (let s = s\<lparr>currentValue := PID\<rparr>
      in if \<not> ok1 then (- 1, s)
         else let s = s\<lparr>proc_entries := (''procmon'', 644) # proc_entries s\<rparr>
              in if \<not> ok2 then (- 1, s)
                 else (0, s\<lparr>proc_entries := (''procmon_sorting'', 644) # proc_entries s\<rparr>))"

definition remove_proc_entry :: "string \<Rightarrow> procmon \<Rightarrow> procmon" where
  "remove_proc_entry name s = s\<lparr>proc_entries := filter (\<lambda>(n, _). n \<noteq> name) (proc_entries s)\<rparr>"

definition exit_procmon :: "procmon \<Rightarrow> procmon" where
  "exit_procmon s = remove_proc_entry ''procmon_sorting'' (remove_proc_entry ''procmon'' s)"


section \<open>Bubble sort\<close>

text \<open>The interface of the sorting loops: a test on adjacent elements that compares a key. One pass
  of the inner loop moves a maximum to the end; the passes on shorter and shorter prefixes give the stable
  sort by the key.\<close>

fun pass :: "('a \<Rightarrow> 'a \<Rightarrow> bool) \<Rightarrow> 'a list \<Rightarrow> 'a list" where
  "pass swap (x # y # zs) = (if swap x y then y # pass swap (x # zs) else x # pass swap (y # zs))"
| "pass swap xs = xs"

lemma two_induct [case_names Nil single two]:
  assumes "P []" "\<And>x. P [x]" "\<And>x y zs. P (x # zs) \<Longrightarrow> P (y # zs) \<Longrightarrow> P (x # y # zs)"
  shows "P xs"
proof (induction xs rule: length_induct)
  case (1 xs)
  with assms show ?case by (cases xs rule: remdups_adj.cases) auto
qed

lemma length_pass [simp]: "length (pass swap xs) = length xs"
  by (induction swap xs rule: pass.induct) auto

lemma pass_Nil_iff [simp]: "pass swap xs = [] \<longleftrightarrow> xs = []"
  by (metis length_0_conv length_pass)

locale keyed_order =
  fixes swap :: "'a \<Rightarrow> 'a \<Rightarrow> bool"
    and key :: "'a \<Rightarrow> int"
  assumes swap_key: "swap a b \<longleftrightarrow> key b < key a"
begin

lemma mset_pass: "mset (pass swap xs) = mset xs"
  by (induction xs rule: two_induct) auto

lemma filter_pass: "filter (\<lambda>x. k = key x) (pass swap xs) = filter (\<lambda>x. k = key x) xs"
  by (induction xs rule: two_induct) (auto simp: swap_key)

lemma last_pass_max: "x \<in> set xs \<Longrightarrow> key x \<le> key (last (pass swap xs))"
proof (induction xs arbitrary: x rule: two_induct)
  case (two u v zs)
  have "key u \<le> key (last (pass swap (u # zs)))" "key v \<le> key (last (pass swap (v # zs)))"
    using two.IH by auto
  with two.IH [of x] two.prems show ?case by (cases "swap u v") (auto simp: swap_key [of u v])
qed auto

lemma sort_pass:
  assumes "xs \<noteq> []"
  shows "sort_key key xs = sort_key key (butlast (pass swap xs)) @ [last (pass swap xs)]"
proof (rule properties_for_sort_key)
  let ?p = "pass swap xs"
  have split: "?p = butlast ?p @ [last ?p]" using assms by simp
  have "mset (butlast ?p @ [last ?p]) = mset xs" using mset_pass [of xs] split by metis
  then show "mset (sort_key key (butlast ?p) @ [last ?p]) = mset xs" by simp
  show "filter (\<lambda>x. key k = key x) (sort_key key (butlast ?p) @ [last ?p]) = filter (\<lambda>x. key k = key x) xs" for k
  proof -
    have "filter (\<lambda>x. key k = key x) (sort_key key (butlast ?p) @ [last ?p]) = filter (\<lambda>x. key k = key x) (butlast ?p @ [last ?p])"
      by (simp add: sort_key_stable eq_commute [of "key k"])
    then show ?thesis using filter_pass split by metis
  qed
  show "sorted (map key (sort_key key (butlast ?p) @ [last ?p]))"
    using last_pass_max [of _ xs] set_mset_mset [of ?p] mset_pass [of xs] assms
    by (auto simp: sorted_append dest!: in_set_butlastD)
qed

end


definition sort_field :: "int \<Rightarrow> mydata \<Rightarrow> int" where
  "sort_field cv d =
     (if cv = PID then md_pid d else if cv = VIRT then - sint (md_virt d)
      else if cv = RSS then - sint (md_rss d) else if cv = IO then - sint (md_totalio d) else 0)"

interpretation pm: keyed_order "exchange cv" "sort_field cv" for cv
  by unfold_locales (auto simp: exchange_def sort_field_def)

lemma bubble_body_at:
  "bubble_body cv (int (length pre)) (pre @ x # y # zs) =
     Some (if exchange cv x y then pre @ y # x # zs else pre @ x # y # zs)"
  by (auto simp: bubble_body_def exchange_def nth_append list_update_append nat_add_distrib)

lemma inner_loop:
  "each (bubble_body cv) [int (length pre)..int (length pre + length xs) - 1] (pre @ x # xs @ post)
     = Some (pre @ pass (exchange cv) (x # xs) @ post)"
proof (induction xs arbitrary: pre x)
  case Nil
  then show ?case by simp
next
  case (Cons y zs)
  let ?z = "if exchange cv x y then y else x" and ?w = "if exchange cv x y then x else y"
  have up: "[int (length pre)..int (length pre + length (y # zs)) - 1] =
      int (length pre) # [int (length (pre @ [?z]))..int (length (pre @ [?z]) + length zs) - 1]"
    by (simp add: upto_rec1 ac_simps)
  have "bubble_body cv (int (length pre)) (pre @ x # (y # zs) @ post) = Some ((pre @ [?z]) @ ?w # zs @ post)"
    using bubble_body_at [of cv pre x y "zs @ post"] by simp
  with Cons.IH [of "pre @ [?z]" ?w] up show ?case by simp
qed

lemma outer_loop:
  "each (\<lambda>i. each (bubble_body cv) [0..len - i - 2]) [len - int (length ws)..len - 2] (ws @ post)
     = Some (sort_key (sort_field cv) ws @ post)"
proof (induction "length ws" arbitrary: ws post)
  case 0
  then show ?case by simp
next
  case (Suc n)
  then obtain x xs where ws: "ws = x # xs" by (cases ws) auto
  show ?case
  proof (cases "n = 0")
    case True
    with Suc ws show ?thesis by simp
  next
    case False
    let ?p = "pass (exchange cv) ws"
    have p: "?p = butlast ?p @ [last ?p]" using ws by (metis append_butlast_last_id list.discI pass_Nil_iff)
    have inner: "each (bubble_body cv) [0..len - (len - int (length ws)) - 2] (ws @ post) = Some (?p @ post)"
      using inner_loop [of cv "[]" xs x post] ws by simp
    have len: "length (butlast ?p) = n" using Suc.hyps(2) by simp
    have up: "[len - int (length ws)..len - 2] = (len - int (length ws)) # [len - int (length (butlast ?p))..len - 2]"
      using False Suc.hyps(2) by (simp add: upto_rec1 algebra_simps)
    have "each (\<lambda>i. each (bubble_body cv) [0..len - i - 2]) [len - int (length (butlast ?p))..len - 2] (butlast ?p @ last ?p # post)
        = Some (sort_key (sort_field cv) (butlast ?p) @ last ?p # post)"
      using len Suc.hyps(1) by blast
    moreover have "each (\<lambda>i. each (bubble_body cv) [0..len - i - 2]) [len - int (length ws)..len - 2] (ws @ post)
        = each (\<lambda>i. each (bubble_body cv) [0..len - i - 2]) [len - int (length (butlast ?p))..len - 2] (butlast ?p @ last ?p # post)"
      unfolding up each.simps inner bind.bind_lunit using p by (metis append.assoc append_Cons append_Nil)
    moreover have "sort_key (sort_field cv) ws = sort_key (sort_field cv) (butlast ?p) @ [last ?p]"
      using ws by (intro pm.sort_pass) simp
    ultimately show ?thesis by simp
  qed
qed

text \<open>The bubble sort of any prefix of an array, by any criterion, is the stable sort of that prefix.\<close>

lemma bubblesort_sorts:
  assumes "n \<le> length data"
  shows "bubblesort cv data (int n) = Some (sort_key (sort_field cv) (take n data) @ drop n data)"
proof -
  have "length (take n data) = n" using assms by simp
  then show ?thesis
    using outer_loop [of cv "int n" "take n data" "drop n data"] by (simp add: bubblesort_def)
qed


section \<open>The table\<close>

lemma collect_all:
  "length done \<le> length arr \<Longrightarrow> take (length done) arr = done \<Longrightarrow> \<forall>p \<in> set ps. length (t_comm p) < 32 \<Longrightarrow>
   each (collect_one acc) ps (arr, int (length done)) =
     (if length done + length ps \<le> length arr
      then Some (done @ map (task_row acc) ps @ drop (length done + length ps) arr, int (length done + length ps))
      else None)"
proof (induction ps arbitrary: "done" arr)
  case Nil
  then show ?case by simp (metis append_take_drop_id)
next
  case (Cons p ps)
  show ?case
  proof (cases "length done < length arr")
    case True
    let ?arr = "arr[length done := task_row acc p]" and ?done = "done @ [task_row acc p]"
    have one: "collect_one acc p (arr, int (length done)) = Some (?arr, int (length ?done))"
      using True Cons.prems(3) by (simp add: collect_one_def)
    have "take (length ?done) ?arr = ?done"
      using True Cons.prems(2) by (simp add: take_Suc_conv_app_nth)
    with Cons.IH [of ?done ?arr] one True Cons.prems show ?thesis by simp
  next
    case False
    then have "collect_one acc p (arr, int (length done)) = None" by (simp add: collect_one_def)
    with False show ?thesis by simp
  qed
qed

lemma print_rows:
  "k \<le> length data \<Longrightarrow> each (\<lambda>i out. map_option (\<lambda>d. out @ [format_row d]) (arr_get data i)) [0..int k - 1] out
     = Some (out @ map format_row (take k data))"
proof (induction k)
  case 0
  then show ?case by simp
next
  case (Suc k)
  have "[0..int (Suc k) - 1] = [0..int k - 1] @ [int k]" by (simp add: upto_rec2)
  with Suc show ?case by (simp add: each_append take_Suc_conv_app_nth)
qed

text \<open>C29. The table of processes: with process names that fit their array, reading \<open>/proc/procmon\<close> prints the
  heading and then one row for every process, stably sorted in ascending order of process id or in descending order
  of the selected amount; with more than 2048 processes the handler writes outside its array.\<close>

theorem procmon_table:
  assumes names: "\<forall>p \<in> set ps. length (t_comm p) < 32"
  shows "procmon_proc_show acc ps s =
    (if length ps \<le> 2048
     then Some (table_head @ map format_row (sort_key (sort_field (currentValue s)) (map (task_row acc) ps)))
     else None)"
proof -
  let ?arr = "replicate MAX_PROCESS_COUNT zero_row" and ?rows = "map (task_row acc) ps"
  let ?sorted = "sort_key (sort_field (currentValue s)) ?rows @ drop (length ps) ?arr"
  have collect: "each (collect_one acc) ps (?arr, 0) =
      (if length ps \<le> MAX_PROCESS_COUNT then Some (?rows @ drop (length ps) ?arr, int (length ps)) else None)"
    using collect_all [of "[]" ?arr ps acc] names by simp
  have sort: "bubblesort (currentValue s) (?rows @ drop (length ps) ?arr) (int (length ps)) = Some ?sorted"
    using bubblesort_sorts [of "length ps" "?rows @ drop (length ps) ?arr" "currentValue s"] by simp
  have print: "each (\<lambda>i out. map_option (\<lambda>d. out @ [format_row d]) (arr_get ?sorted i)) [0..int (length ps) - 1] table_head
      = Some (table_head @ map format_row (sort_key (sort_field (currentValue s)) ?rows))"
    using print_rows [of "length ps" ?sorted table_head] by simp
  show ?thesis
    using collect sort print by (simp add: procmon_proc_show_def MAX_PROCESS_COUNT_def [symmetric])
qed


section \<open>Selecting the criterion\<close>

definition rstrip :: "string \<Rightarrow> string" where
  "rstrip s = rev (dropWhile isspace (rev s))"

lemma c_string_append [simp]: "NUL \<notin> set xs \<Longrightarrow> c_string (xs @ NUL # ys) = Some xs"
  unfolding c_string_def by (subst takeWhile_append2) auto

lemma set_rstrip: "set (rstrip s) \<subseteq> set s"
  by (auto simp: rstrip_def dest: set_dropWhileD)

lemma trim_loop_strips:
  "NUL \<notin> set xs \<Longrightarrow> \<exists>b. trim_loop (length xs) (xs @ NUL # ys) = Some b \<and> c_string b = Some (rstrip xs)"
proof (induction xs arbitrary: ys rule: rev_induct)
  case Nil
  then show ?case by (simp add: c_string_def rstrip_def)
next
  case (snoc x xs)
  show ?case
  proof (cases "isspace x")
    case True
    with snoc.IH [of "NUL # ys"] snoc.prems show ?thesis by (simp add: nth_append list_update_append rstrip_def)
  next
    case False
    then have "rstrip (xs @ [x]) = xs @ [x]" by (simp add: rstrip_def)
    with False snoc.prems c_string_append [of "xs @ [x]" ys] show ?thesis by (simp add: nth_append)
  qed
qed

definition criterion_of :: "string \<Rightarrow> int option" where
  "criterion_of = map_of [(''pid'', PID), (''virt'', VIRT), (''rss'', RSS), (''io'', IO)]"

lemma copy_all:
  "length buf \<le> BUF_SIZE \<Longrightarrow>
   copy_from_user (replicate BUF_SIZE NUL) buf (length buf) = (0, buf @ replicate (BUF_SIZE - length buf) NUL)"
  by (simp add: copy_from_user_def)

lemma selection_buffer:
  assumes "length buf < BUF_SIZE"
  shows "\<exists>ys. buf @ replicate (BUF_SIZE - length buf) NUL
    = takeWhile (\<lambda>c. c \<noteq> NUL) buf @ NUL # ys"
proof (cases "NUL \<in> set buf")
  case True
  then have "dropWhile (\<lambda>c. c \<noteq> NUL) buf = NUL # tl (dropWhile (\<lambda>c. c \<noteq> NUL) buf)"
    by (metis (mono_tags, lifting) dropWhile_eq_Nil_conv hd_dropWhile list.collapse)
  then have "buf = takeWhile (\<lambda>c. c \<noteq> NUL) buf @ NUL # tl (dropWhile (\<lambda>c. c \<noteq> NUL) buf)"
    by (metis takeWhile_dropWhile_id)
  then show ?thesis by (metis append.assoc append_Cons)
next
  case False
  then have "takeWhile (\<lambda>c. c \<noteq> NUL) buf = buf" by (auto simp: takeWhile_eq_all_conv)
  moreover have "replicate (BUF_SIZE - length buf) NUL = NUL # replicate (BUF_SIZE - length buf - 1) NUL"
    using assms by (cases "BUF_SIZE - length buf") auto
  ultimately show ?thesis by metis
qed

text \<open>Selecting the criterion: a write of fewer than 512 accessible bytes is accepted as a whole; the text up to
  its first zero byte, without trailing white space, selects the criterion it names and leaves the choice alone when
  it names none; a write of 512 bytes with no zero byte runs past the buffer; a write of inaccessible
  bytes returns \<open>-EFAULT\<close> and selects nothing.\<close>

lemma procmon_selection:
  shows "(length buf < 512 \<longrightarrow> (\<exists>b. procmon_proc_selection_write buf (length buf) s =
      Some (int (length buf), s\<lparr>sortingBuf := b, currentValue :=
        (case criterion_of (rstrip (takeWhile (\<lambda>c. c \<noteq> NUL) buf)) of Some cv \<Rightarrow> cv | None \<Rightarrow> currentValue s)\<rparr>)))
    \<and> (512 \<le> length buf \<longrightarrow> 512 \<le> n \<longrightarrow> NUL \<notin> set buf \<longrightarrow> procmon_proc_selection_write buf n s = None)
    \<and> (length buf < n \<longrightarrow> length buf < 512 \<longrightarrow> (\<exists>b. procmon_proc_selection_write buf n s = Some (- 14, s\<lparr>sortingBuf := b\<rparr>)))"
    (is "?ok \<and> ?over \<and> ?fault")
proof -
  have ?ok
  proof
    assume "length buf < 512"
    then have len: "length buf < BUF_SIZE" by (simp add: BUF_SIZE_def)
    from selection_buffer [OF this] obtain ys where
      ys: "buf @ replicate (BUF_SIZE - length buf) NUL = takeWhile (\<lambda>c. c \<noteq> NUL) buf @ NUL # ys" by blast
    let ?w = "takeWhile (\<lambda>c. c \<noteq> NUL) buf"
    have nul: "NUL \<notin> set ?w" by (metis (mono_tags) set_takeWhileD)
    from trim_loop_strips [OF this, of ys] obtain b where
      b: "trim_loop (length ?w) (?w @ NUL # ys) = Some b" "c_string b = Some (rstrip ?w)" by blast
    show "\<exists>b. procmon_proc_selection_write buf (length buf) s = Some (int (length buf), s\<lparr>sortingBuf := b, currentValue :=
        (case criterion_of (rstrip ?w) of Some cv \<Rightarrow> cv | None \<Rightarrow> currentValue s)\<rparr>)"
      using len b nul ys copy_all [of buf] by (auto simp: procmon_proc_selection_write_def criterion_of_def)
  qed
  moreover have ?over
    by (auto simp: procmon_proc_selection_write_def copy_from_user_def BUF_SIZE_def c_string_def dest: in_set_takeD)
  moreover have ?fault
    by (auto simp: procmon_proc_selection_write_def copy_from_user_def BUF_SIZE_def EFAULT_def)
  ultimately show ?thesis by blast
qed


section \<open>Examples\<close>

definition pair_accounting :: "(64 word \<times> 64 word) io_accounting" where
  "pair_accounting = \<lparr>io_init = (0, 0), io_add = (\<lambda>(a, b) (c, d). (a + c, b + d)), read_bytes = fst, write_bytes = snd\<rparr>"

definition two_tasks :: "(64 word \<times> 64 word) task list" where
  "two_tasks =
     [\<lparr>t_pid = 1, t_comm = ''init'', t_active_mm = Some \<lparr>total_vm = 10, filepages = 2, anonpages = - 1\<rparr>,
       t_signal_ioac = (0, 0), t_thread_ioac = [(2048, 0)]\<rparr>,
      \<lparr>t_pid = 2, t_comm = ''sh'', t_active_mm = Some \<lparr>total_vm = 20, filepages = 1, anonpages = 3\<rparr>,
       t_signal_ioac = (1024, 1024), t_thread_ioac = []\<rparr>]"

theorem procmon_table_witness:
  "procmon_proc_show pair_accounting two_tasks (procmon_boot\<lparr>currentValue := RSS\<rparr>) =
     Some (table_head @ map format_row
       [\<lparr>md_pid = 2, md_name = ''sh'', md_virt = 80, md_rss = 16, md_diskread = 1, md_diskwrite = 1, md_totalio = 2\<rparr>,
        \<lparr>md_pid = 1, md_name = ''init'', md_virt = 40, md_rss = 8, md_diskread = 2, md_diskwrite = 0, md_totalio = 2\<rparr>])"
proof -
  have rows: "map (task_row pair_accounting) two_tasks =
      [\<lparr>md_pid = 1, md_name = ''init'', md_virt = 40, md_rss = 8, md_diskread = 2, md_diskwrite = 0, md_totalio = 2\<rparr>,
       \<lparr>md_pid = 2, md_name = ''sh'', md_virt = 80, md_rss = 16, md_diskread = 1, md_diskwrite = 1, md_totalio = 2\<rparr>]"
    by code_simp
  have names: "\<forall>p \<in> set two_tasks. length (t_comm p) < 32" "length two_tasks \<le> 2048" by (simp_all add: two_tasks_def)
  show ?thesis
    unfolding procmon_table [OF names(1)] rows using names(2) by (simp add: sort_field_def criterion_defs)
qed

theorem procmon_selection_witness:
  "\<exists>b. procmon_proc_selection_write (''rss'' @ [CHR 0x0A]) (length (''rss'' @ [CHR 0x0A])) procmon_boot = Some (4, procmon_boot\<lparr>sortingBuf := b, currentValue := RSS\<rparr>)"
proof -
  have "criterion_of (rstrip (takeWhile (\<lambda>c. c \<noteq> NUL) (''rss'' @ [CHR 0x0A]))) = Some RSS" by code_simp
  then show ?thesis using procmon_selection [of "''rss'' @ [CHR 0x0A]" procmon_boot 0] by simp
qed

end
