(* ===== verification/ProcSample.thy ===== *)
theory ProcSample
  imports Procmon
begin

text \<open>
  \<open>src/project2/proc_sample.c\<close>, the module the process monitor started from: one proc file with a constant text, whose
  writes are copied to a buffer and logged as a string.
\<close>

record sample =
  mybuf :: string
  sample_entries :: "(string \<times> int) list"

definition sample_boot :: sample where
  "sample_boot = \<lparr>mybuf = replicate BUF_SIZE NUL, sample_entries = []\<rparr>"

definition sample_proc_show :: string where
  "sample_proc_show = ''======= Contents ====== '' @ [CHR 0x0A]"

text \<open>The second component of the result is the line the kernel logs, if the write gets that far.\<close>

definition sample_proc_write :: "string \<Rightarrow> nat \<Rightarrow> sample \<Rightarrow> (int \<times> string option \<times> sample) option" where
  "sample_proc_write buf cnt s =
     (let cnt = (if cnt > BUF_SIZE then BUF_SIZE else cnt);
          (left, b) = copy_from_user (replicate BUF_SIZE NUL) buf cnt;
          s = s\<lparr>mybuf := b\<rparr>
      in if left \<noteq> 0 then Some (- EFAULT, None, s)
         else do { str \<leftarrow> c_string b; Some (int cnt, Some (''proc write : '' @ str @ [CHR 0x0A]), s) })"

definition sample_init :: "bool \<Rightarrow> sample \<Rightarrow> int \<times> sample" where
  "sample_init ok s = (if \<not> ok then (- 1, s) else (0, s\<lparr>sample_entries := (''proc_sample'', 644) # sample_entries s\<rparr>))"

definition sample_exit :: "sample \<Rightarrow> sample" where
  "sample_exit s = s\<lparr>sample_entries := filter (\<lambda>(n, _). n \<noteq> ''proc_sample'') (sample_entries s)\<rparr>"

text \<open>A write of fewer than 512 accessible bytes without a zero byte is logged as it is and accepted completely; inaccessible bytes
  give \<open>-EFAULT\<close>; a full buffer has no terminator, and logging it runs past its end.\<close>

lemma copied: "length buf \<ge> cnt \<Longrightarrow> copy_from_user dst buf cnt = (0, take cnt buf @ drop cnt dst)"
  by (simp add: copy_from_user_def min_def)

lemma sample_write_logged:
  assumes "length buf = cnt" "cnt < BUF_SIZE" "NUL \<notin> set buf"
  shows "\<exists>s'. sample_proc_write buf cnt s = Some (int cnt, Some (''proc write : '' @ buf @ [CHR 0x0A]), s')"
proof -
  obtain k where k: "BUF_SIZE = cnt + Suc k" using assms(2) less_imp_Suc_add by (metis add_Suc_right)
  have pad: "drop cnt (replicate BUF_SIZE NUL) = NUL # replicate k NUL" unfolding k by (simp del: replicate_Suc) simp
  have "c_string (buf @ drop cnt (replicate BUF_SIZE NUL)) = Some buf"
    using assms(3) unfolding c_string_def pad by (auto simp: takeWhile_append)
  with assms show ?thesis by (simp add: sample_proc_write_def copied)
qed

lemma sample_write_refused: "length buf < cnt \<Longrightarrow> cnt \<le> BUF_SIZE \<Longrightarrow> \<exists>s'. sample_proc_write buf cnt s = Some (- EFAULT, None, s')"
  by (simp add: sample_proc_write_def copy_from_user_def)

lemma sample_write_undefined: "length buf = BUF_SIZE \<Longrightarrow> NUL \<notin> set buf \<Longrightarrow> sample_proc_write buf BUF_SIZE s = None"
  by (simp add: sample_proc_write_def copied c_string_def)

lemma sample_unloaded: "snd (sample_init True s) = s' \<Longrightarrow> ''proc_sample'' \<notin> fst ` set (sample_entries (sample_exit s'))"
  by (auto simp: sample_exit_def)

end
