(* ===== verification/HList.thy ===== *)
theory HList
  imports KList
begin

text \<open>
  \<open>src/project4/list.h\<close>, second half: the lists for hash tables, whose head is a single pointer and whose nodes
  know the pointer that points to them (\<open>pprev\<close>) instead of their predecessor. The heap holds heads and nodes; a
  \<open>pprev\<close> is the address of a field, modelled as a slot. The operations are shown to act on a table of
  disjoint sequences, one for every head.
\<close>

section \<open>Heads, nodes and slots\<close>

datatype slot = NullSlot | PoisonSlot | FirstOf ptr | NextOf ptr

record hlist_node =
  hnext :: ptr
  pprev :: slot

record hlists =
  heads :: "ptr \<rightharpoonup> ptr"
  nodes :: "ptr \<rightharpoonup> hlist_node"

definition NULL :: ptr where "NULL = 0"

definition load :: "slot \<Rightarrow> hlists \<Rightarrow> ptr option" where
  "load sl s = (case sl of FirstOf h \<Rightarrow> heads s h | NextOf n \<Rightarrow> map_option hnext (nodes s n) | _ \<Rightarrow> None)"

definition store :: "slot \<Rightarrow> ptr \<Rightarrow> hlists \<Rightarrow> hlists option" where
  "store sl v s =
     (case sl of
        FirstOf h \<Rightarrow> map_option (\<lambda>_. s\<lparr>heads := (heads s)(h \<mapsto> v)\<rparr>) (heads s h)
      | NextOf n \<Rightarrow> map_option (\<lambda>x. s\<lparr>nodes := (nodes s)(n \<mapsto> x\<lparr>hnext := v\<rparr>)\<rparr>) (nodes s n)
      | _ \<Rightarrow> None)"

definition pprev_of :: "ptr \<Rightarrow> hlists \<Rightarrow> slot option" where
  "pprev_of n s = map_option pprev (nodes s n)"

definition set_pprev :: "ptr \<Rightarrow> slot \<Rightarrow> hlists \<Rightarrow> hlists option" where
  "set_pprev n sl s = map_option (\<lambda>x. s\<lparr>nodes := (nodes s)(n \<mapsto> x\<lparr>pprev := sl\<rparr>)\<rparr>) (nodes s n)"

section \<open>The operations\<close>

definition INIT_HLIST_HEAD :: "ptr \<Rightarrow> hlists \<Rightarrow> hlists option" where
  "INIT_HLIST_HEAD h s = store (FirstOf h) NULL s"

definition INIT_HLIST_NODE :: "ptr \<Rightarrow> hlists \<Rightarrow> hlists option" where
  "INIT_HLIST_NODE n s = do { s \<leftarrow> store (NextOf n) NULL s; set_pprev n NullSlot s }"

definition hlist_unhashed :: "ptr \<Rightarrow> hlists \<Rightarrow> bool option" where
  "hlist_unhashed n s = map_option (\<lambda>sl. sl = NullSlot) (pprev_of n s)"

definition hlist_empty :: "ptr \<Rightarrow> hlists \<Rightarrow> bool option" where
  "hlist_empty h s = map_option (\<lambda>p. p = NULL) (load (FirstOf h) s)"

definition hlist_unlink :: "ptr \<Rightarrow> hlists \<Rightarrow> hlists option" where
  "hlist_unlink n s = do {
     next \<leftarrow> load (NextOf n) s;
     pp \<leftarrow> pprev_of n s;
     s \<leftarrow> store pp next s;
     if next \<noteq> NULL then set_pprev next pp s else Some s
   }"

definition hlist_del :: "ptr \<Rightarrow> hlists \<Rightarrow> hlists option" where
  "hlist_del n s = do {
     s \<leftarrow> hlist_unlink n s;
     s \<leftarrow> store (NextOf n) LIST_POISON1 s;
     set_pprev n PoisonSlot s
   }"

definition hlist_del_init :: "ptr \<Rightarrow> hlists \<Rightarrow> hlists option" where
  "hlist_del_init n s = do {
     pp \<leftarrow> pprev_of n s;
     if pp \<noteq> NullSlot then do { s \<leftarrow> hlist_unlink n s; INIT_HLIST_NODE n s } else Some s
   }"

definition hlist_add_head :: "ptr \<Rightarrow> ptr \<Rightarrow> hlists \<Rightarrow> hlists option" where
  "hlist_add_head n h s = do {
     first \<leftarrow> load (FirstOf h) s;
     s \<leftarrow> store (NextOf n) first s;
     s \<leftarrow> (if first \<noteq> NULL then set_pprev first (NextOf n) s else Some s);
     s \<leftarrow> store (FirstOf h) n s;
     set_pprev n (FirstOf h) s
   }"

definition hlist_add_before :: "ptr \<Rightarrow> ptr \<Rightarrow> hlists \<Rightarrow> hlists option" where
  "hlist_add_before n next s = do {
     pp \<leftarrow> pprev_of next s;
     s \<leftarrow> set_pprev n pp s;
     s \<leftarrow> store (NextOf n) next s;
     s \<leftarrow> set_pprev next (NextOf n) s;
     pp \<leftarrow> pprev_of n s;
     store pp n s
   }"

definition hlist_add_after :: "ptr \<Rightarrow> ptr \<Rightarrow> hlists \<Rightarrow> hlists option" where
  "hlist_add_after n next s = do {
     nn \<leftarrow> load (NextOf n) s;
     s \<leftarrow> store (NextOf next) nn s;
     s \<leftarrow> store (NextOf n) next s;
     s \<leftarrow> set_pprev next (NextOf n) s;
     nn \<leftarrow> load (NextOf next) s;
     if nn \<noteq> NULL then set_pprev nn (NextOf next) s else Some s
   }"

text \<open>The loop from a node on, the nodes in the order of their visit, and the loop whose body may remove the node it is at. Fuel
  bounds the turns of a loop that may not end.\<close>

fun hlist_for_each_from :: "nat \<Rightarrow> ptr \<Rightarrow> hlists \<Rightarrow> ptr list option" where
  "hlist_for_each_from fuel pos s =
     (if pos = NULL then Some []
      else case fuel of
        0 \<Rightarrow> None
      | Suc k \<Rightarrow> do { n \<leftarrow> load (NextOf pos) s; map_option (Cons pos) (hlist_for_each_from k n s) })"

declare hlist_for_each_from.simps [simp del]

definition hlist_for_each :: "nat \<Rightarrow> ptr \<Rightarrow> hlists \<Rightarrow> ptr list option" where
  "hlist_for_each fuel h s = do { pos \<leftarrow> load (FirstOf h) s; hlist_for_each_from fuel pos s }"

definition hlist_for_each_continue :: "nat \<Rightarrow> ptr \<Rightarrow> hlists \<Rightarrow> ptr list option" where
  "hlist_for_each_continue fuel pos s = do { n \<leftarrow> load (NextOf pos) s; hlist_for_each_from fuel n s }"

fun safe_loop :: "nat \<Rightarrow> (ptr \<Rightarrow> hlists \<Rightarrow> hlists option) \<Rightarrow> ptr \<Rightarrow> hlists \<Rightarrow> (ptr list \<times> hlists) option" where
  "safe_loop fuel body pos s =
     (if pos = NULL then Some ([], s)
      else case fuel of
        0 \<Rightarrow> None
      | Suc k \<Rightarrow> do {
          n \<leftarrow> load (NextOf pos) s;
          s \<leftarrow> body pos s;
          map_option (apfst (Cons pos)) (safe_loop k body n s)
        })"

declare safe_loop.simps [simp del]

definition hlist_for_each_safe :: "nat \<Rightarrow> (ptr \<Rightarrow> hlists \<Rightarrow> hlists option) \<Rightarrow> ptr \<Rightarrow> hlists \<Rightarrow> (ptr list \<times> hlists) option" where
  "hlist_for_each_safe fuel body h s = do { pos \<leftarrow> load (FirstOf h) s; safe_loop fuel body pos s }"

section \<open>Views of the heap\<close>

text \<open>The contents of the slots and the repoint pointers, as functions.\<close>

abbreviation L :: "hlists \<Rightarrow> slot \<Rightarrow> ptr option" where "L s \<equiv> \<lambda>sl. load sl s"
abbreviation P :: "hlists \<Rightarrow> ptr \<Rightarrow> slot option" where "P s \<equiv> \<lambda>n. pprev_of n s"

definition same_objects :: "hlists \<Rightarrow> hlists \<Rightarrow> bool" where
  "same_objects s s' \<longleftrightarrow> dom (heads s') = dom (heads s) \<and> dom (nodes s') = dom (nodes s)"

lemma same_objects_refl [simp]: "same_objects s s"
  by (simp add: same_objects_def)

lemma same_objects_trans [trans]: "same_objects s t \<Longrightarrow> same_objects t u \<Longrightarrow> same_objects s u"
  by (simp add: same_objects_def)

lemma store_ok:
  assumes "load sl s \<noteq> None"
  shows "\<exists>s'. store sl v s = Some s' \<and> L s' = (L s)(sl \<mapsto> v) \<and> P s' = P s \<and> same_objects s s'"
  using assms
  by (cases sl) (auto simp: store_def load_def pprev_of_def same_objects_def fun_eq_iff split: slot.splits)

lemma set_pprev_ok:
  assumes "pprev_of n s \<noteq> None"
  shows "\<exists>s'. set_pprev n sl s = Some s' \<and> L s' = L s \<and> P s' = (P s)(n \<mapsto> sl) \<and> same_objects s s'"
  using assms
  by (auto simp: set_pprev_def load_def pprev_of_def same_objects_def fun_eq_iff split: slot.splits)

lemma in_nodes: "n \<in> dom (nodes s) \<longleftrightarrow> load (NextOf n) s \<noteq> None" "n \<in> dom (nodes s) \<longleftrightarrow> pprev_of n s \<noteq> None"
  by (auto simp: load_def pprev_of_def)

lemma in_heads: "h \<in> dom (heads s) \<longleftrightarrow> load (FirstOf h) s \<noteq> None"
  by (auto simp: load_def)

text \<open>What linking a node in and out does to the two views.\<close>

definition repoint :: "ptr \<Rightarrow> slot \<Rightarrow> (ptr \<Rightarrow> slot option) \<Rightarrow> ptr \<Rightarrow> slot option" where
  "repoint b sl p = (if b = NULL then p else p(b \<mapsto> sl))"

lemma repoint_apply: "repoint b sl p x = (if x = b \<and> b \<noteq> NULL then Some sl else p x)"
  by (simp add: repoint_def)

lemma repoint_ok:
  assumes "b \<noteq> NULL \<Longrightarrow> pprev_of b s \<noteq> None"
  shows "\<exists>s'. (if b \<noteq> NULL then set_pprev b sl s else Some s) = Some s' \<and> L s' = L s \<and> P s' = repoint b sl (P s) \<and> same_objects s s'"
proof (cases "b = NULL")
  case False
  with set_pprev_ok [of b s sl] assms show ?thesis by (simp add: repoint_def)
qed (simp add: repoint_def)

lemma hlist_unlink_effect:
  assumes "load (NextOf n) s = Some b" "pprev_of n s = Some e" "load e s \<noteq> None" "b \<noteq> NULL \<Longrightarrow> pprev_of b s \<noteq> None"
  shows "\<exists>s'. hlist_unlink n s = Some s' \<and> L s' = (L s)(e \<mapsto> b) \<and> P s' = repoint b e (P s) \<and> same_objects s s'"
proof -
  from store_ok [OF assms(3), of b] obtain t where
    t: "store e b s = Some t" "L t = (L s)(e \<mapsto> b)" "P t = P s" "same_objects s t" by blast
  from assms(4) t(3) have "b \<noteq> NULL \<Longrightarrow> pprev_of b t \<noteq> None" by metis
  from repoint_ok [OF this, of e] obtain u where
    u: "(if b \<noteq> NULL then set_pprev b e t else Some t) = Some u" "L u = L t" "P u = repoint b e (P t)" "same_objects t u" by blast
  have "hlist_unlink n s = Some u" using assms(1,2) t(1) u(1) by (simp add: hlist_unlink_def)
  with t u same_objects_trans [OF t(4) u(4)] show ?thesis by auto
qed

lemma hlist_del_effect:
  assumes "load (NextOf n) s = Some b" "pprev_of n s = Some e" "load e s \<noteq> None" "b \<noteq> NULL \<Longrightarrow> pprev_of b s \<noteq> None"
  shows "\<exists>s'. hlist_del n s = Some s' \<and> L s' = (L s)(e \<mapsto> b, NextOf n \<mapsto> LIST_POISON1) \<and> P s' = (repoint b e (P s))(n \<mapsto> PoisonSlot) \<and> same_objects s s'"
proof -
  from hlist_unlink_effect [OF assms] obtain t where
    t: "hlist_unlink n s = Some t" "L t = (L s)(e \<mapsto> b)" "P t = repoint b e (P s)" "same_objects s t" by blast
  have "n \<in> dom (nodes t)" using t(4) assms(1) by (simp add: same_objects_def in_nodes(1))
  then have "load (NextOf n) t \<noteq> None" by (simp add: in_nodes(1))
  from store_ok [OF this, of LIST_POISON1] obtain u where
    u: "store (NextOf n) LIST_POISON1 t = Some u" "L u = (L t)(NextOf n \<mapsto> LIST_POISON1)" "P u = P t" "same_objects t u" by blast
  have "n \<in> dom (nodes u)" using u(4) \<open>n \<in> dom (nodes t)\<close> by (simp add: same_objects_def)
  then have "pprev_of n u \<noteq> None" by (simp add: in_nodes(2))
  from set_pprev_ok [OF this, of PoisonSlot] obtain v where
    v: "set_pprev n PoisonSlot u = Some v" "L v = L u" "P v = (P u)(n \<mapsto> PoisonSlot)" "same_objects u v" by blast
  from t u v same_objects_trans [OF same_objects_trans [OF t(4) u(4)] v(4)] show ?thesis by (simp add: hlist_del_def)
qed

lemma INIT_HLIST_NODE_effect:
  assumes "n \<in> dom (nodes s)"
  shows "\<exists>s'. INIT_HLIST_NODE n s = Some s' \<and> L s' = (L s)(NextOf n \<mapsto> NULL) \<and> P s' = (P s)(n \<mapsto> NullSlot) \<and> same_objects s s'"
proof -
  from assms have "load (NextOf n) s \<noteq> None" by (simp add: in_nodes(1))
  from store_ok [OF this, of NULL] obtain t where
    t: "store (NextOf n) NULL s = Some t" "L t = (L s)(NextOf n \<mapsto> NULL)" "P t = P s" "same_objects s t" by blast
  from assms t(3) have "pprev_of n t \<noteq> None" by (metis in_nodes(2))
  from set_pprev_ok [OF this, of NullSlot] obtain u where
    u: "set_pprev n NullSlot t = Some u" "L u = L t" "P u = (P t)(n \<mapsto> NullSlot)" "same_objects t u" by blast
  from t u same_objects_trans [OF t(4) u(4)] show ?thesis by (simp add: INIT_HLIST_NODE_def)
qed

text \<open>Linking a node in before the content \<open>b\<close> of a slot \<open>e\<close>: the two views afterwards.\<close>

definition linked_in :: "ptr \<Rightarrow> slot \<Rightarrow> ptr \<Rightarrow> hlists \<Rightarrow> hlists \<Rightarrow> bool" where
  "linked_in n e b s s' \<longleftrightarrow> L s' = (L s)(NextOf n \<mapsto> b, e \<mapsto> n) \<and> P s' = repoint b (NextOf n) ((P s)(n \<mapsto> e)) \<and> same_objects s s'"

lemma hlist_add_head_effect:
  assumes "load (FirstOf h) s = Some b" "n \<in> dom (nodes s)" "b \<noteq> NULL \<Longrightarrow> pprev_of b s \<noteq> None" "b \<noteq> n"
  shows "\<exists>s'. hlist_add_head n h s = Some s' \<and> linked_in n (FirstOf h) b s s'"
proof -
  from assms(2) have "load (NextOf n) s \<noteq> None" by (simp add: in_nodes(1))
  from store_ok [OF this, of b] obtain t where
    t: "store (NextOf n) b s = Some t" "L t = (L s)(NextOf n \<mapsto> b)" "P t = P s" "same_objects s t" by blast
  from assms(3) t(3) have "b \<noteq> NULL \<Longrightarrow> pprev_of b t \<noteq> None" by metis
  from repoint_ok [OF this, of "NextOf n"] obtain u where
    u: "(if b \<noteq> NULL then set_pprev b (NextOf n) t else Some t) = Some u" "L u = L t" "P u = repoint b (NextOf n) (P t)" "same_objects t u"
    by blast
  have "load (FirstOf h) u \<noteq> None" using fun_cong [OF u(2), of "FirstOf h"] fun_cong [OF t(2), of "FirstOf h"] assms(1) by simp
  from store_ok [OF this, of n] obtain v where
    v: "store (FirstOf h) n u = Some v" "L v = (L u)(FirstOf h \<mapsto> n)" "P v = P u" "same_objects u v" by blast
  have so: "same_objects s v" by (rule same_objects_trans [OF same_objects_trans [OF t(4) u(4)] v(4)])
  with assms(2) have "pprev_of n v \<noteq> None" by (metis in_nodes(2) same_objects_def)
  from set_pprev_ok [OF this, of "FirstOf h"] obtain w where
    w: "set_pprev n (FirstOf h) v = Some w" "L w = L v" "P w = (P v)(n \<mapsto> FirstOf h)" "same_objects v w" by blast
  have "hlist_add_head n h s = Some w" using assms(1) t(1) u(1) v(1) w(1) by (simp add: hlist_add_head_def)
  moreover have "P w = repoint b (NextOf n) ((P s)(n \<mapsto> FirstOf h))" using t u v w assms(4) by (auto simp: repoint_def fun_eq_iff)
  moreover have "L w = (L s)(NextOf n \<mapsto> b, FirstOf h \<mapsto> n)" using t u v w by simp
  ultimately show ?thesis using same_objects_trans [OF so w(4)] by (simp add: linked_in_def)
qed

lemma hlist_add_before_effect:
  assumes "pprev_of b s = Some e" "load e s \<noteq> None" "n \<in> dom (nodes s)" "b \<noteq> NULL" "b \<noteq> n" "e \<noteq> NextOf n"
  shows "\<exists>s'. hlist_add_before n b s = Some s' \<and> linked_in n e b s s'"
proof -
  from assms(3) have "pprev_of n s \<noteq> None" by (simp add: in_nodes(2))
  from set_pprev_ok [OF this, of e] obtain t where
    t: "set_pprev n e s = Some t" "L t = L s" "P t = (P s)(n \<mapsto> e)" "same_objects s t" by blast
  from assms(3) t(2) have "load (NextOf n) t \<noteq> None" by (metis in_nodes(1))
  from store_ok [OF this, of b] obtain u where
    u: "store (NextOf n) b t = Some u" "L u = (L t)(NextOf n \<mapsto> b)" "P u = P t" "same_objects t u" by blast
  have "pprev_of b u \<noteq> None" using fun_cong [OF u(3), of b] fun_cong [OF t(3), of b] assms(1,5) by simp
  from set_pprev_ok [OF this, of "NextOf n"] obtain v where
    v: "set_pprev b (NextOf n) u = Some v" "L v = L u" "P v = (P u)(b \<mapsto> NextOf n)" "same_objects u v" by blast
  have pn: "P v n = Some e" using fun_cong [OF v(3), of n] fun_cong [OF u(3), of n] fun_cong [OF t(3), of n] assms(5) by simp
  have "load e v \<noteq> None"
    using fun_cong [OF v(2), of e] fun_cong [OF u(2), of e] fun_cong [OF t(2), of e] assms(2,6) by simp
  from store_ok [OF this, of n] obtain w where
    w: "store e n v = Some w" "L w = (L v)(e \<mapsto> n)" "P w = P v" "same_objects v w" by blast
  have "hlist_add_before n b s = Some w" using assms(1) t(1) u(1) v(1) w(1) pn by (simp add: hlist_add_before_def)
  moreover have "P w = repoint b (NextOf n) ((P s)(n \<mapsto> e))" using t u v w assms(4) by (simp add: repoint_def)
  moreover have "L w = (L s)(NextOf n \<mapsto> b, e \<mapsto> n)" using t u v w by simp
  moreover have "same_objects s w" by (rule same_objects_trans [OF same_objects_trans [OF same_objects_trans [OF t(4) u(4)] v(4)] w(4)])
  ultimately show ?thesis by (simp add: linked_in_def)
qed

lemma hlist_add_after_effect:
  assumes "load (NextOf m) s = Some b" "n \<in> dom (nodes s)" "b \<noteq> NULL \<Longrightarrow> pprev_of b s \<noteq> None" "b \<noteq> n" "m \<noteq> n"
  shows "\<exists>s'. hlist_add_after m n s = Some s' \<and> linked_in n (NextOf m) b s s'"
proof -
  from assms(2) have "load (NextOf n) s \<noteq> None" by (simp add: in_nodes(1))
  from store_ok [OF this, of b] obtain t where
    t: "store (NextOf n) b s = Some t" "L t = (L s)(NextOf n \<mapsto> b)" "P t = P s" "same_objects s t" by blast
  have "load (NextOf m) t \<noteq> None" using fun_cong [OF t(2), of "NextOf m"] assms(1,5) by simp
  from store_ok [OF this, of n] obtain u where
    u: "store (NextOf m) n t = Some u" "L u = (L t)(NextOf m \<mapsto> n)" "P u = P t" "same_objects t u" by blast
  have "same_objects s u" by (rule same_objects_trans [OF t(4) u(4)])
  with assms(2) have "pprev_of n u \<noteq> None" by (metis in_nodes(2) same_objects_def)
  from set_pprev_ok [OF this, of "NextOf m"] obtain v where
    v: "set_pprev n (NextOf m) u = Some v" "L v = L u" "P v = (P u)(n \<mapsto> NextOf m)" "same_objects u v" by blast
  have ln: "L v (NextOf n) = Some b"
    using fun_cong [OF v(2), of "NextOf n"] fun_cong [OF u(2), of "NextOf n"] fun_cong [OF t(2), of "NextOf n"] assms(5) by simp
  have "pprev_of b v \<noteq> None" if "b \<noteq> NULL"
    using fun_cong [OF v(3), of b] fun_cong [OF u(3), of b] fun_cong [OF t(3), of b] assms(3) [OF that] assms(4) by simp
  from repoint_ok [OF this, of "NextOf n"] obtain w where
    w: "(if b \<noteq> NULL then set_pprev b (NextOf n) v else Some v) = Some w" "L w = L v" "P w = repoint b (NextOf n) (P v)" "same_objects v w"
    by blast
  have "hlist_add_after m n s = Some w" using assms(1) t(1) u(1) v(1) w(1) ln by (simp add: hlist_add_after_def)
  moreover have "P w = repoint b (NextOf n) ((P s)(n \<mapsto> NextOf m))" using t u v w by simp
  moreover have "L w = (L s)(NextOf n \<mapsto> b, NextOf m \<mapsto> n)" using t u v w by simp
  moreover have "same_objects s w" by (rule same_objects_trans [OF same_objects_trans [OF same_objects_trans [OF t(4) u(4)] v(4)] w(4)])
  ultimately show ?thesis by (simp add: linked_in_def)
qed

section \<open>Chains\<close>

text \<open>The nodes that follow a slot, and a first part of them.\<close>

fun chain :: "(slot \<Rightarrow> ptr option) \<Rightarrow> (ptr \<Rightarrow> slot option) \<Rightarrow> slot \<Rightarrow> ptr list \<Rightarrow> bool" where
  "chain l p sl [] \<longleftrightarrow> l sl = Some NULL"
| "chain l p sl (x # xs) \<longleftrightarrow> l sl = Some x \<and> x \<noteq> NULL \<and> p x = Some sl \<and> chain l p (NextOf x) xs"

fun seg :: "(slot \<Rightarrow> ptr option) \<Rightarrow> (ptr \<Rightarrow> slot option) \<Rightarrow> slot \<Rightarrow> ptr list \<Rightarrow> bool" where
  "seg l p sl [] \<longleftrightarrow> True"
| "seg l p sl (x # xs) \<longleftrightarrow> l sl = Some x \<and> x \<noteq> NULL \<and> p x = Some sl \<and> seg l p (NextOf x) xs"

definition last_slot :: "slot \<Rightarrow> ptr list \<Rightarrow> slot" where
  "last_slot sl xs = (if xs = [] then sl else NextOf (last xs))"

definition front :: "ptr list \<Rightarrow> ptr" where
  "front xs = (case xs of [] \<Rightarrow> NULL | x # _ \<Rightarrow> x)"

lemma last_slot_simps [simp]: "last_slot sl [] = sl" "last_slot sl (x # xs) = last_slot (NextOf x) xs"
  by (simp_all add: last_slot_def)

lemma last_slot_first: "x \<notin> set xs \<Longrightarrow> last_slot (FirstOf h) xs \<noteq> NextOf x"
  by (cases xs rule: rev_cases) (auto simp: last_slot_def)

lemma front_simps [simp]: "front [] = NULL" "front (x # xs) = x"
  by (simp_all add: front_def)

lemma chain_append: "chain l p sl (as @ bs) \<longleftrightarrow> seg l p sl as \<and> chain l p (last_slot sl as) bs"
  by (induction as arbitrary: sl) auto

lemma chain_front: "chain l p sl xs \<Longrightarrow> l sl = Some (front xs)"
  by (cases xs) auto

lemma chain_mem: "chain l p sl xs \<Longrightarrow> x \<in> set xs \<Longrightarrow> x \<noteq> NULL \<and> p x \<noteq> None \<and> l (NextOf x) \<noteq> None"
  by (induction xs arbitrary: sl) (auto dest: chain_front)

lemma chain_cong:
  "chain l p sl xs \<Longrightarrow> \<forall>x \<in> insert sl (NextOf ` set xs). l' x = l x \<Longrightarrow> \<forall>x \<in> set xs. p' x = p x \<Longrightarrow> chain l' p' sl xs"
  by (induction xs arbitrary: sl) auto

lemma seg_cong:
  "seg l p sl xs \<Longrightarrow> distinct xs \<Longrightarrow> sl \<notin> NextOf ` set xs \<Longrightarrow>
   \<forall>x \<in> insert sl (NextOf ` set xs) - {last_slot sl xs}. l' x = l x \<Longrightarrow> \<forall>x \<in> set xs. p' x = p x \<Longrightarrow> seg l' p' sl xs"
proof (induction xs arbitrary: sl)
  case (Cons x xs)
  have "sl \<noteq> last_slot sl (x # xs)" using Cons.prems(3) by (auto simp: last_slot_def simp del: last_slot_simps(2))
  with Cons.prems have "l' sl = Some x" by simp
  moreover have "seg l' p' (NextOf x) xs" by (rule Cons.IH) (use Cons.prems in auto)
  ultimately show ?case using Cons.prems by simp
qed simp

text \<open>A chain that hangs at another slot.\<close>

lemma chain_move:
  assumes "chain l p e xs" "distinct xs" "l' e' = Some (front xs)" "xs \<noteq> [] \<Longrightarrow> p' (front xs) = Some e'"
    "\<forall>x \<in> set xs. l' (NextOf x) = l (NextOf x)" "\<forall>x \<in> set xs. x \<noteq> front xs \<longrightarrow> p' x = p x"
  shows "chain l' p' e' xs"
proof (cases xs)
  case (Cons x ys)
  have "chain l' p' (NextOf x) ys" by (rule chain_cong [of l p]) (use assms Cons in auto)
  with assms Cons show ?thesis by simp
qed (use assms in simp)

lemma chain_insert:
  assumes c: "chain l p (FirstOf h) (as @ bs)" and d: "distinct (as @ bs)" and n: "n \<notin> set (as @ bs)" "n \<noteq> NULL"
    and e: "e = last_slot (FirstOf h) as" and b: "b = front bs"
  shows "chain (l(NextOf n \<mapsto> b, e \<mapsto> n)) (repoint b (NextOf n) (p(n \<mapsto> e))) (FirstOf h) (as @ n # bs)"
proof -
  let ?l = "l(NextOf n \<mapsto> b, e \<mapsto> n)" and ?p = "repoint b (NextOf n) (p(n \<mapsto> e))"
  from c e have s: "seg l p (FirstOf h) as" and t: "chain l p e bs" by (simp_all add: chain_append)
  have bs: "b = NULL \<or> b \<in> set bs" "bs \<noteq> [] \<Longrightarrow> b \<noteq> NULL" using b chain_mem [OF t] by (cases bs; auto)+
  have e': "e \<noteq> NextOf x" if "x \<notin> set as" for x using last_slot_first [OF that] e by simp
  have "seg ?l ?p (FirstOf h) as"
  proof (rule seg_cong [OF s])
    show "\<forall>x \<in> set as. ?p x = p x" using n(1) d bs(1) by (auto simp: repoint_apply)
  qed (use d n(1) e in auto)
  moreover have "chain ?l ?p (NextOf n) bs"
  proof (rule chain_move [OF t])
    show "?l (NextOf n) = Some (front bs)" using e' [of n] n b by auto
    show "bs \<noteq> [] \<Longrightarrow> ?p (front bs) = Some (NextOf n)" using bs(2) b by (simp add: repoint_apply)
    show "\<forall>x \<in> set bs. ?l (NextOf x) = l (NextOf x)" using e' d n by auto
    show "\<forall>x \<in> set bs. x \<noteq> front bs \<longrightarrow> ?p x = p x" using b n(1) by (auto simp: repoint_apply)
  qed (use d in simp)
  moreover have "?p n = Some e" using bs(1) n by (auto simp: repoint_apply)
  ultimately show ?thesis using n(2) e by (simp add: chain_append)
qed

lemma chain_remove:
  assumes c: "chain l p (FirstOf h) (as @ n # bs)" and d: "distinct (as @ n # bs)"
    and e: "e = last_slot (FirstOf h) as" and b: "b = front bs"
    and l': "\<forall>x. x \<noteq> NextOf n \<longrightarrow> l' x = (l(e \<mapsto> b)) x" and p': "\<forall>x. x \<noteq> n \<longrightarrow> p' x = repoint b e p x"
  shows "chain l' p' (FirstOf h) (as @ bs)"
proof -
  from c e have s: "seg l p (FirstOf h) as" and t: "chain l p (NextOf n) bs" by (simp_all add: chain_append)
  have bs: "b = NULL \<or> b \<in> set bs" "bs \<noteq> [] \<Longrightarrow> b \<noteq> NULL" using b chain_mem [OF t] by (cases bs; auto)+
  have e': "e \<noteq> NextOf x" if "x \<notin> set as" for x using last_slot_first [OF that] e by simp
  have "seg l' p' (FirstOf h) as"
  proof (rule seg_cong [OF s])
    show "\<forall>x \<in> set as. p' x = p x"
    proof
      fix x
      assume "x \<in> set as"
      with d bs(1) have "x \<noteq> n" "\<not> (x = b \<and> b \<noteq> NULL)" by auto
      with p' show "p' x = p x" by (auto simp: repoint_apply)
    qed
    show "\<forall>x \<in> insert (FirstOf h) (NextOf ` set as) - {last_slot (FirstOf h) as}. l' x = l x"
    proof
      fix x
      assume "x \<in> insert (FirstOf h) (NextOf ` set as) - {last_slot (FirstOf h) as}"
      with d e have "x \<noteq> NextOf n" "x \<noteq> e" by auto
      with l' show "l' x = l x" by simp
    qed
  qed (use d in auto)
  moreover have "chain l' p' e bs"
  proof (rule chain_move [OF t])
    show "l' e = Some (front bs)" using e' [of n] d b l' by auto
    show "bs \<noteq> [] \<Longrightarrow> p' (front bs) = Some e" using bs b d p' by (cases bs) (auto simp: repoint_apply)
    show "\<forall>x \<in> set bs. l' (NextOf x) = l (NextOf x)"
    proof
      fix x
      assume "x \<in> set bs"
      with d e' [of x] have "NextOf x \<noteq> NextOf n" "NextOf x \<noteq> e" by auto
      with l' show "l' (NextOf x) = l (NextOf x)" by simp
    qed
    show "\<forall>x \<in> set bs. x \<noteq> front bs \<longrightarrow> p' x = p x" using b d p' by (auto simp: repoint_apply)
  qed (use d in simp)
  ultimately show ?thesis using e by (simp add: chain_append)
qed

section \<open>Tables of sequences\<close>

text \<open>The abstract state: the sequence of every head, and the nodes that are initialised and in no list.\<close>

type_synonym table = "(ptr \<Rightarrow> ptr list) \<times> ptr set"

definition members :: "ptr list \<Rightarrow> (ptr \<Rightarrow> ptr list) \<Rightarrow> ptr set" where
  "members H A = (\<Union>h \<in> set H. set (A h))"

definition rep_table :: "ptr list \<Rightarrow> ptr set \<Rightarrow> hlists \<Rightarrow> table \<Rightarrow> bool" where
  "rep_table H N s t \<longleftrightarrow>
     dom (heads s) = set H \<and> dom (nodes s) = N \<and> NULL \<notin> N \<and>
     (\<forall>h \<in> set H. chain (L s) (P s) (FirstOf h) (fst t h) \<and> distinct (fst t h)) \<and>
     (\<forall>h \<in> set H. \<forall>h' \<in> set H. h \<noteq> h' \<longrightarrow> set (fst t h) \<inter> set (fst t h') = {}) \<and>
     snd t \<inter> members H (fst t) = {} \<and> (\<forall>n \<in> snd t. pprev_of n s = Some NullSlot)"

fun insert_before :: "ptr \<Rightarrow> ptr \<Rightarrow> ptr list \<Rightarrow> ptr list" where
  "insert_before n x [] = []"
| "insert_before n x (y # ys) = (if y = x then n # y # ys else y # insert_before n x ys)"

fun insert_behind :: "ptr \<Rightarrow> ptr \<Rightarrow> ptr list \<Rightarrow> ptr list" where
  "insert_behind n x [] = []"
| "insert_behind n x (y # ys) = (if y = x then y # n # ys else y # insert_behind n x ys)"

lemma insert_other [simp]: "x \<notin> set xs \<Longrightarrow> insert_before n x xs = xs" "x \<notin> set xs \<Longrightarrow> insert_behind n x xs = xs"
  by (induction xs) auto

lemma insert_at [simp]:
  "x \<notin> set as \<Longrightarrow> insert_before n x (as @ x # bs) = as @ n # x # bs"
  "x \<notin> set as \<Longrightarrow> insert_behind n x (as @ x # bs) = as @ x # n # bs"
  by (induction as) auto

datatype hlist_op = HInit ptr | HAddHead ptr ptr | HAddBefore ptr ptr | HAddAfter ptr ptr | HDel ptr | HDelInit ptr

fun exec_hlist :: "hlist_op \<Rightarrow> hlists \<Rightarrow> hlists option" where
  "exec_hlist (HInit n) s = INIT_HLIST_NODE n s"
| "exec_hlist (HAddHead n h) s = hlist_add_head n h s"
| "exec_hlist (HAddBefore n x) s = hlist_add_before n x s"
| "exec_hlist (HAddAfter x n) s = hlist_add_after x n s"
| "exec_hlist (HDel n) s = hlist_del n s"
| "exec_hlist (HDelInit n) s = hlist_del_init n s"

fun abs_hlist :: "ptr list \<Rightarrow> ptr set \<Rightarrow> hlist_op \<Rightarrow> table \<Rightarrow> table option" where
  "abs_hlist H N (HInit n) (A, U) = (if n \<in> N - members H A then Some (A, insert n U) else None)"
| "abs_hlist H N (HAddHead n h) (A, U) =
     (if n \<in> N - members H A \<and> h \<in> set H then Some (A(h := n # A h), U - {n}) else None)"
| "abs_hlist H N (HAddBefore n x) (A, U) =
     (if n \<in> N - members H A \<and> x \<in> members H A then Some (insert_before n x \<circ> A, U - {n}) else None)"
| "abs_hlist H N (HAddAfter x n) (A, U) =
     (if n \<in> N - members H A \<and> x \<in> members H A then Some (insert_behind n x \<circ> A, U - {n}) else None)"
| "abs_hlist H N (HDel n) (A, U) = (if n \<in> members H A then Some (remove1 n \<circ> A, U) else None)"
| "abs_hlist H N (HDelInit n) (A, U) =
     (if n \<in> members H A then Some (remove1 n \<circ> A, insert n U) else if n \<in> U then Some (A, U) else None)"

lemma rep_list:
  assumes "rep_table H N s (A, U)" "h \<in> set H"
  shows "chain (L s) (P s) (FirstOf h) (A h)" "distinct (A h)" "set (A h) \<subseteq> N" "set (A h) \<subseteq> members H A"
proof -
  show c: "chain (L s) (P s) (FirstOf h) (A h)" "distinct (A h)" using assms by (auto simp: rep_table_def)
  show "set (A h) \<subseteq> N"
  proof
    fix x
    assume "x \<in> set (A h)"
    with chain_mem [OF c(1)] have "x \<in> dom (nodes s)" unfolding in_nodes(1) by blast
    with assms(1) show "x \<in> N" by (simp add: rep_table_def)
  qed
  show "set (A h) \<subseteq> members H A" using assms(2) by (auto simp: members_def)
qed

lemma rep_disjoint: "rep_table H N s (A, U) \<Longrightarrow> h \<in> set H \<Longrightarrow> h' \<in> set H \<Longrightarrow> h \<noteq> h' \<Longrightarrow> set (A h) \<inter> set (A h') = {}"
  by (simp add: rep_table_def)

text \<open>Where a member is.\<close>

lemma rep_find:
  assumes "rep_table H N s (A, U)" "x \<in> members H A"
  obtains h as bs where "h \<in> set H" "A h = as @ x # bs" "x \<notin> set as" "\<forall>h' \<in> set H. h' \<noteq> h \<longrightarrow> x \<notin> set (A h')"
proof -
  from assms(2) obtain h where h: "h \<in> set H" "x \<in> set (A h)" by (auto simp: members_def)
  from split_list_first [OF h(2)] obtain as bs where "A h = as @ x # bs" "x \<notin> set as" by blast
  moreover have "\<forall>h' \<in> set H. h' \<noteq> h \<longrightarrow> x \<notin> set (A h')" using rep_disjoint [OF assms(1) h(1)] h(2) by blast
  ultimately show thesis using that h(1) by blast
qed

lemma rep_insert:
  assumes rep: "rep_table H N s (A, U)" and h: "h \<in> set H" "A h = as @ bs" and n: "n \<in> N - members H A"
    and link: "linked_in n (last_slot (FirstOf h) as) (front bs) s s'"
    and A': "A' h = as @ n # bs" "\<forall>h' \<in> set H. h' \<noteq> h \<longrightarrow> A' h' = A h'"
  shows "rep_table H N s' (A', U - {n})"
proof -
  let ?e = "last_slot (FirstOf h) as" and ?b = "front bs"
  have null: "NULL \<notin> N" using rep by (simp add: rep_table_def)
  have other: "n \<notin> set (A h')" if "h' \<in> set H" for h' using n that by (auto simp: members_def)
  note disj = rep_disjoint [OF rep _ h(1)]
  have b: "?b = NULL \<or> ?b \<in> set (A h)" using h(2) by (cases bs) auto
  have views: "L s' = (L s)(NextOf n \<mapsto> ?b, ?e \<mapsto> n)" "P s' = repoint ?b (NextOf n) ((P s)(n \<mapsto> ?e))" "same_objects s s'"
    using link by (simp_all add: linked_in_def)
  have chains: "chain (L s') (P s') (FirstOf h') (A' h') \<and> distinct (A' h')" if h': "h' \<in> set H" for h'
  proof (cases "h' = h")
    case True
    have "chain (L s') (P s') (FirstOf h) (as @ n # bs)" unfolding views(1,2)
      by (rule chain_insert) (use rep_list [OF rep h(1)] h(2) other [OF h(1)] n null in auto)
    moreover have "distinct (as @ n # bs)" using rep_list(2) [OF rep h(1)] other [OF h(1)] h(2) by auto
    ultimately show ?thesis using True A' by simp
  next
    case False
    have e: "?e \<noteq> FirstOf h'" "\<forall>x \<in> set (A h'). NextOf x \<noteq> ?e"
      using False h(2) disj [OF h' False] by (cases as rule: rev_cases; auto simp: last_slot_def)+
    have "chain (L s') (P s') (FirstOf h') (A h')" unfolding views(1,2)
    proof (rule chain_cong [OF rep_list(1) [OF rep h']])
      show "\<forall>x \<in> insert (FirstOf h') (NextOf ` set (A h')). ((L s)(NextOf n \<mapsto> ?b, ?e \<mapsto> n)) x = L s x"
        using e other [OF h'] by auto
      show "\<forall>x \<in> set (A h'). repoint ?b (NextOf n) ((P s)(n \<mapsto> ?e)) x = P s x"
        using b disj [OF h' False] other [OF h'] rep_list(3) [OF rep h'] null by (auto simp: repoint_apply)
    qed
    with rep_list(2) [OF rep h'] A'(2) h' False show ?thesis by simp
  qed
  have sets: "set (A' h') = (if h' = h then insert n (set (A h)) else set (A h'))" if "h' \<in> set H" for h' using A' h that by auto
  have "set (A' h1) \<inter> set (A' h2) = {}" if "h1 \<in> set H" "h2 \<in> set H" "h1 \<noteq> h2" for h1 h2
    using rep_disjoint [OF rep that] other [OF that(1)] other [OF that(2)] that(3) by (auto simp: sets [OF that(1)] sets [OF that(2)])
  moreover have "pprev_of m s' = Some NullSlot" "m \<notin> members H A'" if m: "m \<in> U - {n}" for m
  proof -
    have old: "m \<notin> members H A" "pprev_of m s = Some NullSlot" using rep m by (auto simp: rep_table_def)
    then show "m \<notin> members H A'" using m sets by (auto simp: members_def split: if_splits)
    have "m \<noteq> ?b \<or> ?b = NULL" using b old(1) rep_list(4) [OF rep h(1)] by auto
    then show "pprev_of m s' = Some NullSlot" using fun_cong [OF views(2), of m] old(2) m by (auto simp: repoint_apply)
  qed
  ultimately show ?thesis using chains rep views(3) by (auto simp: rep_table_def same_objects_def)
qed

text \<open>The same for a node that is linked out; what happens to the node itself does not matter.\<close>

lemma rep_remove:
  assumes rep: "rep_table H N s (A, U)" and h: "h \<in> set H" "A h = as @ n # bs"
    and views: "\<forall>x. x \<noteq> NextOf n \<longrightarrow> L s' x = ((L s)(last_slot (FirstOf h) as \<mapsto> front bs)) x"
      "\<forall>x. x \<noteq> n \<longrightarrow> P s' x = repoint (front bs) (last_slot (FirstOf h) as) (P s) x" and same: "same_objects s s'"
    and A': "A' h = as @ bs" "\<forall>h' \<in> set H. h' \<noteq> h \<longrightarrow> A' h' = A h'"
    and U': "U' \<subseteq> insert n U" "n \<in> U' \<Longrightarrow> pprev_of n s' = Some NullSlot"
  shows "rep_table H N s' (A', U')"
proof -
  let ?e = "last_slot (FirstOf h) as" and ?b = "front bs"
  have null: "NULL \<notin> N" using rep by (simp add: rep_table_def)
  note disj = rep_disjoint [OF rep _ h(1)]
  have d: "distinct (as @ n # bs)" using rep_list(2) [OF rep h(1)] h(2) by simp
  have b: "?b = NULL \<or> ?b \<in> set (A h)" using h(2) by (cases bs) auto
  have chains: "chain (L s') (P s') (FirstOf h') (A' h') \<and> distinct (A' h')" if h': "h' \<in> set H" for h'
  proof (cases "h' = h")
    case True
    have "chain (L s') (P s') (FirstOf h) (as @ bs)"
      by (rule chain_remove [OF _ d refl refl views]) (use rep_list(1) [OF rep h(1)] h(2) in simp)
    with True A'(1) d show ?thesis by simp
  next
    case False
    have e: "?e \<noteq> FirstOf h'" "\<forall>x \<in> set (A h'). NextOf x \<noteq> ?e"
      using False h(2) disj [OF h' False] by (cases as rule: rev_cases; auto simp: last_slot_def)+
    have n: "n \<notin> set (A h')" using disj [OF h' False] h(2) by auto
    have "chain (L s') (P s') (FirstOf h') (A h')"
    proof (rule chain_cong [OF rep_list(1) [OF rep h']])
      show "\<forall>x \<in> insert (FirstOf h') (NextOf ` set (A h')). L s' x = L s x" using e n views(1) by auto
      show "\<forall>x \<in> set (A h'). P s' x = P s x"
      proof
        fix x
        assume "x \<in> set (A h')"
        with b n disj [OF h' False] have "x \<noteq> n" "\<not> (x = ?b \<and> ?b \<noteq> NULL)" by auto
        with views(2) show "P s' x = P s x" by (auto simp: repoint_apply)
      qed
    qed
    with rep_list(2) [OF rep h'] A'(2) h' False show ?thesis by simp
  qed
  have sets: "set (A' h') = set (A h') - {n}" if "h' \<in> set H" for h'
    using A' h that d disj [OF that] by (cases "h' = h") auto
  have "set (A' h1) \<inter> set (A' h2) = {}" if "h1 \<in> set H" "h2 \<in> set H" "h1 \<noteq> h2" for h1 h2
    using rep_disjoint [OF rep that] by (auto simp: sets [OF that(1)] sets [OF that(2)])
  moreover have "pprev_of m s' = Some NullSlot" "m \<notin> members H A'" if m: "m \<in> U'" for m
  proof -
    show "m \<notin> members H A'" using m U'(1) rep sets by (fastforce simp: members_def rep_table_def)
    show "pprev_of m s' = Some NullSlot"
    proof (cases "m = n")
      case False
      with m U'(1) rep have old: "m \<notin> members H A" "pprev_of m s = Some NullSlot" by (auto simp: rep_table_def)
      then have "\<not> (m = ?b \<and> ?b \<noteq> NULL)" using b rep_list(4) [OF rep h(1)] by auto
      with views(2) False old(2) show ?thesis by (auto simp: repoint_apply)
    qed (use U'(2) m in simp)
  qed
  ultimately show ?thesis using chains rep same by (auto simp: rep_table_def same_objects_def)
qed

section \<open>The operations refine the table operations\<close>

lemma rep_front:
  assumes rep: "rep_table H N s (A, U)" and h: "h \<in> set H" "A h = as @ bs"
  shows "load (last_slot (FirstOf h) as) s = Some (front bs)" "front bs \<noteq> NULL \<Longrightarrow> front bs \<in> set (A h)"
    "front bs \<noteq> NULL \<Longrightarrow> pprev_of (front bs) s = Some (last_slot (FirstOf h) as)"
proof -
  have c: "chain (L s) (P s) (last_slot (FirstOf h) as) bs" using rep_list(1) [OF rep h(1)] h(2) by (simp add: chain_append)
  show "load (last_slot (FirstOf h) as) s = Some (front bs)" using chain_front [OF c] by simp
  show "front bs \<noteq> NULL \<Longrightarrow> front bs \<in> set (A h)" using h(2) by (cases bs) auto
  show "front bs \<noteq> NULL \<Longrightarrow> pprev_of (front bs) s = Some (last_slot (FirstOf h) as)" using c by (cases bs) auto
qed

lemma add_head_refines:
  assumes rep: "rep_table H N s (A, U)" and n: "n \<in> N - members H A" and h: "h \<in> set H"
  shows "\<exists>s'. hlist_add_head n h s = Some s' \<and> rep_table H N s' (A(h := n # A h), U - {n})"
proof -
  have split: "A h = [] @ A h" by simp
  note f = rep_front [OF rep h split]
  have "n \<in> dom (nodes s)" using rep n by (simp add: rep_table_def)
  moreover have "front (A h) \<noteq> n" using f(2) n rep_list(4) [OF rep h] rep by (cases "front (A h) = NULL") (auto simp: rep_table_def)
  ultimately obtain s' where s': "hlist_add_head n h s = Some s'" "linked_in n (FirstOf h) (front (A h)) s s'"
    using hlist_add_head_effect [of h s "front (A h)" n] f(1,3) by auto
  have "rep_table H N s' (A(h := n # A h), U - {n})"
    by (rule rep_insert [OF rep h split n]) (use s'(2) in auto)
  with s'(1) show ?thesis by blast
qed

lemma add_before_refines:
  assumes rep: "rep_table H N s (A, U)" and n: "n \<in> N - members H A" and x: "x \<in> members H A"
  shows "\<exists>s'. hlist_add_before n x s = Some s' \<and> rep_table H N s' (insert_before n x \<circ> A, U - {n})"
proof -
  obtain h as bs where h: "h \<in> set H" "A h = as @ x # bs" and as: "x \<notin> set as" and other: "\<forall>h' \<in> set H. h' \<noteq> h \<longrightarrow> x \<notin> set (A h')"
    by (rule rep_find [OF rep x])
  note f = rep_front [OF rep h, unfolded front_simps]
  have null: "x \<noteq> NULL" using rep_list(3) [OF rep h(1)] h(2) rep by (auto simp: rep_table_def)
  have "n \<notin> set as" using n rep_list(4) [OF rep h(1)] h(2) by auto
  then have "last_slot (FirstOf h) as \<noteq> NextOf n" by (rule last_slot_first)
  moreover have "n \<in> dom (nodes s)" "x \<noteq> n" using rep n x by (auto simp: rep_table_def)
  ultimately obtain s' where s': "hlist_add_before n x s = Some s'" "linked_in n (last_slot (FirstOf h) as) x s s'"
    using hlist_add_before_effect [OF f(3) [OF null]] f(1) null by auto
  have "rep_table H N s' (insert_before n x \<circ> A, U - {n})"
    by (rule rep_insert [OF rep h n]) (use s'(2) h as other in auto)
  with s'(1) show ?thesis by blast
qed

lemma add_after_refines:
  assumes rep: "rep_table H N s (A, U)" and n: "n \<in> N - members H A" and x: "x \<in> members H A"
  shows "\<exists>s'. hlist_add_after x n s = Some s' \<and> rep_table H N s' (insert_behind n x \<circ> A, U - {n})"
proof -
  obtain h as bs where h: "h \<in> set H" "A h = as @ x # bs" and as: "x \<notin> set as" and other: "\<forall>h' \<in> set H. h' \<noteq> h \<longrightarrow> x \<notin> set (A h')"
    by (rule rep_find [OF rep x])
  have h2: "A h = (as @ [x]) @ bs" using h(2) by simp
  have e: "last_slot (FirstOf h) (as @ [x]) = NextOf x" by (simp add: last_slot_def)
  note f = rep_front [OF rep h(1) h2, unfolded e]
  have "front bs \<noteq> n" using f(2) n rep_list(4) [OF rep h(1)] rep by (cases "front bs = NULL") (auto simp: rep_table_def)
  moreover have "n \<in> dom (nodes s)" "x \<noteq> n" using rep n x by (auto simp: rep_table_def)
  ultimately obtain s' where s': "hlist_add_after x n s = Some s'" "linked_in n (NextOf x) (front bs) s s'"
    using hlist_add_after_effect [OF f(1), of n] f(3) by auto
  have "rep_table H N s' (insert_behind n x \<circ> A, U - {n})"
    by (rule rep_insert [OF rep h(1) h2 n]) (use s'(2) h as other e in auto)
  with s'(1) show ?thesis by blast
qed

text \<open>What the removals need of a member.\<close>

lemma rep_member:
  assumes rep: "rep_table H N s (A, U)" and n: "n \<in> members H A"
  obtains h as bs where "h \<in> set H" "A h = as @ n # bs" "remove1 n (A h) = as @ bs" "\<forall>h' \<in> set H. h' \<noteq> h \<longrightarrow> remove1 n (A h') = A h'"
    "load (NextOf n) s = Some (front bs)" "pprev_of n s = Some (last_slot (FirstOf h) as)"
    "load (last_slot (FirstOf h) as) s \<noteq> None" "front bs \<noteq> NULL \<longrightarrow> pprev_of (front bs) s \<noteq> None"
proof -
  obtain h as bs where h: "h \<in> set H" "A h = as @ n # bs" and as: "n \<notin> set as" and other: "\<forall>h' \<in> set H. h' \<noteq> h \<longrightarrow> n \<notin> set (A h')"
    by (rule rep_find [OF rep n])
  have h2: "A h = (as @ [n]) @ bs" using h(2) by simp
  have e: "last_slot (FirstOf h) (as @ [n]) = NextOf n" by (simp add: last_slot_def)
  note f = rep_front [OF rep h, unfolded front_simps] and g = rep_front [OF rep h(1) h2, unfolded e]
  have null: "n \<noteq> NULL" using rep_list(3) [OF rep h(1)] h(2) rep by (auto simp: rep_table_def)
  with that [of h as bs] h as other f(1) f(3) [OF null] g(1,3) show thesis by (auto simp: remove1_append remove1_idem)
qed

lemma del_refines:
  assumes rep: "rep_table H N s (A, U)" and n: "n \<in> members H A"
  shows "\<exists>s'. hlist_del n s = Some s' \<and> rep_table H N s' (remove1 n \<circ> A, U)"
proof -
  obtain h as bs where m: "h \<in> set H" "A h = as @ n # bs" "remove1 n (A h) = as @ bs" "\<forall>h' \<in> set H. h' \<noteq> h \<longrightarrow> remove1 n (A h') = A h'"
    "load (NextOf n) s = Some (front bs)" "pprev_of n s = Some (last_slot (FirstOf h) as)"
    "load (last_slot (FirstOf h) as) s \<noteq> None" "front bs \<noteq> NULL \<longrightarrow> pprev_of (front bs) s \<noteq> None"
    by (rule rep_member [OF rep n])
  from hlist_del_effect [OF m(5-7) m(8) [THEN mp]] obtain s' where s': "hlist_del n s = Some s'"
    "L s' = (L s)(last_slot (FirstOf h) as \<mapsto> front bs, NextOf n \<mapsto> LIST_POISON1)"
    "P s' = (repoint (front bs) (last_slot (FirstOf h) as) (P s))(n \<mapsto> PoisonSlot)" "same_objects s s'" by blast
  have "n \<notin> U" using rep n by (auto simp: rep_table_def)
  have "rep_table H N s' (remove1 n \<circ> A, U)"
    by (rule rep_remove [OF rep m(1,2) _ _ s'(4)])
      (use m(3,4) \<open>n \<notin> U\<close> fun_cong [OF s'(2)] fun_cong [OF s'(3)] in auto)
  with s'(1) show ?thesis by blast
qed

lemma del_init_refines:
  assumes rep: "rep_table H N s (A, U)" and n: "n \<in> members H A"
  shows "\<exists>s'. hlist_del_init n s = Some s' \<and> rep_table H N s' (remove1 n \<circ> A, insert n U)"
proof -
  obtain h as bs where m: "h \<in> set H" "A h = as @ n # bs" "remove1 n (A h) = as @ bs" "\<forall>h' \<in> set H. h' \<noteq> h \<longrightarrow> remove1 n (A h') = A h'"
    "load (NextOf n) s = Some (front bs)" "pprev_of n s = Some (last_slot (FirstOf h) as)"
    "load (last_slot (FirstOf h) as) s \<noteq> None" "front bs \<noteq> NULL \<longrightarrow> pprev_of (front bs) s \<noteq> None"
    by (rule rep_member [OF rep n])
  from hlist_unlink_effect [OF m(5-7) m(8) [THEN mp]] obtain t where t: "hlist_unlink n s = Some t"
    "L t = (L s)(last_slot (FirstOf h) as \<mapsto> front bs)" "P t = repoint (front bs) (last_slot (FirstOf h) as) (P s)" "same_objects s t"
    by blast
  have "n \<in> dom (nodes t)" using t(4) m(5) by (simp add: same_objects_def in_nodes(1))
  from INIT_HLIST_NODE_effect [OF this] obtain s' where s': "INIT_HLIST_NODE n t = Some s'"
    "L s' = (L t)(NextOf n \<mapsto> NULL)" "P s' = (P t)(n \<mapsto> NullSlot)" "same_objects t s'" by blast
  have "last_slot (FirstOf h) as \<noteq> NullSlot" by (simp add: last_slot_def)
  with m(6) t(1) s'(1) have "hlist_del_init n s = Some s'" by (simp add: hlist_del_init_def)
  moreover have "rep_table H N s' (remove1 n \<circ> A, insert n U)"
    by (rule rep_remove [OF rep m(1,2) _ _ same_objects_trans [OF t(4) s'(4)]])
      (use m(3,4) fun_cong [OF s'(2)] fun_cong [OF s'(3)] fun_cong [OF t(2)] fun_cong [OF t(3)] in auto)
  ultimately show ?thesis by blast
qed

lemma init_refines:
  assumes rep: "rep_table H N s (A, U)" and n: "n \<in> N - members H A"
  shows "\<exists>s'. INIT_HLIST_NODE n s = Some s' \<and> rep_table H N s' (A, insert n U)"
proof -
  have "n \<in> dom (nodes s)" using rep n by (simp add: rep_table_def)
  from INIT_HLIST_NODE_effect [OF this] obtain s' where s': "INIT_HLIST_NODE n s = Some s'"
    "L s' = (L s)(NextOf n \<mapsto> NULL)" "P s' = (P s)(n \<mapsto> NullSlot)" "same_objects s s'" by blast
  have "chain (L s') (P s') (FirstOf h) (A h)" if h: "h \<in> set H" for h unfolding s'(2,3)
    by (rule chain_cong [OF rep_list(1) [OF rep h]]) (use n rep_list(4) [OF rep h] in auto)
  moreover have "\<forall>m \<in> insert n U. pprev_of m s' = Some NullSlot" using rep fun_cong [OF s'(3)] by (auto simp: rep_table_def)
  ultimately have "rep_table H N s' (A, insert n U)" using rep n s'(4) by (simp add: rep_table_def same_objects_def)
  with s'(1) show ?thesis by blast
qed

lemma exec_hlist_refines:
  assumes rep: "rep_table H N s t" and abs: "abs_hlist H N op t = Some t'"
  shows "\<exists>s'. exec_hlist op s = Some s' \<and> rep_table H N s' t'"
proof -
  obtain A U where t: "t = (A, U)" by (cases t)
  note r = rep [unfolded t]
  show ?thesis
  proof (cases op)
    case (HInit n)
    with abs init_refines [OF r, of n] t show ?thesis by (auto split: if_splits)
  next
    case (HAddHead n h)
    with abs add_head_refines [OF r, of n h] t show ?thesis by (auto split: if_splits)
  next
    case (HAddBefore n x)
    with abs add_before_refines [OF r, of n x] t show ?thesis by (auto split: if_splits)
  next
    case (HAddAfter x n)
    with abs add_after_refines [OF r, of n x] t show ?thesis by (auto split: if_splits)
  next
    case (HDel n)
    with abs del_refines [OF r, of n] t show ?thesis by (auto split: if_splits)
  next
    case (HDelInit n)
    show ?thesis
    proof (cases "n \<in> members H A")
      case True
      with HDelInit abs del_init_refines [OF r, of n] t show ?thesis by auto
    next
      case False
      with HDelInit abs t have "n \<in> U" "t' = (A, U)" by (auto split: if_splits)
      with HDelInit rep t show ?thesis by (auto simp: hlist_del_init_def rep_table_def)
    qed
  qed
qed

interpretation hlist_ops: op_refinement exec_hlist "abs_hlist H N" "rep_table H N" for H N
  by unfold_locales (rule exec_hlist_refines)

section \<open>Loops over a list\<close>

lemma for_each_chain: "chain (L s) (P s) sl xs \<Longrightarrow> length xs \<le> fuel \<Longrightarrow> hlist_for_each_from fuel (front xs) s = Some xs"
proof (induction xs arbitrary: sl fuel)
  case Nil
  then show ?case by (simp add: hlist_for_each_from.simps)
next
  case (Cons x xs)
  then obtain k where k: "fuel = Suc k" "length xs \<le> k" by (cases fuel) auto
  have c: "chain (L s) (P s) (NextOf x) xs" "x \<noteq> NULL" using Cons.prems(1) by simp_all
  show ?case using Cons.IH [OF c(1) k(2)] chain_front [OF c(1)] c(2) k(1)
    by (subst hlist_for_each_from.simps) simp
qed

lemma hlist_for_each_list:
  assumes "rep_table H N s (A, U)" "h \<in> set H" "length (A h) \<le> fuel"
  shows "hlist_for_each fuel h s = Some (A h)"
  using chain_front [OF rep_list(1) [OF assms(1,2)]] for_each_chain [OF rep_list(1) [OF assms(1,2)] assms(3)]
  by (simp add: hlist_for_each_def)

lemma hlist_empty_list:
  assumes "rep_table H N s (A, U)" "h \<in> set H"
  shows "hlist_empty h s = Some (A h = [])"
  using rep_list(1) [OF assms] by (cases "A h") (auto simp: hlist_empty_def)

lemma hlist_unhashed_member:
  assumes "rep_table H N s (A, U)" "n \<in> members H A \<union> U"
  shows "hlist_unhashed n s = Some (n \<in> U)"
proof (cases "n \<in> U")
  case False
  with assms(2) have "n \<in> members H A" by simp
  from rep_member [OF assms(1) this] obtain h as where "pprev_of n s = Some (last_slot (FirstOf h) as)" by metis
  with False show ?thesis by (simp add: hlist_unhashed_def last_slot_def)
qed (use assms(1) in \<open>simp add: hlist_unhashed_def rep_table_def\<close>)

lemma rep_table_cong: "rep_table H N s (A, U) \<Longrightarrow> \<forall>h \<in> set H. A' h = A h \<Longrightarrow> rep_table H N s (A', U)"
  by (simp add: rep_table_def members_def)

lemma safe_del:
  assumes "h \<in> set H"
  shows "rep_table H N s (A, U) \<Longrightarrow> A h = xs \<Longrightarrow> length xs \<le> fuel \<Longrightarrow>
    \<exists>s'. safe_loop fuel hlist_del (front xs) s = Some (xs, s') \<and> rep_table H N s' (A(h := []), U)"
proof (induction xs arbitrary: s A fuel)
  case Nil
  then show ?case by (auto simp: safe_loop.simps intro: rep_table_cong)
next
  case (Cons x xs)
  then obtain k where k: "fuel = Suc k" "length xs \<le> k" by (cases fuel) auto
  have c: "chain (L s) (P s) (NextOf x) xs" "x \<noteq> NULL" using rep_list(1) [OF Cons.prems(1) assms] Cons.prems(2) by simp_all
  have "x \<in> members H A" using assms Cons.prems(2) by (force simp: members_def)
  from del_refines [OF Cons.prems(1) this] obtain t where t: "hlist_del x s = Some t" "rep_table H N t (remove1 x \<circ> A, U)" by blast
  have "(remove1 x \<circ> A) h = xs" using Cons.prems(2) by simp
  from Cons.IH [OF t(2) this k(2)] obtain s' where s': "safe_loop k hlist_del (front xs) t = Some (xs, s')"
    "rep_table H N s' ((remove1 x \<circ> A)(h := []), U)" by blast
  have "x \<notin> set (A h')" if "h' \<in> set H" "h' \<noteq> h" for h'
    using rep_disjoint [OF Cons.prems(1) assms that(1)] that(2) Cons.prems(2) by auto
  then have "rep_table H N s' (A(h := []), U)" by (intro rep_table_cong [OF s'(2)]) (auto simp: remove1_idem)
  with s'(1) t(1) chain_front [OF c(1)] c(2) k(1) show ?case by (subst safe_loop.simps) simp
qed

text \<open>C6. The hash lists implement a table of sequences: a series of initialisations, additions and removals that makes sense
  on the table runs without a fault, and afterwards every list holds the sequence of its head, which
  \<open>hlist_for_each\<close> visits; \<open>hlist_empty\<close> and \<open>hlist_unhashed\<close> answer for the table; and a loop with
  \<open>hlist_for_each_safe\<close> that deletes what it visits visits everything and empties its list alone.\<close>

theorem hlist_refines:
  assumes rep: "rep_table H N s t" and ops: "each (abs_hlist H N) ops t = Some (A, U)"
  shows "\<exists>s'. each exec_hlist ops s = Some s' \<and> rep_table H N s' (A, U)
    \<and> (\<forall>n \<in> members H A \<union> U. hlist_unhashed n s' = Some (n \<in> U))
    \<and> (\<forall>h \<in> set H. hlist_for_each (length (A h)) h s' = Some (A h) \<and> hlist_empty h s' = Some (A h = [])
        \<and> (\<exists>u. hlist_for_each_safe (length (A h)) hlist_del h s' = Some (A h, u) \<and> rep_table H N u (A(h := []), U)))"
proof -
  from hlist_ops.each_refines [OF rep ops] obtain s' where s': "each exec_hlist ops s = Some s'" and r: "rep_table H N s' (A, U)" by blast
  have "\<exists>u. hlist_for_each_safe (length (A h)) hlist_del h s' = Some (A h, u) \<and> rep_table H N u (A(h := []), U)" if h: "h \<in> set H" for h
    using safe_del [OF h r refl order_refl] chain_front [OF rep_list(1) [OF r h]] by (auto simp: hlist_for_each_safe_def)
  with s' r show ?thesis using hlist_unhashed_member [OF r] hlist_for_each_list [OF r] hlist_empty_list [OF r] by blast
qed

definition two_heads :: hlists where
  "two_heads = \<lparr>heads = [10 \<mapsto> NULL, 11 \<mapsto> NULL], nodes = (\<lambda>n. if n \<in> {1, 2, 3, 4} then Some \<lparr>hnext = NULL, pprev = NullSlot\<rparr> else None)\<rparr>"

definition demo_hlist :: "hlist_op list" where
  "demo_hlist = [HAddHead 1 10, HAddHead 2 10, HAddAfter 2 3, HAddHead 4 11, HDel 2, HAddBefore 2 4, HDelInit 3]"

theorem hlist_refines_witness:
  "\<exists>s' u. each exec_hlist demo_hlist two_heads = Some s' \<and> hlist_for_each 1 10 s' = Some [1] \<and> hlist_for_each 2 11 s' = Some [2, 4]
    \<and> hlist_unhashed 3 s' = Some True \<and> hlist_for_each_safe 2 hlist_del 11 s' = Some ([2, 4], u) \<and> hlist_empty 11 u = Some True"
proof -
  let ?A = "((\<lambda>_. [])(10 := [1], 11 := [2, 4])) :: ptr \<Rightarrow> ptr list"
  have start: "rep_table [10, 11] {1, 2, 3, 4} two_heads (\<lambda>_. [], {1, 2, 3, 4})"
    by (auto simp: rep_table_def two_heads_def members_def load_def pprev_of_def NULL_def split: if_splits)
  obtain A U where ops: "each (abs_hlist [10, 11] {1, 2, 3, 4}) demo_hlist (\<lambda>_. [], {1, 2, 3, 4}) = Some (A, U)"
    and A: "A 10 = [1]" "A 11 = [2, 4]" and U: "3 \<in> U"
    by (simp add: demo_hlist_def members_def)
  obtain s' where s': "each exec_hlist demo_hlist two_heads = Some s'" "\<forall>n \<in> members [10, 11] A \<union> U. hlist_unhashed n s' = Some (n \<in> U)"
    "\<forall>h \<in> set [10, 11]. hlist_for_each (length (A h)) h s' = Some (A h) \<and> hlist_empty h s' = Some (A h = [])
      \<and> (\<exists>u. hlist_for_each_safe (length (A h)) hlist_del h s' = Some (A h, u) \<and> rep_table [10, 11] {1, 2, 3, 4} u (A(h := []), U))"
    using hlist_refines [OF start ops] by blast
  from s'(3) A obtain u where u: "hlist_for_each_safe 2 hlist_del 11 s' = Some ([2, 4], u)" "rep_table [10, 11] {1, 2, 3, 4} u (A(11 := []), U)"
    by (auto simp: numeral_2_eq_2)
  from hlist_empty_list [OF u(2)] have "hlist_empty 11 u = Some True" by simp
  moreover have "hlist_unhashed 3 s' = Some True" using s'(2) U by simp
  ultimately show ?thesis using s'(1,3) u(1) A by (auto simp: numeral_2_eq_2)
qed

end
