(* ===== verification/ListEntries.thy ===== *)
theory ListEntries
  imports HList
begin

text \<open>
  The macros of \<open>src/project4/list.h\<close> that go from a list node to the struct it is embedded in, and the loops over these
  structs. The address of a struct is an integer, since \<open>list_entry\<close> is also applied to the list head, which has no struct
  around it. A loop runs its body on every struct; the body may change the heap of list nodes. The theorems: in either direction
  a loop visits the structs of the list in order, from the start or from a given one on, and in the safe variants the body may
  delete any of the entries it is at.
\<close>

section \<open>Structs and their members\<close>

type_synonym entry = int

text \<open>\<open>off\<close> is the offset of the member in its struct.\<close>

definition container_of :: "nat \<Rightarrow> ptr \<Rightarrow> entry" where
  "container_of off p = int p - int off"

definition list_entry :: "nat \<Rightarrow> ptr \<Rightarrow> entry" where
  "list_entry off p = container_of off p"

definition member_of :: "nat \<Rightarrow> entry \<Rightarrow> ptr" where
  "member_of off e = nat (e + int off)"

definition LIST_HEAD_INIT :: "ptr \<Rightarrow> list_head" where
  "LIST_HEAD_INIT name = \<lparr>nxt = name, prv = name\<rparr>"

definition LIST_HEAD :: "ptr \<Rightarrow> list_heap \<Rightarrow> list_heap" where
  "LIST_HEAD name h = h(name \<mapsto> LIST_HEAD_INIT name)"

lemma LIST_HEAD_empty: "is_list (LIST_HEAD name h) name []"
  by (simp add: LIST_HEAD_def LIST_HEAD_INIT_def is_list_def next_of_def prev_of_def)

section \<open>Loops over structs\<close>

type_synonym direction = "ptr \<Rightarrow> list_heap \<Rightarrow> ptr option"
type_synonym body = "entry \<Rightarrow> list_heap \<Rightarrow> list_heap option"

text \<open>The loop at \<open>pos\<close>; it follows the links after the body has run.\<close>

fun entry_loop :: "nat \<Rightarrow> direction \<Rightarrow> nat \<Rightarrow> body \<Rightarrow> entry \<Rightarrow> ptr \<Rightarrow> list_heap \<Rightarrow> (entry list \<times> list_heap) option" where
  "entry_loop 0 step off body pos head h = (if member_of off pos = head then Some ([], h) else None)"
| "entry_loop (Suc fuel) step off body pos head h =
     (if member_of off pos = head then Some ([], h)
      else do {
        h \<leftarrow> body pos h;
        n \<leftarrow> step (member_of off pos) h;
        (es, h) \<leftarrow> entry_loop fuel step off body (list_entry off n) head h;
        Some (pos # es, h)
      })"

definition list_for_each_entry :: "nat \<Rightarrow> nat \<Rightarrow> body \<Rightarrow> ptr \<Rightarrow> list_heap \<Rightarrow> (entry list \<times> list_heap) option" where
  "list_for_each_entry fuel off body head h = do {
     n \<leftarrow> next_of head h;
     entry_loop fuel next_of off body (list_entry off n) head h
   }"

definition list_for_each_entry_reverse :: "nat \<Rightarrow> nat \<Rightarrow> body \<Rightarrow> ptr \<Rightarrow> list_heap \<Rightarrow> (entry list \<times> list_heap) option" where
  "list_for_each_entry_reverse fuel off body head h = do {
     n \<leftarrow> prev_of head h;
     entry_loop fuel prev_of off body (list_entry off n) head h
   }"

text \<open>A null pointer stands for the head.\<close>

definition list_prepare_entry :: "nat \<Rightarrow> entry \<Rightarrow> ptr \<Rightarrow> entry" where
  "list_prepare_entry off pos head = (if pos \<noteq> 0 then pos else list_entry off head)"

definition list_for_each_entry_continue :: "nat \<Rightarrow> nat \<Rightarrow> body \<Rightarrow> entry \<Rightarrow> ptr \<Rightarrow> list_heap \<Rightarrow> (entry list \<times> list_heap) option" where
  "list_for_each_entry_continue fuel off body pos head h = do {
     n \<leftarrow> next_of (member_of off pos) h;
     entry_loop fuel next_of off body (list_entry off n) head h
   }"

text \<open>The safe loop follows the links of the next entry \<open>n\<close>, read before the body ran.\<close>

fun entry_safe :: "nat \<Rightarrow> direction \<Rightarrow> nat \<Rightarrow> body \<Rightarrow> entry \<Rightarrow> entry \<Rightarrow> ptr \<Rightarrow> list_heap \<Rightarrow> (entry list \<times> list_heap) option" where
  "entry_safe 0 step off body pos n head h = (if member_of off pos = head then Some ([], h) else None)"
| "entry_safe (Suc fuel) step off body pos n head h =
     (if member_of off pos = head then Some ([], h)
      else do {
        h \<leftarrow> body pos h;
        nn \<leftarrow> step (member_of off n) h;
        (es, h) \<leftarrow> entry_safe fuel step off body n (list_entry off nn) head h;
        Some (pos # es, h)
      })"

definition start_safe :: "nat \<Rightarrow> direction \<Rightarrow> nat \<Rightarrow> body \<Rightarrow> ptr \<Rightarrow> ptr \<Rightarrow> list_heap \<Rightarrow> (entry list \<times> list_heap) option" where
  "start_safe fuel step off body p head h = do {
     pos \<leftarrow> step p h;
     n \<leftarrow> step pos h;
     entry_safe fuel step off body (list_entry off pos) (list_entry off n) head h
   }"

definition list_for_each_entry_safe :: "nat \<Rightarrow> nat \<Rightarrow> body \<Rightarrow> ptr \<Rightarrow> list_heap \<Rightarrow> (entry list \<times> list_heap) option" where
  "list_for_each_entry_safe fuel off body head h = start_safe fuel next_of off body head head h"

definition list_for_each_entry_safe_continue :: "nat \<Rightarrow> nat \<Rightarrow> body \<Rightarrow> entry \<Rightarrow> ptr \<Rightarrow> list_heap \<Rightarrow> (entry list \<times> list_heap) option" where
  "list_for_each_entry_safe_continue fuel off body pos head h = start_safe fuel next_of off body (member_of off pos) head h"

definition list_for_each_entry_safe_reverse :: "nat \<Rightarrow> nat \<Rightarrow> body \<Rightarrow> ptr \<Rightarrow> list_heap \<Rightarrow> (entry list \<times> list_heap) option" where
  "list_for_each_entry_safe_reverse fuel off body head h = start_safe fuel prev_of off body head head h"

section \<open>Sequences in both directions\<close>

definition ring :: "direction \<Rightarrow> list_heap \<Rightarrow> ptr \<Rightarrow> ptr list \<Rightarrow> bool" where
  "ring step h head xs \<longleftrightarrow> step = next_of \<and> is_list h head xs \<or> step = prev_of \<and> is_list h head (rev xs)"

lemma member_entry [simp]: "member_of off (list_entry off p) = p"
  by (simp add: member_of_def list_entry_def container_of_def)

lemma pred_in_rev: "pred_in head (rev xs) = succ_in head xs"
  by (cases xs) (simp_all add: pred_in_def succ_in_def)

lemma ring_head: "ring step h head xs \<Longrightarrow> step head h = Some (succ_in head xs) \<and> distinct (head # xs)"
  unfolding ring_def using is_list_ends pred_in_rev by (fastforce simp: is_list_def)

lemma ring_step: "ring step h head (as @ x # bs) \<Longrightarrow> step x h = Some (succ_in head bs)"
proof -
  assume "ring step h head (as @ x # bs)"
  then consider "step = next_of" "is_list h head ((as @ [x]) @ bs)" | "step = prev_of" "is_list h head (rev bs @ x # rev as)"
    by (auto simp: ring_def)
  then show ?thesis
  proof cases
    case 1
    with is_list_split [of h head "as @ [x]" bs] show ?thesis by (simp add: pred_in_def)
  next
    case 2
    with is_list_split [of h head "rev bs" "x # rev as"] show ?thesis by (simp add: pred_in_rev) (simp add: succ_in_def)
  qed
qed

lemma ring_del: "ring step h head (as @ x # bs) \<Longrightarrow> \<exists>h'. list_del x h = Some h' \<and> ring step h' head (as @ bs)"
  unfolding ring_def using del_spec [of h head as x bs] del_spec [of h head "rev bs" x "rev as"] by auto

lemma directions_differ: "next_of \<noteq> prev_of"
proof
  assume "next_of = prev_of"
  from fun_cong [OF fun_cong [OF this, of 0], of "[0 \<mapsto> \<lparr>nxt = 0, prv = 1\<rparr>]"] show False by (simp add: next_of_def prev_of_def)
qed

lemma ring_list: "ring next_of h head xs \<longleftrightarrow> is_list h head xs" "ring prev_of h head xs \<longleftrightarrow> is_list h head (rev xs)"
  using directions_differ by (auto simp: ring_def)

section \<open>The loops visit the list\<close>

lemma entry_loop_visits:
  "ring step h head (as @ bs) \<Longrightarrow> length bs \<le> fuel \<Longrightarrow> \<forall>e \<in> list_entry off ` set bs. body e h = Some h \<Longrightarrow>
   entry_loop fuel step off body (list_entry off (succ_in head bs)) head h = Some (List.map (list_entry off) bs, h)"
proof (induction bs arbitrary: as fuel)
  case Nil
  then show ?case by (cases fuel) (simp_all add: succ_in_def)
next
  case (Cons x bs)
  then obtain f where f: "fuel = Suc f" "length bs \<le> f" by (cases fuel) auto
  have "x \<noteq> head" using ring_head [OF Cons.prems(1)] by auto
  with Cons.IH [of "as @ [x]" f] Cons.prems ring_step [OF Cons.prems(1)] f show ?case by (simp add: succ_in_def [of head "x # bs"])
qed

text \<open>A body that deletes some of the entries.\<close>

definition del_if :: "(entry \<Rightarrow> bool) \<Rightarrow> nat \<Rightarrow> body" where
  "del_if Q off e h = (if Q e then list_del (member_of off e) h else Some h)"

lemma entry_safe_deletes:
  "ring step h head (as @ bs) \<Longrightarrow> length bs \<le> fuel \<Longrightarrow> (bs \<noteq> [] \<longrightarrow> n = list_entry off (succ_in head (tl bs))) \<Longrightarrow>
   \<exists>h'. entry_safe fuel step off (del_if Q off) (list_entry off (succ_in head bs)) n head h = Some (List.map (list_entry off) bs, h')
     \<and> ring step h' head (as @ filter (\<lambda>x. \<not> Q (list_entry off x)) bs)"
proof (induction bs arbitrary: as h n fuel)
  case Nil
  then show ?case by (cases fuel) (simp_all add: succ_in_def)
next
  case (Cons x bs)
  then obtain f where f: "fuel = Suc f" "length bs \<le> f" by (cases fuel) auto
  have x: "x \<noteq> head" using ring_head [OF Cons.prems(1)] by auto
  let ?as = "if Q (list_entry off x) then as else as @ [x]"
  obtain h1 where h1: "del_if Q off (list_entry off x) h = Some h1" "ring step h1 head (?as @ bs)"
    using ring_del [OF Cons.prems(1)] Cons.prems(1) by (cases "Q (list_entry off x)") (auto simp: del_if_def)
  obtain nn where nn: "step (succ_in head bs) h1 = Some nn" "bs \<noteq> [] \<longrightarrow> nn = succ_in head (tl bs)"
  proof (cases bs)
    case Nil
    with ring_head [OF h1(2)] that show thesis by (simp add: succ_in_def)
  next
    case (Cons y ys)
    with ring_step [of step h1 head ?as y ys] h1(2) that show thesis by (simp add: succ_in_def [of head "y # ys"])
  qed
  from Cons.IH [OF h1(2) f(2), of "list_entry off nn"] nn(2) obtain h' where
    "entry_safe f step off (del_if Q off) (list_entry off (succ_in head bs)) (list_entry off nn) head h1 = Some (List.map (list_entry off) bs, h')"
    "ring step h' head (?as @ filter (\<lambda>x. \<not> Q (list_entry off x)) bs)" by blast
  moreover have "n = list_entry off (succ_in head bs)" using Cons.prems(3) by simp
  ultimately show ?case using f(1) h1(1) nn(1) x
    by (cases "Q (list_entry off x)") (simp_all add: succ_in_def [of head "x # bs"])
qed

lemma ring_from: "ring step h head (as @ bs) \<Longrightarrow> step (if as = [] then head else last as) h = Some (succ_in head bs)"
  using ring_head [of step h head bs] ring_step [of step h head "butlast as" "last as" bs] by (cases as rule: rev_cases) simp_all

lemma start_safe_deletes:
  assumes ring: "ring step h head (as @ bs)" and p: "p = (if as = [] then head else last as)" and fuel: "length bs \<le> fuel"
  shows "\<exists>h'. start_safe fuel step off (del_if Q off) p head h = Some (List.map (list_entry off) bs, h')
    \<and> ring step h' head (as @ filter (\<lambda>x. \<not> Q (list_entry off x)) bs)"
proof -
  note first = ring_from [OF ring, folded p]
  obtain n where n: "step (succ_in head bs) h = Some n" "bs \<noteq> [] \<longrightarrow> n = succ_in head (tl bs)"
  proof (cases bs)
    case Nil
    with ring_head [OF ring] that show thesis by (simp add: succ_in_def)
  next
    case (Cons y ys)
    with ring_step [of step h head as y ys] ring that show thesis by (simp add: succ_in_def [of head "y # ys"])
  qed
  with entry_safe_deletes [OF ring fuel, of "list_entry off n" off Q] first show ?thesis by (simp add: start_safe_def)
qed

section \<open>Hash lists\<close>

definition hlist_entry :: "nat \<Rightarrow> ptr \<Rightarrow> entry" where
  "hlist_entry off p = container_of off p"

fun hentry_loop :: "nat \<Rightarrow> nat \<Rightarrow> (entry \<Rightarrow> hlists \<Rightarrow> hlists option) \<Rightarrow> ptr \<Rightarrow> hlists \<Rightarrow> (entry list \<times> hlists) option" where
  "hentry_loop fuel off body pos s =
     (if pos = NULL then Some ([], s)
      else case fuel of
        0 \<Rightarrow> None
      | Suc k \<Rightarrow> do {
          prefetched \<leftarrow> load (NextOf pos) s;
          s \<leftarrow> body (hlist_entry off pos) s;
          n \<leftarrow> load (NextOf pos) s;
          map_option (apfst (Cons (hlist_entry off pos))) (hentry_loop k off body n s)
        })"

declare hentry_loop.simps [simp del]

definition hlist_for_each_entry :: "nat \<Rightarrow> nat \<Rightarrow> (entry \<Rightarrow> hlists \<Rightarrow> hlists option) \<Rightarrow> ptr \<Rightarrow> hlists \<Rightarrow> (entry list \<times> hlists) option" where
  "hlist_for_each_entry fuel off body h s = do { pos \<leftarrow> load (FirstOf h) s; hentry_loop fuel off body pos s }"

definition hlist_for_each_entry_continue :: "nat \<Rightarrow> nat \<Rightarrow> (entry \<Rightarrow> hlists \<Rightarrow> hlists option) \<Rightarrow> ptr \<Rightarrow> hlists \<Rightarrow> (entry list \<times> hlists) option" where
  "hlist_for_each_entry_continue fuel off body pos s = do { pos \<leftarrow> load (NextOf pos) s; hentry_loop fuel off body pos s }"

definition hlist_for_each_entry_from :: "nat \<Rightarrow> nat \<Rightarrow> (entry \<Rightarrow> hlists \<Rightarrow> hlists option) \<Rightarrow> ptr \<Rightarrow> hlists \<Rightarrow> (entry list \<times> hlists) option" where
  "hlist_for_each_entry_from fuel off body pos s = hentry_loop fuel off body pos s"

definition hlist_for_each_entry_safe :: "nat \<Rightarrow> nat \<Rightarrow> (entry \<Rightarrow> hlists \<Rightarrow> hlists option) \<Rightarrow> ptr \<Rightarrow> hlists \<Rightarrow> (entry list \<times> hlists) option" where
  "hlist_for_each_entry_safe fuel off body h s =
     map_option (apfst (List.map (hlist_entry off))) (hlist_for_each_safe fuel (\<lambda>pos. body (hlist_entry off pos)) h s)"

lemma member_hlist_entry [simp]: "member_of off (hlist_entry off p) = p"
  by (simp add: member_of_def hlist_entry_def container_of_def)

lemma hentry_loop_visits:
  "chain (L s) (P s) sl xs \<Longrightarrow> length xs \<le> fuel \<Longrightarrow> \<forall>e \<in> hlist_entry off ` set xs. body e s = Some s \<Longrightarrow>
   hentry_loop fuel off body (front xs) s = Some (List.map (hlist_entry off) xs, s)"
proof (induction xs arbitrary: sl fuel)
  case Nil
  then show ?case by (simp add: hentry_loop.simps)
next
  case (Cons x xs)
  then obtain k where k: "fuel = Suc k" "length xs \<le> k" by (cases fuel) auto
  have c: "chain (L s) (P s) (NextOf x) xs" "x \<noteq> NULL" using Cons.prems(1) by simp_all
  show ?case using Cons.IH [OF c(1) k(2)] Cons.prems(3) chain_front [OF c(1)] c(2) k(1) by (subst hentry_loop.simps) simp
qed

lemma hlist_entries:
  assumes rep: "rep_table H N s (A, U)" "h \<in> set H" and A: "A h = as @ x # bs" and fuel: "length (A h) \<le> fuel"
    and body: "\<forall>e \<in> hlist_entry off ` set (A h). body e s = Some s"
  shows "hlist_for_each_entry fuel off body h s = Some (List.map (hlist_entry off) (A h), s)"
    "hlist_for_each_entry_from fuel off body x s = Some (List.map (hlist_entry off) (x # bs), s)"
    "hlist_for_each_entry_continue fuel off body x s = Some (List.map (hlist_entry off) bs, s)"
    "\<exists>s'. hlist_for_each_entry_safe fuel off (\<lambda>e. hlist_del (member_of off e)) h s = Some (List.map (hlist_entry off) (A h), s')
      \<and> rep_table H N s' (A(h := []), U)"
proof -
  note c = rep_list(1) [OF rep]
  then have c2: "chain (L s) (P s) (last_slot (FirstOf h) as) (x # bs)" unfolding A by (simp add: chain_append)
  then have c3: "chain (L s) (P s) (NextOf x) bs" by simp
  show "hlist_for_each_entry fuel off body h s = Some (List.map (hlist_entry off) (A h), s)"
    using hentry_loop_visits [OF c, of fuel off body] chain_front [OF c] fuel body by (simp add: hlist_for_each_entry_def)
  show "hlist_for_each_entry_from fuel off body x s = Some (List.map (hlist_entry off) (x # bs), s)"
    using hentry_loop_visits [OF c2, of fuel off body] fuel body A by (simp add: hlist_for_each_entry_from_def)
  show "hlist_for_each_entry_continue fuel off body x s = Some (List.map (hlist_entry off) bs, s)"
    using hentry_loop_visits [OF c3, of fuel off body] chain_front [OF c3] fuel body A by (simp add: hlist_for_each_entry_continue_def)
  from safe_del [OF rep(2,1) refl fuel] chain_front [OF c]
  show "\<exists>s'. hlist_for_each_entry_safe fuel off (\<lambda>e. hlist_del (member_of off e)) h s = Some (List.map (hlist_entry off) (A h), s')
      \<and> rep_table H N s' (A(h := []), U)"
    by (auto simp: hlist_for_each_entry_safe_def hlist_for_each_safe_def)
qed

section \<open>Properties\<close>

text \<open>C7. The loops over the structs of a list. With a body that leaves the links alone they visit, in order, every struct, in
  reverse every struct, and from a given struct on (or, for a null pointer, from the start) those behind it. The safe variants let the
  body delete any of the entries: they visit the same structs and leave a list of the entries that were not deleted.\<close>

theorem klist_entries:
  assumes list: "is_list h head (as @ bs)" and fuel: "length (as @ bs) \<le> fuel"
    and body: "\<forall>e \<in> list_entry off ` set (as @ bs). body e h = Some h" and null: "\<forall>x \<in> set as. list_entry off x \<noteq> 0"
    and pos: "pos = list_prepare_entry off (if as = [] then 0 else list_entry off (last as)) head"
  shows "list_for_each_entry fuel off body head h = Some (List.map (list_entry off) (as @ bs), h)
    \<and> list_for_each_entry_reverse fuel off body head h = Some (List.map (list_entry off) (rev (as @ bs)), h)
    \<and> list_for_each_entry_continue fuel off body pos head h = Some (List.map (list_entry off) bs, h)
    \<and> (\<exists>h'. list_for_each_entry_safe fuel off (del_if Q off) head h = Some (List.map (list_entry off) (as @ bs), h')
        \<and> is_list h' head (filter (\<lambda>x. \<not> Q (list_entry off x)) (as @ bs)))
    \<and> (\<exists>h'. list_for_each_entry_safe_reverse fuel off (del_if Q off) head h = Some (List.map (list_entry off) (rev (as @ bs)), h')
        \<and> is_list h' head (filter (\<lambda>x. \<not> Q (list_entry off x)) (as @ bs)))
    \<and> (\<exists>h'. list_for_each_entry_safe_continue fuel off (del_if Q off) pos head h = Some (List.map (list_entry off) bs, h')
        \<and> is_list h' head (as @ filter (\<lambda>x. \<not> Q (list_entry off x)) bs))"
proof (intro conjI)
  have m: "member_of off pos = (if as = [] then head else last as)" using pos null by (simp add: list_prepare_entry_def)
  have n: "ring next_of h head (as @ bs)" "ring next_of h head ([] @ as @ bs)" and p: "ring prev_of h head ([] @ rev (as @ bs))"
    using list by (simp_all add: ring_list)
  have l: "length bs \<le> fuel" "length (rev (as @ bs)) \<le> fuel" using fuel by simp_all
  show "list_for_each_entry fuel off body head h = Some (List.map (list_entry off) (as @ bs), h)"
    using entry_loop_visits [OF n(2) fuel, of off body] body ring_head [OF n(1)] by (simp add: list_for_each_entry_def)
  show "list_for_each_entry_reverse fuel off body head h = Some (List.map (list_entry off) (rev (as @ bs)), h)"
    using entry_loop_visits [OF p l(2), of off body] body ring_head [OF p] by (simp add: list_for_each_entry_reverse_def Un_commute)
  show "list_for_each_entry_continue fuel off body pos head h = Some (List.map (list_entry off) bs, h)"
    using entry_loop_visits [OF n(1) l(1), of off body] body ring_from [OF n(1)] m by (simp add: list_for_each_entry_continue_def)
  show "\<exists>h'. list_for_each_entry_safe fuel off (del_if Q off) head h = Some (List.map (list_entry off) (as @ bs), h')
      \<and> is_list h' head (filter (\<lambda>x. \<not> Q (list_entry off x)) (as @ bs))"
    using start_safe_deletes [OF n(2) _ fuel, of head off Q] by (simp add: list_for_each_entry_safe_def ring_list)
  show "\<exists>h'. list_for_each_entry_safe_reverse fuel off (del_if Q off) head h = Some (List.map (list_entry off) (rev (as @ bs)), h')
      \<and> is_list h' head (filter (\<lambda>x. \<not> Q (list_entry off x)) (as @ bs))"
    using start_safe_deletes [OF p _ l(2), of head off Q] by (simp add: list_for_each_entry_safe_reverse_def ring_list rev_filter)
  show "\<exists>h'. list_for_each_entry_safe_continue fuel off (del_if Q off) pos head h = Some (List.map (list_entry off) bs, h')
      \<and> is_list h' head (as @ filter (\<lambda>x. \<not> Q (list_entry off x)) bs)"
    using start_safe_deletes [OF n(1) m l(1), of off Q] by (simp add: list_for_each_entry_safe_continue_def ring_list)
qed

text \<open>A list of two structs of 16 bytes whose member is at offset 8.\<close>

theorem klist_entries_witness:
  "\<exists>h h'. is_list h 100 [208, 308] \<and> list_for_each_entry_safe 2 8 (del_if (\<lambda>e. e = 200) 8) 100 h = Some ([200, 300], h') \<and> is_list h' 100 [308]
    \<and> list_for_each_entry_continue 2 8 (\<lambda>e. Some) 200 100 h = Some ([300], h)"
proof -
  have "is_list [100 \<mapsto> \<lparr>nxt = 208, prv = 308\<rparr>, 208 \<mapsto> \<lparr>nxt = 308, prv = 100\<rparr>, 308 \<mapsto> \<lparr>nxt = 100, prv = 208\<rparr>] 100 [208, 308]"
    by (simp add: is_list_def next_of_def prev_of_def)
  then obtain h where l: "is_list h 100 ([208] @ [308])" by auto
  have e: "list_entry 8 208 = 200" "list_entry 8 308 = 300" by (simp_all add: list_entry_def container_of_def)
  then have pos: "200 = list_prepare_entry 8 (if [208] = [] then 0 else list_entry 8 (last [208])) 100" by (simp add: list_prepare_entry_def)
  from klist_entries [OF l _ _ _ pos, of 2 "\<lambda>e. Some" "\<lambda>e. e = 200"] l show ?thesis unfolding e by (simp add: e) blast
qed

end
