(* ===== verification/Dining.thy ===== *)
theory Dining
  imports Prelude
begin

text \<open>
  \<open>src/project3/task1_dining_philosopher.c\<close>: sixteen threads take and put two forks each under a mutex and
  one semaphore per philosopher. Every statement that touches shared data is a step of a thread; the
  function \<open>test\<close> is one step, since the array \<open>state\<close> is accessed only between \<open>sem_wait\<close> and
  \<open>sem_post\<close> of the mutex (which is proved here too). The philosophers are numbered from 1 to 16, but the array
  \<open>state\<close> has 16 elements and only the semaphores 0 to 15 are initialised. The model therefore takes the
  numbers of usable elements of the two arrays as parameters, 16 and 16 in the program, and an access beyond
  them is undefined behaviour. The theorems: neighbours never eat together, with 17 elements nothing is
  undefined and some thread can always move, and with 16 the program does run into undefined behaviour.
\<close>

section \<open>State\<close>

definition MAX_PHILOSOPHER_NUM :: int where "MAX_PHILOSOPHER_NUM = 16"
definition THINKING :: int where "THINKING = 0"
definition HUNGRY :: int where "HUNGRY = 1"
definition EATING :: int where "EATING = 2"

datatype phil_pc =
    Think | TakeWait | SetHungry | TestSelf | TakePost | ForkWait
  | Eat | PutWait | SetThinking | TestLeft | TestRight | PutPost

record dining =
  dp_mutex :: nat
  dp_sem :: "nat list"
  dp_state :: "int list"
  dp_pc :: "int \<Rightarrow> phil_pc"

definition getLeft :: "int \<Rightarrow> int" where
  "getLeft i = (if i = 1 then MAX_PHILOSOPHER_NUM else i - 1)"

definition getRight :: "int \<Rightarrow> int" where
  "getRight i = (if i = MAX_PHILOSOPHER_NUM then 1 else i + 1)"

section \<open>Forks\<close>

definition test :: "int \<Rightarrow> dining \<Rightarrow> dining option" where
  "test i s = do {
     a \<leftarrow> arr_get (dp_state s) i;
     if a \<noteq> HUNGRY then Some s
     else do {
       l \<leftarrow> arr_get (dp_state s) (getLeft i);
       if l = EATING then Some s
       else do {
         r \<leftarrow> arr_get (dp_state s) (getRight i);
         if r = EATING then Some s
         else do {
           st \<leftarrow> arr_set (dp_state s) i EATING;
           c \<leftarrow> arr_get (dp_sem s) i;
           sm \<leftarrow> arr_set (dp_sem s) i (c + 1);
           Some (s\<lparr>dp_state := st, dp_sem := sm\<rparr>)
         }
       }
     }
   }"

abbreviation goto :: "int \<Rightarrow> phil_pc \<Rightarrow> dining \<Rightarrow> dining" where
  "goto i l s \<equiv> s\<lparr>dp_pc := (dp_pc s)(i := l)\<rparr>"

text \<open>A step of philosopher \<open>i\<close>: \<open>None\<close> when the thread is blocked, \<open>Some None\<close> when it does something
  undefined. \<open>take_forks\<close> is the part from \<open>TakeWait\<close> to \<open>ForkWait\<close>, \<open>put_forks\<close> the part from
  \<open>PutWait\<close> to \<open>PutPost\<close>; the sleeping in \<open>think\<close> and \<open>eat\<close> takes any time.\<close>

definition phil_step :: "int \<Rightarrow> dining \<Rightarrow> dining option option" where
  "phil_step i s =
     (if i < 1 \<or> MAX_PHILOSOPHER_NUM < i then None
      else case dp_pc s i of
        Think \<Rightarrow> Some (Some (goto i TakeWait s))
      | TakeWait \<Rightarrow>
          if dp_mutex s = 0 then None else Some (Some (goto i SetHungry (s\<lparr>dp_mutex := dp_mutex s - 1\<rparr>)))
      | SetHungry \<Rightarrow>
          Some (map_option (\<lambda>st. goto i TestSelf (s\<lparr>dp_state := st\<rparr>)) (arr_set (dp_state s) i HUNGRY))
      | TestSelf \<Rightarrow> Some (map_option (goto i TakePost) (test i s))
      | TakePost \<Rightarrow> Some (Some (goto i ForkWait (s\<lparr>dp_mutex := dp_mutex s + 1\<rparr>)))
      | ForkWait \<Rightarrow>
          (case arr_get (dp_sem s) i of
             None \<Rightarrow> Some None
           | Some c \<Rightarrow> if c = 0 then None
               else Some (map_option (\<lambda>sm. goto i Eat (s\<lparr>dp_sem := sm\<rparr>)) (arr_set (dp_sem s) i (c - 1))))
      | Eat \<Rightarrow> Some (Some (goto i PutWait s))
      | PutWait \<Rightarrow>
          if dp_mutex s = 0 then None else Some (Some (goto i SetThinking (s\<lparr>dp_mutex := dp_mutex s - 1\<rparr>)))
      | SetThinking \<Rightarrow>
          Some (map_option (\<lambda>st. goto i TestLeft (s\<lparr>dp_state := st\<rparr>)) (arr_set (dp_state s) i THINKING))
      | TestLeft \<Rightarrow> Some (map_option (goto i TestRight) (test (getLeft i) s))
      | TestRight \<Rightarrow> Some (map_option (goto i PutPost) (test (getRight i) s))
      | PutPost \<Rightarrow> Some (Some (goto i Think (s\<lparr>dp_mutex := dp_mutex s + 1\<rparr>))))"

text \<open>The program state is \<open>None\<close> after undefined behaviour.\<close>

definition philosopher_step :: "int \<Rightarrow> dining option \<Rightarrow> dining option option" where
  "philosopher_step i t = (case t of None \<Rightarrow> None | Some s \<Rightarrow> phil_step i s)"

text \<open>The state in which \<open>main\<close> leaves the threads, with \<open>n\<close> elements of \<open>state\<close> and \<open>m\<close> initialised
  semaphores; the source has \<open>n = m = 16\<close>.\<close>

definition dining_main :: "nat \<Rightarrow> nat \<Rightarrow> dining option" where
  "dining_main n m = Some \<lparr>dp_mutex = 1, dp_sem = replicate m 0, dp_state = replicate n THINKING, dp_pc = (\<lambda>_. Think)\<rparr>"

definition dining_reachable :: "nat \<Rightarrow> nat \<Rightarrow> dining option \<Rightarrow> bool" where
  "dining_reachable n m = reachable (\<lambda>t. t = dining_main n m) (moves philosopher_step)"

section \<open>The invariant\<close>

text \<open>The invariant speaks about the arrays through \<open>view\<close>, as functions that are 0 outside them.\<close>

definition crit :: "phil_pc \<Rightarrow> bool" where
  "crit l \<longleftrightarrow> l \<in> {SetHungry, TestSelf, TakePost, SetThinking, TestLeft, TestRight, PutPost}"

definition phil_local :: "phil_pc \<Rightarrow> int \<Rightarrow> nat \<Rightarrow> bool" where
  "phil_local l st sm =
     (if l \<in> {TakePost, ForkWait} then st = HUNGRY \<and> sm = 0 \<or> st = EATING \<and> sm = 1
      else sm = 0 \<and> st = (if l = TestSelf then HUNGRY else if l \<in> {Eat, PutWait, SetThinking} then EATING else THINKING))"

definition phils :: "int set" where "phils = {1..MAX_PHILOSOPHER_NUM}"

text \<open>A hungry philosopher who waits for the forks has a neighbour who eats or who is about to test him.\<close>

definition will_wake :: "(int \<Rightarrow> int) \<Rightarrow> (int \<Rightarrow> phil_pc) \<Rightarrow> int \<Rightarrow> bool" where
  "will_wake T P i \<longleftrightarrow> (T i = HUNGRY \<and> P i \<in> {TakePost, ForkWait} \<longrightarrow>
     T (getLeft i) = EATING \<or> T (getRight i) = EATING \<or> P (getRight i) = TestLeft \<or> P (getLeft i) \<in> {TestLeft, TestRight})"

definition dining_core :: "nat \<Rightarrow> (int \<Rightarrow> nat) \<Rightarrow> (int \<Rightarrow> int) \<Rightarrow> (int \<Rightarrow> phil_pc) \<Rightarrow> bool" where
  "dining_core M S T P \<longleftrightarrow>
     (\<forall>i \<in> phils. phil_local (P i) (T i) (S i)) \<and>
     (\<forall>i \<in> phils. T i = EATING \<longrightarrow> T (getRight i) \<noteq> EATING) \<and>
     (\<forall>i \<in> phils. will_wake T P i) \<and>
     M \<le> 1 \<and> (M = 0 \<longleftrightarrow> (\<exists>i \<in> phils. crit (P i))) \<and>
     (\<forall>i \<in> phils. \<forall>j \<in> phils. crit (P i) \<longrightarrow> crit (P j) \<longrightarrow> i = j)"

definition dining_inv :: "dining \<Rightarrow> bool" where
  "dining_inv s \<longleftrightarrow> dining_core (dp_mutex s) (view (dp_sem s)) (view (dp_state s)) (dp_pc s)"

lemmas phil_states = THINKING_def HUNGRY_def EATING_def

lemma neighbours:
  "i \<in> phils \<Longrightarrow> getLeft i \<in> phils" "i \<in> phils \<Longrightarrow> getRight i \<in> phils"
  "i \<in> phils \<Longrightarrow> getRight (getLeft i) = i" "i \<in> phils \<Longrightarrow> getLeft (getRight i) = i"
  "i \<in> phils \<Longrightarrow> getLeft i \<noteq> i" "i \<in> phils \<Longrightarrow> getRight i \<noteq> i" "i \<in> phils \<Longrightarrow> getLeft i \<noteq> getRight i"
  by (auto simp: phils_def getLeft_def getRight_def MAX_PHILOSOPHER_NUM_def)

text \<open>What \<open>test\<close> does: it lets the philosopher eat, or nothing because he may not.\<close>

lemma test_cases:
  assumes "test k s = Some s'"
  obtains (pass) "view (dp_state s) k = HUNGRY" "view (dp_state s) (getLeft k) \<noteq> EATING" "view (dp_state s) (getRight k) \<noteq> EATING"
      "view (dp_state s') = (view (dp_state s))(k := EATING)" "view (dp_sem s') = (view (dp_sem s))(k := Suc (view (dp_sem s) k))"
      "dp_mutex s' = dp_mutex s" "dp_pc s' = dp_pc s"
    | (skip) "s' = s" "view (dp_state s) k = HUNGRY \<longrightarrow> view (dp_state s) (getLeft k) = EATING \<or> view (dp_state s) (getRight k) = EATING"
  using assms unfolding test_def
  by (auto simp: view_get view_set split: bind_splits if_splits)


lemma core_local: "dining_core M S T P \<Longrightarrow> i \<in> phils \<Longrightarrow> phil_local (P i) (T i) (S i)"
  by (simp add: dining_core_def)

lemma core_wake: "dining_core M S T P \<Longrightarrow> i \<in> phils \<Longrightarrow> will_wake T P i"
  by (simp add: dining_core_def)

lemma core_excl: "dining_core M S T P \<Longrightarrow> i \<in> phils \<Longrightarrow> T i = EATING \<Longrightarrow> T (getRight i) \<noteq> EATING"
  by (simp add: dining_core_def)

text \<open>The parts of the invariant, as introduction rules for a change at philosopher \<open>i\<close>.\<close>

lemma core_quiet:
  assumes c: "dining_core M S T P" and i: "i \<in> phils" and l: "(P i, l) \<in> {(Think, TakeWait), (Eat, PutWait)}"
  shows "dining_core M S T (P(i := l))"
proof -
  have "phil_local ((P(i := l)) j) (T j) (S j)" if "j \<in> phils" for j
    using core_local [OF c that] l by (auto simp: phil_local_def)
  moreover have "will_wake T (P(i := l)) j" if "j \<in> phils" for j
    using core_wake [OF c that] l by (elim insertE) (auto simp: will_wake_def)
  moreover have "crit ((P(i := l)) j) = crit (P j)" for j
    using l by (auto simp: crit_def)
  ultimately show ?thesis using c by (simp add: dining_core_def)
qed

lemma core_lock:
  assumes c: "dining_core M S T P" and i: "i \<in> phils" and M: "M \<noteq> 0"
    and l: "(P i, l) \<in> {(TakeWait, SetHungry), (PutWait, SetThinking)}"
  shows "dining_core (M - 1) S T (P(i := l))"
proof -
  have free: "\<forall>j \<in> phils. \<not> crit (P j)" "M = 1" using c M by (auto simp: dining_core_def)
  have "phil_local ((P(i := l)) j) (T j) (S j)" if "j \<in> phils" for j
    using core_local [OF c that] l by (auto simp: phil_local_def)
  moreover have "will_wake T (P(i := l)) j" if "j \<in> phils" for j
    using core_wake [OF c that] l by (elim insertE) (auto simp: will_wake_def)
  moreover have "crit ((P(i := l)) j) = (j = i)" if "j \<in> phils" for j
    using l free that by (auto simp: crit_def)
  ultimately show ?thesis using c i free by (auto simp: dining_core_def)
qed

lemma core_unlock:
  assumes c: "dining_core M S T P" and i: "i \<in> phils"
    and l: "(P i, l) \<in> {(TakePost, ForkWait), (PutPost, Think)}"
  shows "dining_core (M + 1) S T (P(i := l))"
proof -
  have "crit (P i)" using l by (auto simp: crit_def)
  then have held: "\<forall>j \<in> phils. crit (P j) \<longrightarrow> j = i" "M = 0" using c i by (auto simp: dining_core_def)
  have "phil_local ((P(i := l)) j) (T j) (S j)" if "j \<in> phils" for j
    using core_local [OF c that] l by (auto simp: phil_local_def)
  moreover have "will_wake T (P(i := l)) j" if "j \<in> phils" for j
    using core_wake [OF c that] l by (elim insertE) (auto simp: will_wake_def)
  moreover have "\<not> crit l" using l by (auto simp: crit_def)
  then have "\<not> crit ((P(i := l)) j)" if "j \<in> phils" for j
    using held that by auto
  ultimately show ?thesis using c held(2) unfolding dining_core_def by simp
qed

text \<open>Steps inside the critical section keep the mutex.\<close>

lemma core_crit:
  assumes c: "dining_core M S T P" and i: "i \<in> phils" and crit: "crit (P i)" "crit l"
    and loc: "\<And>j. j \<in> phils \<Longrightarrow> phil_local ((P(i := l)) j) (T' j) (S' j)"
    and excl: "\<And>j. j \<in> phils \<Longrightarrow> T' j = EATING \<Longrightarrow> T' (getRight j) \<noteq> EATING"
    and wake: "\<And>j. j \<in> phils \<Longrightarrow> will_wake T' (P(i := l)) j"
  shows "dining_core M S' T' (P(i := l))"
proof -
  have "crit ((P(i := l)) j) = crit (P j)" for j using crit by simp
  with assms show ?thesis unfolding dining_core_def by simp
qed

lemma others_outside:
  assumes "dining_core M S T P" "i \<in> phils" "j \<in> phils" "crit (P i)" "j \<noteq> i"
  shows "\<not> crit (P j)"
  using assms by (auto simp: dining_core_def)

lemma core_hungry:
  assumes c: "dining_core M S T P" and i: "i \<in> phils" and P: "P i = SetHungry"
  shows "dining_core M S (T(i := HUNGRY)) (P(i := TestSelf))"
proof (rule core_crit [OF c i])
  show "crit (P i)" "crit TestSelf" using P by (auto simp: crit_def)
  have Ti: "T i = THINKING" using core_local [OF c i] P by (simp add: phil_local_def)
  fix j assume j: "j \<in> phils"
  show "phil_local ((P(i := TestSelf)) j) ((T(i := HUNGRY)) j) (S j)"
    using core_local [OF c j] P by (auto simp: phil_local_def)
  show "(T(i := HUNGRY)) j = EATING \<Longrightarrow> (T(i := HUNGRY)) (getRight j) \<noteq> EATING"
    using c j by (auto simp: dining_core_def phil_states split: if_splits)
  have "will_wake T P j" using c j by (simp add: dining_core_def)
  then show "will_wake (T(i := HUNGRY)) (P(i := TestSelf)) j"
    using P Ti by (auto simp: will_wake_def phil_states)
qed

lemma core_thinking:
  assumes c: "dining_core M S T P" and i: "i \<in> phils" and P: "P i = SetThinking"
  shows "dining_core M S (T(i := THINKING)) (P(i := TestLeft))"
proof (rule core_crit [OF c i])
  show "crit (P i)" "crit TestLeft" using P by (auto simp: crit_def)
  fix j assume j: "j \<in> phils"
  show "phil_local ((P(i := TestLeft)) j) ((T(i := THINKING)) j) (S j)"
    using core_local [OF c j] P by (auto simp: phil_local_def)
  show "(T(i := THINKING)) j = EATING \<Longrightarrow> (T(i := THINKING)) (getRight j) \<noteq> EATING"
    using c j by (auto simp: dining_core_def phil_states split: if_splits)
  have "will_wake T P j" using c j by (simp add: dining_core_def)
  then show "will_wake (T(i := THINKING)) (P(i := TestLeft)) j"
    using P by (auto simp: will_wake_def phil_states)
qed

lemma core_eat:
  assumes c: "dining_core M S T P" and i: "i \<in> phils" and P: "P i = ForkWait" and S: "S i \<noteq> 0"
  shows "dining_core M (S(i := S i - 1)) T (P(i := Eat))"
proof -
  have "phil_local ((P(i := Eat)) j) (T j) ((S(i := S i - 1)) j)" if "j \<in> phils" for j
    using core_local [OF c that] P S by (auto simp: phil_local_def)
  moreover have Ti: "T i = EATING" using core_local [OF c i] P S by (auto simp: phil_local_def)
  have "will_wake T (P(i := Eat)) j" if "j \<in> phils" for j
    using c that P Ti by (auto simp: will_wake_def dining_core_def phil_states)
  moreover have "crit ((P(i := Eat)) j) = crit (P j)" for j using P by (auto simp: crit_def)
  ultimately show ?thesis using c by (simp add: dining_core_def)
qed


text \<open>A philosopher other than the one being tested still has a neighbour who eats or will test him.\<close>

lemma will_wake_other:
  assumes l: "(P i, l, k) \<in> {(TestSelf, TakePost, i), (TestLeft, TestRight, getLeft i), (TestRight, PutPost, getRight i)}"
    and i: "i \<in> phils" and j: "j \<in> phils" "j \<noteq> k" and w: "will_wake T P j"
  shows "will_wake T (P(i := l)) j"
proof (cases "getRight j = i \<or> getLeft j = i \<or> j = i")
  case False
  with w show ?thesis by (auto simp: will_wake_def)
next
  case True
  then consider "getRight j = i" | "getLeft j = i" | "j = i" by blast
  then show ?thesis
  proof cases
    case 1
    with l j w neighbours [OF j(1)] show ?thesis by (elim insertE) (auto simp: will_wake_def)
  next
    case 2
    with l j w neighbours [OF j(1)] show ?thesis by (elim insertE) (auto simp: will_wake_def)
  next
    case 3
    with l j w neighbours [OF j(1)] show ?thesis by (elim insertE) (auto simp: will_wake_def)
  qed
qed

lemma will_wake_eats: "will_wake T P j \<Longrightarrow> T k = HUNGRY \<Longrightarrow> will_wake (T(k := EATING)) P j"
  by (auto simp: will_wake_def phil_states)

text \<open>The test of philosopher \<open>k\<close> by \<open>i\<close>, with \<open>l\<close> the place after it: either \<open>k\<close> starts to eat, or he may not.\<close>

lemma core_test:
  assumes c: "dining_core M S T P" and i: "i \<in> phils"
    and l: "(P i, l, k) \<in> {(TestSelf, TakePost, i), (TestLeft, TestRight, getLeft i), (TestRight, PutPost, getRight i)}"
  shows "T k = HUNGRY \<Longrightarrow> T (getLeft k) \<noteq> EATING \<Longrightarrow> T (getRight k) \<noteq> EATING \<Longrightarrow>
      dining_core M (S(k := Suc (S k))) (T(k := EATING)) (P(i := l))"
    and "(T k = HUNGRY \<longrightarrow> T (getLeft k) = EATING \<or> T (getRight k) = EATING) \<Longrightarrow> dining_core M S T (P(i := l))"
proof -
  have crit: "crit (P i)" "crit l" using l by (auto simp: crit_def)
  have k: "k \<in> phils" using l i by (auto simp: neighbours)
  have waits: "P k = ForkWait" if "T k = HUNGRY" "k \<noteq> i"
    using core_local [OF c k] others_outside [OF c i k crit(1)] that
    by (auto simp: phil_local_def crit_def phil_states split: if_splits)
  show "dining_core M (S(k := Suc (S k))) (T(k := EATING)) (P(i := l))"
    if T: "T k = HUNGRY" "T (getLeft k) \<noteq> EATING" "T (getRight k) \<noteq> EATING"
  proof (rule core_crit [OF c i crit])
    fix j assume j: "j \<in> phils"
    show "phil_local ((P(i := l)) j) ((T(k := EATING)) j) ((S(k := Suc (S k))) j)"
    proof (cases "j = k")
      case True
      then have "(P(i := l)) j \<in> {TakePost, ForkWait} \<and> S j = 0"
        using core_local [OF c k] core_local [OF c i] waits l T(1) neighbours [OF i]
        by (cases "k = i") (auto simp: phil_local_def phil_states)
      with True show ?thesis by (simp add: phil_local_def)
    next
      case False
      with core_local [OF c j] core_local [OF c i] l show ?thesis by (auto simp: phil_local_def)
    qed
    show "(T(k := EATING)) j = EATING \<Longrightarrow> (T(k := EATING)) (getRight j) \<noteq> EATING"
      using c j k T neighbours [OF j] neighbours [OF k] by (auto simp: dining_core_def split: if_splits)
    show "will_wake (T(k := EATING)) (P(i := l)) j"
    proof (cases "j = k")
      case True
      then show ?thesis by (simp add: will_wake_def phil_states)
    next
      case False
      show ?thesis by (intro will_wake_eats will_wake_other [OF l i j False core_wake [OF c j]] T(1))
    qed
  qed
  show "dining_core M S T (P(i := l))" if T: "T k = HUNGRY \<longrightarrow> T (getLeft k) = EATING \<or> T (getRight k) = EATING"
  proof (rule core_crit [OF c i crit])
    fix j assume j: "j \<in> phils"
    show "phil_local ((P(i := l)) j) (T j) (S j)"
      using core_local [OF c j] l by (auto simp: phil_local_def)
    show "T j = EATING \<Longrightarrow> T (getRight j) \<noteq> EATING" using c j by (simp add: dining_core_def)
    show "will_wake T (P(i := l)) j"
    proof (cases "j = k")
      case True
      with T show ?thesis by (auto simp: will_wake_def)
    next
      case False
      show ?thesis by (rule will_wake_other [OF l i j False core_wake [OF c j]])
    qed
  qed
qed


section \<open>Steps keep the invariant\<close>

lemma inv_test:
  assumes "dining_inv s" "i \<in> phils" "test k s = Some s'"
    "(dp_pc s i, l, k) \<in> {(TestSelf, TakePost, i), (TestLeft, TestRight, getLeft i), (TestRight, PutPost, getRight i)}"
  shows "dining_inv (goto i l s')"
  using assms(3)
proof (cases rule: test_cases)
  case pass
  with core_test(1) [OF assms(1) [unfolded dining_inv_def] assms(2,4)] show ?thesis by (simp add: dining_inv_def)
next
  case skip
  with core_test(2) [OF assms(1) [unfolded dining_inv_def] assms(2,4)] show ?thesis by (simp add: dining_inv_def)
qed

lemma inv_step:
  assumes inv: "dining_inv s" and step: "phil_step i s = Some (Some s')"
  shows "dining_inv s'"
proof -
  have i: "i \<in> phils" using step by (auto simp: phil_step_def phils_def split: if_splits)
  note core = inv [unfolded dining_inv_def]
  show ?thesis
  proof (cases "dp_pc s i")
    case Think
    with step core_quiet [OF core i, of TakeWait] show ?thesis by (auto simp: phil_step_def dining_inv_def split: if_splits)
  next
    case TakeWait
    with step core_lock [OF core i, of SetHungry] show ?thesis by (auto simp: phil_step_def dining_inv_def split: if_splits)
  next
    case SetHungry
    with step core_hungry [OF core i] show ?thesis
      by (auto simp: phil_step_def dining_inv_def view_set split: if_splits)
  next
    case TestSelf
    with step inv_test [OF inv i, of i _ TakePost] show ?thesis by (auto simp: phil_step_def split: if_splits)
  next
    case TakePost
    with step core_unlock [OF core i, of ForkWait] show ?thesis by (auto simp: phil_step_def dining_inv_def split: if_splits)
  next
    case ForkWait
    with step core_eat [OF core i] show ?thesis
      by (auto simp: phil_step_def dining_inv_def view_set view_get split: if_splits option.splits)
  next
    case Eat
    with step core_quiet [OF core i, of PutWait] show ?thesis by (auto simp: phil_step_def dining_inv_def split: if_splits)
  next
    case PutWait
    with step core_lock [OF core i, of SetThinking] show ?thesis by (auto simp: phil_step_def dining_inv_def split: if_splits)
  next
    case SetThinking
    with step core_thinking [OF core i] show ?thesis
      by (auto simp: phil_step_def dining_inv_def view_set split: if_splits)
  next
    case TestLeft
    with step inv_test [OF inv i, of "getLeft i" _ TestRight] show ?thesis by (auto simp: phil_step_def split: if_splits)
  next
    case TestRight
    with step inv_test [OF inv i, of "getRight i" _ PutPost] show ?thesis by (auto simp: phil_step_def split: if_splits)
  next
    case PutPost
    with step core_unlock [OF core i, of Think] show ?thesis by (auto simp: phil_step_def dining_inv_def split: if_splits)
  qed
qed

definition sized :: "nat \<Rightarrow> nat \<Rightarrow> dining \<Rightarrow> bool" where
  "sized n m s \<longleftrightarrow> length (dp_state s) = n \<and> length (dp_sem s) = m"

lemma test_sized: "test k s = Some s' \<Longrightarrow> sized n m s \<Longrightarrow> sized n m s'"
  unfolding test_def by (auto simp: sized_def dest!: arr_set_SomeD split: bind_splits if_splits)

lemma step_sized:
  assumes "phil_step i s = Some (Some s')" "sized n m s"
  shows "sized n m s'"
proof (cases "dp_pc s i \<in> {TestSelf, TestLeft, TestRight}")
  case True
  then obtain k l u where "test k s = Some u" "s' = goto i l u"
    using assms(1) by (auto simp: phil_step_def split: if_splits)
  with test_sized assms(2) show ?thesis by (fastforce simp: sized_def)
next
  case False
  with assms show ?thesis
    by (auto simp: phil_step_def sized_def dest!: arr_set_SomeD split: if_splits option.splits phil_pc.splits)
qed

lemma test_defined: "sized n m s \<Longrightarrow> 16 < n \<Longrightarrow> 16 < m \<Longrightarrow> k \<in> phils \<Longrightarrow> test k s \<noteq> None"
  using neighbours(1,2) [of k]
  by (auto simp: test_def sized_def phils_def MAX_PHILOSOPHER_NUM_def)

lemma step_defined:
  assumes "sized n m s" "16 < n" "16 < m"
  shows "phil_step i s \<noteq> Some None"
proof (cases "i \<in> phils")
  case True
  with assms test_defined [OF assms] neighbours(1,2) [OF True] show ?thesis
    by (cases "dp_pc s i") (auto simp: phil_step_def sized_def phils_def MAX_PHILOSOPHER_NUM_def split: option.splits if_splits)
next
  case False
  then show ?thesis by (auto simp: phil_step_def phils_def)
qed

text \<open>The invariant of the program: nothing undefined happens when the arrays have more than 16 usable elements.\<close>

definition dining_ok :: "nat \<Rightarrow> nat \<Rightarrow> dining option \<Rightarrow> bool" where
  "dining_ok n m t = (case t of None \<Rightarrow> n \<le> 16 \<or> m \<le> 16 | Some s \<Rightarrow> dining_inv s \<and> sized n m s)"

interpretation dining: inductive_invariant "\<lambda>t. t = dining_main n m" "moves philosopher_step" "dining_ok n m" for n m
proof
  fix t
  assume "t = dining_main n m"
  then show "dining_ok n m t"
    using view_replicate [of n, where 'a = int] view_replicate [of m, where 'a = nat]
    by (auto simp: dining_ok_def dining_main_def sized_def dining_inv_def dining_core_def phil_local_def will_wake_def
        crit_def phil_states)
next
  fix t t'
  assume "moves philosopher_step t t'" and ok: "dining_ok n m t"
  then obtain s i where s: "t = Some s" "phil_step i s = Some t'"
    by (auto simp: moves_def philosopher_step_def split: option.splits)
  show "dining_ok n m t'"
  proof (cases t')
    case None
    with s ok step_defined [of n m s i] have "n \<le> 16 \<or> m \<le> 16" 
      by (cases "16 < n \<and> 16 < m") (auto simp: dining_ok_def)
    with None show ?thesis by (simp add: dining_ok_def)
  next
    case (Some s')
    with s ok inv_step [of s i s'] step_sized [of i s s' n m] show ?thesis by (simp add: dining_ok_def)
  qed
qed

text \<open>Between taking and putting the forks.\<close>

definition has_forks :: "dining \<Rightarrow> int \<Rightarrow> bool" where
  "has_forks s i \<longleftrightarrow> dp_pc s i \<in> {Eat, PutWait, SetThinking}"

text \<open>C12. Neighbours never eat together: whatever the extents of the two arrays, in every state the program
  reaches without undefined behaviour a philosopher who is between taking and putting his forks has two
  neighbours who are not, and at most one philosopher is inside the mutex.\<close>

theorem dining_exclusion:
  assumes "dining_reachable n m (Some s)" "1 \<le> i" "i \<le> 16"
  shows "(has_forks s i \<longrightarrow> \<not> has_forks s (getLeft i) \<and> \<not> has_forks s (getRight i))
    \<and> (\<forall>j. 1 \<le> j \<longrightarrow> j \<le> 16 \<longrightarrow> crit (dp_pc s i) \<longrightarrow> crit (dp_pc s j) \<longrightarrow> i = j)"
proof -
  let ?T = "view (dp_state s)"
  have "dining_ok n m (Some s)" using assms(1) dining.reachable_inv unfolding dining_reachable_def by blast
  then have core: "dining_core (dp_mutex s) (view (dp_sem s)) ?T (dp_pc s)" by (simp add: dining_ok_def dining_inv_def)
  have i: "i \<in> phils" using assms by (simp add: phils_def MAX_PHILOSOPHER_NUM_def)
  have eats: "?T j = EATING" if "has_forks s j" "j \<in> phils" for j
    using core_local [OF core that(2)] that(1) by (auto simp: has_forks_def phil_local_def)
  have "\<not> (has_forks s i \<and> has_forks s (getRight i))"
    using eats core_excl [OF core i] i neighbours [OF i] by blast
  moreover have "\<not> (has_forks s i \<and> has_forks s (getLeft i))"
    using eats core_excl [OF core, of "getLeft i"] i neighbours [OF i] by metis
  moreover have "i = j" if "1 \<le> j" "j \<le> 16" "crit (dp_pc s i)" "crit (dp_pc s j)" for j
    using others_outside [OF core i, of j] that by (auto simp: phils_def MAX_PHILOSOPHER_NUM_def)
  ultimately show ?thesis by blast
qed


text \<open>The program itself has 16 elements: the sixteenth philosopher writes outside \<open>state\<close> in his third step,
  and the first one reads outside it in his fourth.\<close>

lemma dining_undefined:
  "run_schedule philosopher_step [16, 16, 16] (dining_main 16 16) = Some None"
  "run_schedule philosopher_step [1, 1, 1, 1] (dining_main 16 16) = Some None"
  by (simp_all add: philosopher_step_def phil_step_def dining_main_def test_def getLeft_def MAX_PHILOSOPHER_NUM_def
      phil_states)


section \<open>Examples\<close>

text \<open>Philosopher 2 takes his forks in the program as it is; with 17 elements philosopher 16 waits for his.\<close>

definition dining_second :: dining where
  "dining_second = \<lparr>dp_mutex = 1, dp_sem = replicate 16 0, dp_state = (replicate 16 THINKING)[2 := EATING],
     dp_pc = (\<lambda>_. Think)(2 := Eat)\<rparr>"

lemma reach_second: "dining_reachable 16 16 (Some dining_second)"
  unfolding dining_reachable_def
  by (rule run_schedule_reachable [of _ _ "dining_main 16 16" "[2, 2, 2, 2, 2, 2]"], rule reach_start, rule refl)
    (simp add: philosopher_step_def phil_step_def dining_main_def test_def getLeft_def getRight_def
      MAX_PHILOSOPHER_NUM_def phil_states dining_second_def list_update_same_conv)

theorem dining_exclusion_witness:
  "has_forks dining_second 2 \<and> \<not> has_forks dining_second 1 \<and> \<not> has_forks dining_second 3"
  using dining_exclusion [OF reach_second, of 2]
  by (simp add: has_forks_def dining_second_def getLeft_def getRight_def MAX_PHILOSOPHER_NUM_def)


section \<open>The pauses\<close>

text \<open>The message and the pause of \<open>think\<close> and \<open>eat\<close>, for the number \<open>rand\<close> returns. The pause is one \<open>usleep\<close> accepts: less than a
  second.\<close>

definition pickNanotimeSeedRandomNumber :: "nat \<Rightarrow> int" where
  "pickNanotimeSeedRandomNumber rnd = (1000 + int rnd mod 2499) * 100"

definition think :: "int \<Rightarrow> nat \<Rightarrow> string \<times> int" where
  "think i rnd = (let waittime = pickNanotimeSeedRandomNumber rnd
     in (''PHILOSOPHER '' @ dec_int i @ '' : think for '' @ dec_int waittime @ '' us'' @ [CHR 0x0A], waittime))"

definition eat :: "int \<Rightarrow> nat \<Rightarrow> string \<times> int" where
  "eat i rnd = (let waittime = pickNanotimeSeedRandomNumber rnd
     in (''PHILOSOPHER '' @ dec_int i @ '' : eat for '' @ dec_int waittime @ '' us'' @ [CHR 0x0A], waittime))"

lemma pause_bounds: "100000 \<le> pickNanotimeSeedRandomNumber rnd \<and> pickNanotimeSeedRandomNumber rnd < 1000000"
  "snd (think i rnd) = pickNanotimeSeedRandomNumber rnd" "snd (eat i rnd) = pickNanotimeSeedRandomNumber rnd"
proof -
  have *: "0 \<le> int rnd mod 2499" "int rnd mod 2499 < 2499"
    by (rule pos_mod_sign pos_mod_bound, simp)+
  have "100000 \<le> (1000 + m) * 100 \<and> (1000 + m) * 100 < (1000000 :: int)" if "0 \<le> m" "m < 2499" for m :: int
    using that by simp
  from this [OF *] show "100000 \<le> pickNanotimeSeedRandomNumber rnd \<and> pickNanotimeSeedRandomNumber rnd < 1000000"
    unfolding pickNanotimeSeedRandomNumber_def .
qed (simp_all add: think_def eat_def Let_def)

end
