(* ===== verification/Monkeys.thy ===== *)
theory Monkeys
  imports Prelude
begin

text \<open>
  \<open>src/project3/task1_training_monkeys.c\<close>: monkeys are created one after the other, at most four are in the room; each
  takes its two balls together, thinks, leaves, and eats a banana from one of two bowls if one is free, else an apple. A
  trainer fills the bowls. Every thread is a program counter, every operation on shared data is one step, a blocked
  thread has no step, and an access outside an array ends in the undefined state \<open>None\<close>. Random numbers
  are arguments of the steps. The theorems: no ball and no bowl is ever shared, at most four monkeys are in the room and
  nothing is undefined; and the trainer may feed the same bowl twice and fall asleep while a monkey waits for its banana.
\<close>

section \<open>State\<close>

datatype monkey_pc =
    NewMonkey | InsideRoom
  | CheckWait | GetFirst | GetSecond | Decide | PickFirst | PickSecond | CheckPost | CheckFail
  | TakesFirst | TakesSecond | ReleaseSecond
  | LeaveRoom | TryBowl
  | BowlWait | BowlPick | BowlPost | WakeTrainer | FeedWait | ReleaseWait | ReleaseUsage | ReleasePost | FullPost
  | EatBananas | EatApples
  | CountWait | CountAdd | CountOut | CountPost | CountCheck | Gone

record monkey =
  mk_id :: int
  mk_first :: int
  mk_second :: int
  mk_time :: int
  mk_b1 :: nat
  mk_b2 :: nat
  mk_bowl :: int
  mk_current :: int
  mk_pc :: monkey_pc

datatype trainer_pc = GetEmpty | EmptyWait | SeeFirst | FeedFirst | SeeSecond | FeedSecond

datatype main_pc = MainWait | IdWait | IdAdd | IdOut | IdPost | Spawn

record training =
  maxMonkeys :: nat
  balls :: "nat list"
  bowls_full :: nat
  bowls_empty :: nat
  ballCheckingMutex :: nat
  bowlCheckingMutex :: nat
  counterMutex :: nat
  bowls_detail :: "nat list"
  bowls_usage :: "nat list"
  identity :: int
  trainingCounter :: int
  finished :: bool
  monkeys :: "monkey list"
  trainer_at :: trainer_pc
  main_at :: main_pc
  main_id :: int

definition MAX_MONKEYS :: nat where "MAX_MONKEYS = 4"
definition TARGET_TRAINING :: int where "TARGET_TRAINING = 300"

text \<open>The state after \<open>initSemaphore\<close> and the creation of the trainer.\<close>

definition initSemaphore :: training where
  "initSemaphore = \<lparr>maxMonkeys = MAX_MONKEYS, balls = [1, 1, 1, 1], bowls_full = 2, bowls_empty = 0, ballCheckingMutex = 1,
     bowlCheckingMutex = 1, counterMutex = 1, bowls_detail = [0, 0], bowls_usage = [0, 0], identity = 0, trainingCounter = 0,
     finished = False, monkeys = [], trainer_at = GetEmpty, main_at = MainWait, main_id = 0\<rparr>"

section \<open>Messages\<close>

definition ballname :: "int \<Rightarrow> string option" where
  "ballname c = arr_get [''RED'', ''GREEN'', ''BLUE'', ''YELLOW''] c"

text \<open>What \<open>printMonkeyState\<close> prints at the beginning of a state, nothing when the monkey is about to check the balls.\<close>

definition printMonkeyState :: "monkey \<Rightarrow> string option" where
  "printMonkeyState m = (if mk_pc m = CheckWait then Some [] else do {
     first \<leftarrow> ballname (mk_first m);
     second \<leftarrow> ballname (mk_second m);
     let name = ''Monkey '' @ dec_int (mk_id m) @ '' ('' @ first @ '','' @ second @ '') : '';
     Some (case mk_pc m of
         NewMonkey \<Rightarrow> name @ ''New monkey has been created'' @ [CHR 0x0A]
       | InsideRoom \<Rightarrow> name @ ''comes into the room'' @ [CHR 0x0A]
       | TakesFirst \<Rightarrow> name @ ''takes the '' @ first @ '' ball'' @ [CHR 0x0A]
       | TakesSecond \<Rightarrow> name @ ''takes the '' @ second @ '' ball'' @ [CHR 0x0A]
       | LeaveRoom \<Rightarrow> name @ ''goes outside of the room'' @ [CHR 0x0A]
       | EatBananas \<Rightarrow> name @ ''eats banana from bowl '' @ dec_int (mk_bowl m + 1) @ [CHR 0x0A]
       | EatApples \<Rightarrow> name @ ''eats apples'' @ [CHR 0x0A]
       | CountWait \<Rightarrow> name @ ''has finished the training, bye~'' @ [CHR 0x0A]
       | _ \<Rightarrow> name)
   })"

text \<open>The message of \<open>thinking\<close>.\<close>

definition thinking :: "monkey \<Rightarrow> string option" where
  "thinking m = do {
     first \<leftarrow> ballname (mk_first m);
     second \<leftarrow> ballname (mk_second m);
     Some (''Monkey '' @ dec_int (mk_id m) @ '' ('' @ first @ '','' @ second @ '') : is thinking for '' @ dec_int (mk_time m) @ '' us'' @ [CHR 0x0A])
   }"

text \<open>The duration \<open>finishTraining\<close> reports, in microseconds, from the seconds and microseconds at the start and at the end.\<close>

definition finishTraining :: "int \<times> int \<Rightarrow> int \<times> int \<Rightarrow> int" where
  "finishTraining start stop =
     (let sec = fst stop - fst start; belowpoint = snd stop - snd start
      in if sec > 0 then 1000000 * sec + belowpoint else belowpoint)"

section \<open>Monkeys\<close>

abbreviation at :: "monkey \<Rightarrow> monkey_pc \<Rightarrow> monkey" where
  "at m l \<equiv> m\<lparr>mk_pc := l\<rparr>"

text \<open>A step of a monkey changes the shared state and the monkey: \<open>None\<close> when it is blocked, \<open>Some None\<close> when it is
  undefined. \<open>acquireProperBowl\<close> is the part from \<open>BowlWait\<close> to \<open>BowlPost\<close>, \<open>releaseBowl\<close> the part from
  \<open>ReleaseWait\<close> to \<open>ReleasePost\<close>, \<open>modifyValue\<close> the part from \<open>CountWait\<close> to \<open>CountPost\<close>. A monkey
  tries for a bowl once, so its error number is \<open>EAGAIN\<close> exactly when that failed.\<close>

definition acquireProperBowl :: "nat list \<Rightarrow> (int \<times> nat list) option" where
  "acquireProperBowl usage = do {
     u0 \<leftarrow> arr_get usage 0;
     if u0 = 0 then do { usage \<leftarrow> arr_set usage 0 1; Some (0, usage) }
     else do {
       u1 \<leftarrow> arr_get usage 1;
       if u1 = 0 then do { usage \<leftarrow> arr_set usage 1 1; Some (1, usage) }
       else Some (- 1, usage)
     }
   }"

definition releaseBowl :: "int \<Rightarrow> nat list \<Rightarrow> nat list option" where
  "releaseBowl i usage = do {
     u \<leftarrow> arr_get usage i;
     if u = 1 then arr_set usage i 0 else Some usage
   }"

definition monkeySimulatorThread :: "monkey \<Rightarrow> training \<Rightarrow> (monkey \<times> training) option option" where
  "monkeySimulatorThread m s =
     (case mk_pc m of
        NewMonkey \<Rightarrow> Some (Some (at m InsideRoom, s))
      | InsideRoom \<Rightarrow> Some (Some (at m CheckWait, s))
      | CheckWait \<Rightarrow>
          if ballCheckingMutex s = 0 then None
          else Some (Some (at m GetFirst, s\<lparr>ballCheckingMutex := ballCheckingMutex s - 1\<rparr>))
      | GetFirst \<Rightarrow> Some (map_option (\<lambda>b. (at (m\<lparr>mk_b1 := b\<rparr>) GetSecond, s)) (arr_get (balls s) (mk_first m)))
      | GetSecond \<Rightarrow> Some (map_option (\<lambda>b. (at (m\<lparr>mk_b2 := b\<rparr>) Decide, s)) (arr_get (balls s) (mk_second m)))
      | Decide \<Rightarrow> Some (Some (at m (if mk_b1 m = 1 \<and> mk_b2 m = 1 then PickFirst else CheckFail), s))
      | PickFirst \<Rightarrow>
          (case arr_get (balls s) (mk_first m) of
             None \<Rightarrow> Some None
           | Some b \<Rightarrow> if b = 0 then None
               else Some (map_option (\<lambda>bs. (at m PickSecond, s\<lparr>balls := bs\<rparr>)) (arr_set (balls s) (mk_first m) (b - 1))))
      | PickSecond \<Rightarrow>
          (case arr_get (balls s) (mk_second m) of
             None \<Rightarrow> Some None
           | Some b \<Rightarrow> if b = 0 then None
               else Some (map_option (\<lambda>bs. (at m CheckPost, s\<lparr>balls := bs\<rparr>)) (arr_set (balls s) (mk_second m) (b - 1))))
      | CheckPost \<Rightarrow> Some (Some (at m TakesFirst, s\<lparr>ballCheckingMutex := ballCheckingMutex s + 1\<rparr>))
      | CheckFail \<Rightarrow> Some (Some (at m CheckWait, s\<lparr>ballCheckingMutex := ballCheckingMutex s + 1\<rparr>))
      | TakesFirst \<Rightarrow> Some (Some (at m TakesSecond, s))
      | TakesSecond \<Rightarrow>
          Some (do {
            b \<leftarrow> arr_get (balls s) (mk_first m);
            bs \<leftarrow> arr_set (balls s) (mk_first m) (b + 1);
            Some (at m ReleaseSecond, s\<lparr>balls := bs\<rparr>)
          })
      | ReleaseSecond \<Rightarrow>
          Some (do {
            b \<leftarrow> arr_get (balls s) (mk_second m);
            bs \<leftarrow> arr_set (balls s) (mk_second m) (b + 1);
            Some (at m LeaveRoom, s\<lparr>balls := bs\<rparr>)
          })
      | LeaveRoom \<Rightarrow> Some (Some (at m TryBowl, s\<lparr>maxMonkeys := maxMonkeys s + 1\<rparr>))
      | TryBowl \<Rightarrow>
          if bowls_full s = 0 then Some (Some (at m EatApples, s))
          else Some (Some (at m BowlWait, s\<lparr>bowls_full := bowls_full s - 1\<rparr>))
      | BowlWait \<Rightarrow>
          if bowlCheckingMutex s = 0 then None
          else Some (Some (at m BowlPick, s\<lparr>bowlCheckingMutex := bowlCheckingMutex s - 1\<rparr>))
      | BowlPick \<Rightarrow>
          Some (map_option (\<lambda>(b, us). (at (m\<lparr>mk_bowl := b\<rparr>) BowlPost, s\<lparr>bowls_usage := us\<rparr>)) (acquireProperBowl (bowls_usage s)))
      | BowlPost \<Rightarrow> Some (Some (at m WakeTrainer, s\<lparr>bowlCheckingMutex := bowlCheckingMutex s + 1\<rparr>))
      | WakeTrainer \<Rightarrow> Some (Some (at m FeedWait, s\<lparr>bowls_empty := bowls_empty s + 1\<rparr>))
      | FeedWait \<Rightarrow>
          (case arr_get (bowls_detail s) (mk_bowl m) of
             None \<Rightarrow> Some None
           | Some d \<Rightarrow> if d = 0 then None
               else Some (map_option (\<lambda>ds. (at m ReleaseWait, s\<lparr>bowls_detail := ds\<rparr>)) (arr_set (bowls_detail s) (mk_bowl m) (d - 1))))
      | ReleaseWait \<Rightarrow>
          if bowlCheckingMutex s = 0 then None
          else Some (Some (at m ReleaseUsage, s\<lparr>bowlCheckingMutex := bowlCheckingMutex s - 1\<rparr>))
      | ReleaseUsage \<Rightarrow>
          Some (map_option (\<lambda>us. (at m ReleasePost, s\<lparr>bowls_usage := us\<rparr>)) (releaseBowl (mk_bowl m) (bowls_usage s)))
      | ReleasePost \<Rightarrow> Some (Some (at m FullPost, s\<lparr>bowlCheckingMutex := bowlCheckingMutex s + 1\<rparr>))
      | FullPost \<Rightarrow> Some (Some (at m EatBananas, s\<lparr>bowls_full := bowls_full s + 1\<rparr>))
      | EatBananas \<Rightarrow> Some (Some (at m CountWait, s))
      | EatApples \<Rightarrow> Some (Some (at m CountWait, s))
      | CountWait \<Rightarrow>
          if counterMutex s = 0 then None
          else Some (Some (at m CountAdd, s\<lparr>counterMutex := counterMutex s - 1\<rparr>))
      | CountAdd \<Rightarrow> Some (Some (at m CountOut, s\<lparr>trainingCounter := trainingCounter s + 1\<rparr>))
      | CountOut \<Rightarrow> Some (Some (at (m\<lparr>mk_current := trainingCounter s\<rparr>) CountPost, s))
      | CountPost \<Rightarrow> Some (Some (at m CountCheck, s\<lparr>counterMutex := counterMutex s + 1\<rparr>))
      | CountCheck \<Rightarrow> Some (Some (at m Gone, if mk_current m = TARGET_TRAINING then s\<lparr>finished := True\<rparr> else s))
      | Gone \<Rightarrow> None)"

section \<open>The trainer\<close>

definition trainerSimulatorThread :: "training \<Rightarrow> training option option" where
  "trainerSimulatorThread s =
     (case trainer_at s of
        GetEmpty \<Rightarrow> Some (Some (s\<lparr>trainer_at := EmptyWait\<rparr>))
      | EmptyWait \<Rightarrow>
          if bowls_empty s = 0 then None
          else Some (Some (s\<lparr>bowls_empty := bowls_empty s - 1, trainer_at := SeeFirst\<rparr>))
      | SeeFirst \<Rightarrow>
          Some (map_option (\<lambda>u. s\<lparr>trainer_at := if u = 1 then FeedFirst else SeeSecond\<rparr>) (arr_get (bowls_usage s) 0))
      | FeedFirst \<Rightarrow>
          Some (do {
            d \<leftarrow> arr_get (bowls_detail s) 0;
            ds \<leftarrow> arr_set (bowls_detail s) 0 (d + 1);
            Some (s\<lparr>bowls_detail := ds, trainer_at := GetEmpty\<rparr>)
          })
      | SeeSecond \<Rightarrow>
          Some (map_option (\<lambda>u. s\<lparr>trainer_at := if u = 1 then FeedSecond else GetEmpty\<rparr>) (arr_get (bowls_usage s) 1))
      | FeedSecond \<Rightarrow>
          Some (do {
            d \<leftarrow> arr_get (bowls_detail s) 1;
            ds \<leftarrow> arr_set (bowls_detail s) 1 (d + 1);
            Some (s\<lparr>bowls_detail := ds, trainer_at := GetEmpty\<rparr>)
          }))"

section \<open>Creating monkeys\<close>

text \<open>The loop draws numbers until one is not excluded; the list holds what \<open>rand\<close> returns.\<close>

fun draw :: "nat list \<Rightarrow> int \<Rightarrow> int \<Rightarrow> int option" where
  "draw [] bound excluded = None"
| "draw (r # rs) bound excluded =
     (if excluded = - 1 \<or> int r mod bound \<noteq> excluded then Some (int r mod bound) else draw rs bound excluded)"

definition spawnMonkeyThread :: "nat list \<Rightarrow> nat list \<Rightarrow> nat list \<Rightarrow> int \<Rightarrow> monkey option" where
  "spawnMonkeyThread rs1 rs2 rs3 ident = do {
     firstball \<leftarrow> draw rs1 4 (- 1);
     secondball \<leftarrow> draw rs2 4 firstball;
     t \<leftarrow> draw rs3 2500 (- 1);
     Some \<lparr>mk_id = ident, mk_first = firstball, mk_second = secondball, mk_time = 1000 + t, mk_b1 = 0, mk_b2 = 0,
       mk_bowl = 0, mk_current = 0, mk_pc = NewMonkey\<rparr>
   }"

definition training_main :: "nat list \<Rightarrow> nat list \<Rightarrow> nat list \<Rightarrow> training \<Rightarrow> training option" where
  "training_main rs1 rs2 rs3 s =
     (case main_at s of
        MainWait \<Rightarrow> if maxMonkeys s = 0 then None else Some (s\<lparr>maxMonkeys := maxMonkeys s - 1, main_at := IdWait\<rparr>)
      | IdWait \<Rightarrow> if counterMutex s = 0 then None else Some (s\<lparr>counterMutex := counterMutex s - 1, main_at := IdAdd\<rparr>)
      | IdAdd \<Rightarrow> Some (s\<lparr>identity := identity s + 1, main_at := IdOut\<rparr>)
      | IdOut \<Rightarrow> Some (s\<lparr>main_id := identity s, main_at := IdPost\<rparr>)
      | IdPost \<Rightarrow> Some (s\<lparr>counterMutex := counterMutex s + 1, main_at := Spawn\<rparr>)
      | Spawn \<Rightarrow> map_option (\<lambda>m. s\<lparr>monkeys := monkeys s @ [m], main_at := MainWait\<rparr>) (spawnMonkeyThread rs1 rs2 rs3 (main_id s)))"

datatype actor = MonkeyTurn nat | TrainerTurn | MainTurn "nat list" "nat list" "nat list"

text \<open>A step of the program, whose state is \<open>None\<close> after undefined behaviour. Nothing moves after \<open>exit\<close>.\<close>

fun training_step :: "actor \<Rightarrow> training option \<Rightarrow> training option option" where
  "training_step a None = None"
| "training_step a (Some s) =
     (if finished s then None
      else case a of
        MonkeyTurn k \<Rightarrow>
          if k < length (monkeys s) then
            map_option (map_option (\<lambda>(m, s). s\<lparr>monkeys := (monkeys s)[k := m]\<rparr>)) (monkeySimulatorThread (monkeys s ! k) s)
          else None
      | TrainerTurn \<Rightarrow> trainerSimulatorThread s
      | MainTurn rs1 rs2 rs3 \<Rightarrow> map_option Some (training_main rs1 rs2 rs3 s))"

definition training_reachable :: "training option \<Rightarrow> bool" where
  "training_reachable = reachable (\<lambda>t. t = Some initSemaphore) (moves training_step)"


section \<open>The invariant\<close>

definition in_check :: "monkey \<Rightarrow> bool" where
  "in_check m \<longleftrightarrow> mk_pc m \<in> {GetFirst, GetSecond, Decide, PickFirst, PickSecond, CheckPost, CheckFail}"

definition holds :: "int \<Rightarrow> monkey \<Rightarrow> bool" where
  "holds c m \<longleftrightarrow> mk_first m = c \<and> mk_pc m \<in> {PickSecond, CheckPost, TakesFirst, TakesSecond}
     \<or> mk_second m = c \<and> mk_pc m \<in> {CheckPost, TakesFirst, TakesSecond, ReleaseSecond}"

definition in_usage :: "monkey \<Rightarrow> bool" where
  "in_usage m \<longleftrightarrow> mk_pc m \<in> {BowlPick, BowlPost, ReleaseUsage, ReleasePost}"

definition at_bowl :: "monkey \<Rightarrow> bool" where
  "at_bowl m \<longleftrightarrow> mk_pc m \<in> {BowlWait, BowlPick, BowlPost, WakeTrainer, FeedWait, ReleaseWait, ReleaseUsage, ReleasePost, FullPost}"

definition uses_bowl :: "int \<Rightarrow> monkey \<Rightarrow> bool" where
  "uses_bowl i m \<longleftrightarrow> mk_bowl m = i \<and> mk_pc m \<in> {BowlPost, WakeTrainer, FeedWait, ReleaseWait, ReleaseUsage}"

definition in_room :: "monkey \<Rightarrow> bool" where
  "in_room m \<longleftrightarrow> mk_pc m \<in> {NewMonkey, InsideRoom, CheckWait, GetFirst, GetSecond, Decide, PickFirst, PickSecond, CheckPost,
     CheckFail, TakesFirst, TakesSecond, ReleaseSecond, LeaveRoom}"

definition counting :: "monkey \<Rightarrow> bool" where
  "counting m \<longleftrightarrow> mk_pc m \<in> {CountAdd, CountOut, CountPost}"

lemmas region_defs = in_check_def holds_def in_usage_def at_bowl_def uses_bowl_def in_room_def counting_def

text \<open>What a monkey knows, with the balls \<open>B\<close>.\<close>

definition monkey_ok :: "(int \<Rightarrow> nat) \<Rightarrow> monkey \<Rightarrow> bool" where
  "monkey_ok B m \<longleftrightarrow>
     mk_first m \<in> {0..3} \<and> mk_second m \<in> {0..3} \<and> mk_first m \<noteq> mk_second m \<and>
     (mk_pc m \<in> {GetSecond, Decide} \<longrightarrow> mk_b1 m \<le> B (mk_first m)) \<and> (mk_pc m = Decide \<longrightarrow> mk_b2 m \<le> B (mk_second m)) \<and>
     (mk_pc m = PickFirst \<longrightarrow> 1 \<le> B (mk_first m)) \<and> (mk_pc m \<in> {PickFirst, PickSecond} \<longrightarrow> 1 \<le> B (mk_second m)) \<and>
     (mk_pc m \<in> {BowlPost, WakeTrainer, FeedWait, ReleaseWait, ReleaseUsage} \<longrightarrow> mk_bowl m \<in> {0, 1})"

definition training_inv :: "training \<Rightarrow> bool" where
  "training_inv s \<longleftrightarrow>
     length (balls s) = 4 \<and> length (bowls_detail s) = 2 \<and> length (bowls_usage s) = 2 \<and>
     (\<forall>m \<in> set (monkeys s). monkey_ok (view (balls s)) m) \<and>
     count_if in_check (monkeys s) + ballCheckingMutex s = 1 \<and>
     (\<forall>c \<in> {0..3}. count_if (holds c) (monkeys s) + view (balls s) c = 1) \<and>
     count_if in_usage (monkeys s) + bowlCheckingMutex s = 1 \<and>
     count_if at_bowl (monkeys s) + bowls_full s = 2 \<and>
     (\<forall>i \<in> {0, 1}. count_if (uses_bowl i) (monkeys s) = view (bowls_usage s) i \<and> view (bowls_usage s) i \<le> 1) \<and>
     count_if in_room (monkeys s) + maxMonkeys s + of_bool (main_at s \<noteq> MainWait) = 4 \<and>
     count_if counting (monkeys s) + counterMutex s + of_bool (main_at s \<in> {IdAdd, IdOut, IdPost}) = 1"

section \<open>Every step keeps the balance\<close>

text \<open>The steps of a monkey as a relation, steps of the same kind together.\<close>

inductive monkey_move :: "monkey \<Rightarrow> training \<Rightarrow> monkey \<Rightarrow> training \<Rightarrow> bool" where
  quiet: "(mk_pc m, l) \<in> {(NewMonkey, InsideRoom), (InsideRoom, CheckWait), (Decide, CheckFail), (TakesFirst, TakesSecond),
      (TryBowl, EatApples), (EatBananas, CountWait), (EatApples, CountWait)} \<Longrightarrow> monkey_move m s (at m l) s"
| check_lock: "mk_pc m = CheckWait \<Longrightarrow> ballCheckingMutex s = Suc n \<Longrightarrow> monkey_move m s (at m GetFirst) (s\<lparr>ballCheckingMutex := n\<rparr>)"
| get_first: "mk_pc m = GetFirst \<Longrightarrow> arr_get (balls s) (mk_first m) = Some b \<Longrightarrow> monkey_move m s (at (m\<lparr>mk_b1 := b\<rparr>) GetSecond) s"
| get_second: "mk_pc m = GetSecond \<Longrightarrow> arr_get (balls s) (mk_second m) = Some b \<Longrightarrow> monkey_move m s (at (m\<lparr>mk_b2 := b\<rparr>) Decide) s"
| decide: "mk_pc m = Decide \<Longrightarrow> mk_b1 m = 1 \<Longrightarrow> mk_b2 m = 1 \<Longrightarrow> monkey_move m s (at m PickFirst) s"
| pick_first: "mk_pc m = PickFirst \<Longrightarrow> arr_get (balls s) (mk_first m) = Some (Suc b) \<Longrightarrow> arr_set (balls s) (mk_first m) b = Some bs \<Longrightarrow>
    monkey_move m s (at m PickSecond) (s\<lparr>balls := bs\<rparr>)"
| pick_second: "mk_pc m = PickSecond \<Longrightarrow> arr_get (balls s) (mk_second m) = Some (Suc b) \<Longrightarrow> arr_set (balls s) (mk_second m) b = Some bs \<Longrightarrow>
    monkey_move m s (at m CheckPost) (s\<lparr>balls := bs\<rparr>)"
| check_post: "(mk_pc m, l) \<in> {(CheckPost, TakesFirst), (CheckFail, CheckWait)} \<Longrightarrow>
    monkey_move m s (at m l) (s\<lparr>ballCheckingMutex := Suc (ballCheckingMutex s)\<rparr>)"
| release_first: "mk_pc m = TakesSecond \<Longrightarrow> arr_get (balls s) (mk_first m) = Some b \<Longrightarrow> arr_set (balls s) (mk_first m) (Suc b) = Some bs \<Longrightarrow>
    monkey_move m s (at m ReleaseSecond) (s\<lparr>balls := bs\<rparr>)"
| release_second: "mk_pc m = ReleaseSecond \<Longrightarrow> arr_get (balls s) (mk_second m) = Some b \<Longrightarrow> arr_set (balls s) (mk_second m) (Suc b) = Some bs \<Longrightarrow>
    monkey_move m s (at m LeaveRoom) (s\<lparr>balls := bs\<rparr>)"
| leave: "mk_pc m = LeaveRoom \<Longrightarrow> monkey_move m s (at m TryBowl) (s\<lparr>maxMonkeys := Suc (maxMonkeys s)\<rparr>)"
| try_bowl: "mk_pc m = TryBowl \<Longrightarrow> bowls_full s = Suc n \<Longrightarrow> monkey_move m s (at m BowlWait) (s\<lparr>bowls_full := n\<rparr>)"
| bowl_lock: "(mk_pc m, l) \<in> {(BowlWait, BowlPick), (ReleaseWait, ReleaseUsage)} \<Longrightarrow> bowlCheckingMutex s = Suc n \<Longrightarrow>
    monkey_move m s (at m l) (s\<lparr>bowlCheckingMutex := n\<rparr>)"
| bowl_pick: "mk_pc m = BowlPick \<Longrightarrow> acquireProperBowl (bowls_usage s) = Some (b, us) \<Longrightarrow>
    monkey_move m s (at (m\<lparr>mk_bowl := b\<rparr>) BowlPost) (s\<lparr>bowls_usage := us\<rparr>)"
| bowl_post: "(mk_pc m, l) \<in> {(BowlPost, WakeTrainer), (ReleasePost, FullPost)} \<Longrightarrow>
    monkey_move m s (at m l) (s\<lparr>bowlCheckingMutex := Suc (bowlCheckingMutex s)\<rparr>)"
| wake: "mk_pc m = WakeTrainer \<Longrightarrow> monkey_move m s (at m FeedWait) (s\<lparr>bowls_empty := Suc (bowls_empty s)\<rparr>)"
| fed: "mk_pc m = FeedWait \<Longrightarrow> arr_set (bowls_detail s) (mk_bowl m) d = Some ds \<Longrightarrow> monkey_move m s (at m ReleaseWait) (s\<lparr>bowls_detail := ds\<rparr>)"
| release_usage: "mk_pc m = ReleaseUsage \<Longrightarrow> releaseBowl (mk_bowl m) (bowls_usage s) = Some us \<Longrightarrow>
    monkey_move m s (at m ReleasePost) (s\<lparr>bowls_usage := us\<rparr>)"
| full_post: "mk_pc m = FullPost \<Longrightarrow> monkey_move m s (at m EatBananas) (s\<lparr>bowls_full := Suc (bowls_full s)\<rparr>)"
| count_lock: "mk_pc m = CountWait \<Longrightarrow> counterMutex s = Suc n \<Longrightarrow> monkey_move m s (at m CountAdd) (s\<lparr>counterMutex := n\<rparr>)"
| count_add: "mk_pc m = CountAdd \<Longrightarrow> monkey_move m s (at m CountOut) (s\<lparr>trainingCounter := trainingCounter s + 1\<rparr>)"
| count_out: "mk_pc m = CountOut \<Longrightarrow> monkey_move m s (at (m\<lparr>mk_current := trainingCounter s\<rparr>) CountPost) s"
| count_post: "mk_pc m = CountPost \<Longrightarrow> monkey_move m s (at m CountCheck) (s\<lparr>counterMutex := Suc (counterMutex s)\<rparr>)"
| count_check: "mk_pc m = CountCheck \<Longrightarrow> monkey_move m s (at m Gone) (s\<lparr>finished := b\<rparr>)"

lemma monkey_step_moves:
  assumes "monkeySimulatorThread m s = Some (Some (m', s'))"
  shows "monkey_move m s m' s'"
proof (cases "mk_pc m")
  case CountCheck
  with assms show ?thesis
    using monkey_move.count_check [of m s True] monkey_move.count_check [of m s "finished s"]
    by (simp add: monkeySimulatorThread_def split: if_splits)
next
  case PickFirst
  with assms show ?thesis
    by (auto simp: monkeySimulatorThread_def gr0_conv_Suc intro: monkey_move.intros split: option.splits if_splits)
next
  case PickSecond
  with assms show ?thesis
    by (auto simp: monkeySimulatorThread_def gr0_conv_Suc intro: monkey_move.intros split: option.splits if_splits)
qed (use assms in \<open>auto simp: monkeySimulatorThread_def gr0_conv_Suc intro: monkey_move.intros split: option.splits if_splits bind_splits\<close>)


lemma step_frame:
  assumes "monkey_move m s m' s'"
  shows "monkeys s' = monkeys s" "trainer_at s' = trainer_at s" "main_at s' = main_at s" "mk_first m' = mk_first m" "mk_second m' = mk_second m"
    "length (balls s') = length (balls s)" "length (bowls_detail s') = length (bowls_detail s)" "length (bowls_usage s') = length (bowls_usage s)"
  using assms
  by (cases; auto simp: acquireProperBowl_def releaseBowl_def dest!: arr_set_SomeD split: if_splits bind_splits)+

lemma step_check:
  assumes "monkey_move m s m' s'"
  shows "of_bool (in_check m') + ballCheckingMutex s' = of_bool (in_check m) + ballCheckingMutex s"
  using assms by (cases; (elim insertE emptyE)?; simp add: in_check_def)

lemma step_usage:
  assumes "monkey_move m s m' s'"
  shows "of_bool (in_usage m') + bowlCheckingMutex s' = of_bool (in_usage m) + bowlCheckingMutex s"
  using assms by (cases; (elim insertE emptyE)?; simp add: in_usage_def)

lemma step_full:
  assumes "monkey_move m s m' s'"
  shows "of_bool (at_bowl m') + bowls_full s' = of_bool (at_bowl m) + bowls_full s"
  using assms by (cases; (elim insertE emptyE)?; simp add: at_bowl_def)

lemma step_room:
  assumes "monkey_move m s m' s'"
  shows "of_bool (in_room m') + maxMonkeys s' = of_bool (in_room m) + maxMonkeys s"
  using assms by (cases; (elim insertE emptyE)?; simp add: in_room_def)

lemma step_count:
  assumes "monkey_move m s m' s'"
  shows "of_bool (counting m') + counterMutex s' = of_bool (counting m) + counterMutex s"
  using assms by (cases; (elim insertE emptyE)?; simp add: counting_def)

lemmas step_locks = step_check step_usage step_full step_room step_count

lemma step_balls:
  assumes "monkey_move m s m' s'" "mk_first m \<noteq> mk_second m"
  shows "of_bool (holds c m') + view (balls s') c = of_bool (holds c m) + view (balls s) c"
  using assms by cases (auto simp: holds_def view_set view_get)

lemma step_bowls:
  assumes "monkey_move m s m' s'" "mk_pc m = ReleaseUsage \<longrightarrow> view (bowls_usage s) (mk_bowl m) = 1" "i \<in> {0, 1}"
  shows "of_bool (uses_bowl i m') + view (bowls_usage s) i = of_bool (uses_bowl i m) + view (bowls_usage s') i"
  using assms
  by cases (auto simp: uses_bowl_def acquireProperBowl_def releaseBowl_def view_set view_get split: if_splits bind_splits)


section \<open>The monkeys keep the invariant\<close>

lemma count_if_disjoint:
  assumes "\<And>m. \<not> (P m \<and> Q m)" "\<And>m. P m \<or> Q m \<Longrightarrow> R m"
  shows "count_if P xs + count_if Q xs \<le> count_if R xs"
proof (induction xs)
  case (Cons x xs)
  have "of_bool (P x) + of_bool (Q x) \<le> (of_bool (R x) :: nat)" using assms by auto
  with Cons show ?case by simp
qed simp

lemma balls_mono: "monkey_move m s m' s' \<Longrightarrow> mk_pc m \<notin> {PickFirst, PickSecond} \<Longrightarrow> view (balls s) c \<le> view (balls s') c"
  by (cases rule: monkey_move.cases, assumption; simp add: view_set view_get)

lemma monkey_ok_mono:
  "monkey_ok B m \<Longrightarrow> (in_check m \<Longrightarrow> B (mk_first m) \<le> B' (mk_first m) \<and> B (mk_second m) \<le> B' (mk_second m)) \<Longrightarrow> monkey_ok B' m"
  unfolding monkey_ok_def in_check_def by fastforce

lemma acquire_ok:
  "acquireProperBowl us = Some (b, us') \<Longrightarrow> view us 0 = 0 \<or> view us 1 = 0 \<Longrightarrow> b \<in> {0, 1}"
  by (auto simp: acquireProperBowl_def view_get split: bind_splits if_splits)

lemma step_ok:
  assumes "monkey_move m s m' s'" and ok: "monkey_ok (view (balls s)) m"
    and bowl: "mk_pc m = BowlPick \<Longrightarrow> view (bowls_usage s) 0 = 0 \<or> view (bowls_usage s) 1 = 0"
  shows "monkey_ok (view (balls s')) m'"
  using assms(1)
proof cases
  case (bowl_pick b us)
  with ok bowl acquire_ok [OF bowl_pick(4)] show ?thesis by (simp add: monkey_ok_def)
next
  case (quiet l)
  with ok show ?thesis by (elim insertE emptyE; simp add: monkey_ok_def)
next
  case (check_post l)
  with ok show ?thesis by (elim insertE emptyE; simp add: monkey_ok_def)
next
  case (bowl_lock l n)
  with ok show ?thesis by (elim insertE emptyE; simp add: monkey_ok_def)
next
  case (bowl_post l)
  with ok show ?thesis by (elim insertE emptyE; simp add: monkey_ok_def)
qed (use ok in \<open>simp_all add: monkey_ok_def view_set view_get\<close>)


lemma usage_small:
  "acquireProperBowl us = Some (b, us') \<Longrightarrow> view us i \<le> 1 \<Longrightarrow> view us' i \<le> 1"
  "releaseBowl j us = Some us' \<Longrightarrow> view us i \<le> 1 \<Longrightarrow> view us' i \<le> 1"
  by (auto simp: acquireProperBowl_def releaseBowl_def view_set split: bind_splits if_splits)

lemma bowls_disjoint: "count_if (uses_bowl 0) xs + count_if (uses_bowl 1) xs \<le> count_if (\<lambda>m. uses_bowl 0 m \<or> uses_bowl 1 m) xs"
  by (rule count_if_disjoint) (auto simp: uses_bowl_def)

lemma free_bowl:
  assumes inv: "training_inv s" and k: "k < length (monkeys s)" "mk_pc (monkeys s ! k) = BowlPick"
  shows "view (bowls_usage s) 0 = 0 \<or> view (bowls_usage s) 1 = 0"
proof -
  let ?used = "\<lambda>m. uses_bowl 0 m \<or> uses_bowl 1 m" and ?pick = "\<lambda>m. mk_pc m = BowlPick"
  have "count_if ?used (monkeys s) + count_if ?pick (monkeys s) \<le> count_if at_bowl (monkeys s)"
    by (rule count_if_disjoint) (auto simp: uses_bowl_def at_bowl_def)
  moreover have "0 < count_if ?pick (monkeys s)" using count_if_pos [OF k(1), of ?pick] k(2) by simp
  moreover have "count_if at_bowl (monkeys s) \<le> 2" "count_if (uses_bowl 0) (monkeys s) = view (bowls_usage s) 0"
    "count_if (uses_bowl 1) (monkeys s) = view (bowls_usage s) 1" using inv by (simp_all add: training_inv_def)
  ultimately show ?thesis using bowls_disjoint [of "monkeys s"] by linarith
qed

lemma used_bowl:
  assumes inv: "training_inv s" and k: "k < length (monkeys s)" "uses_bowl i (monkeys s ! k)" "i \<in> {0, 1}"
  shows "view (bowls_usage s) i = 1"
proof -
  have "0 < count_if (uses_bowl i) (monkeys s)" using k by (simp add: count_if_pos)
  moreover have "count_if (uses_bowl i) (monkeys s) = view (bowls_usage s) i \<and> view (bowls_usage s) i \<le> 1"
    using inv k(3) unfolding training_inv_def by blast
  ultimately show ?thesis by simp
qed

lemma one_checks:
  assumes inv: "training_inv s" and "i < length (monkeys s)" "j < length (monkeys s)" "in_check (monkeys s ! i)" "in_check (monkeys s ! j)"
  shows "i = j"
proof (rule ccontr)
  assume "i \<noteq> j"
  with count_if_two [of i "monkeys s" j in_check] assms have "2 \<le> count_if in_check (monkeys s)" by blast
  with inv show False by (simp add: training_inv_def)
qed

lemma inv_monkey:
  assumes inv: "training_inv s" and k: "k < length (monkeys s)" and move: "monkey_move (monkeys s ! k) s m' s'"
  shows "training_inv (s'\<lparr>monkeys := (monkeys s')[k := m']\<rparr>)"
proof -
  let ?m = "monkeys s ! k" and ?ms = "(monkeys s)[k := m']"
  have frame: "monkeys s' = monkeys s" "main_at s' = main_at s" "length (balls s') = 4" "length (bowls_detail s') = 2" "length (bowls_usage s') = 2"
    using step_frame [OF move] inv by (simp_all add: training_inv_def)
  have okm: "monkey_ok (view (balls s)) ?m" using inv k by (simp add: training_inv_def)
  have diff: "mk_first ?m \<noteq> mk_second ?m" using okm by (simp add: monkey_ok_def)
  have upd: "count_if P ?ms + of_bool (P ?m) = count_if P (monkeys s) + of_bool (P m')" for P by (rule count_if_update [OF k])
  have bal: "count_if P ?ms + g' = n" if "of_bool (P m') + g' = of_bool (P ?m) + g" "count_if P (monkeys s) + g = n" for P g g' n
    using upd [of P] that by linarith
  have locks: "count_if in_check ?ms + ballCheckingMutex s' = 1" "count_if in_usage ?ms + bowlCheckingMutex s' = 1"
    "count_if at_bowl ?ms + bowls_full s' = 2"
    using bal [OF step_check [OF move], of 1] bal [OF step_usage [OF move], of 1] bal [OF step_full [OF move], of 2] inv
    by (simp_all add: training_inv_def)
  have rooms: "count_if in_room ?ms + maxMonkeys s' + of_bool (main_at s' \<noteq> MainWait) = 4"
    "count_if counting ?ms + counterMutex s' + of_bool (main_at s' \<in> {IdAdd, IdOut, IdPost}) = 1"
    using bal [OF step_room [OF move], of "4 - of_bool (main_at s \<noteq> MainWait)"]
      bal [OF step_count [OF move], of "1 - of_bool (main_at s \<in> {IdAdd, IdOut, IdPost})"] inv frame(2)
    by (auto simp: training_inv_def split: if_splits)
  have balls: "count_if (holds c) ?ms + view (balls s') c = 1" if "c \<in> {0..3}" for c
  proof (rule bal [OF step_balls [OF move diff]])
    show "count_if (holds c) (monkeys s) + view (balls s) c = 1" using inv that unfolding training_inv_def by blast
  qed
  have "mk_pc ?m = ReleaseUsage \<longrightarrow> view (bowls_usage s) (mk_bowl ?m) = 1"
  proof
    assume pc: "mk_pc ?m = ReleaseUsage"
    with okm have "mk_bowl ?m \<in> {0, 1}" by (simp add: monkey_ok_def)
    with used_bowl [OF inv k, of "mk_bowl ?m"] pc show "view (bowls_usage s) (mk_bowl ?m) = 1" by (simp add: uses_bowl_def)
  qed
  note bowls = step_bowls [OF move this]
  have usage: "count_if (uses_bowl i) ?ms = view (bowls_usage s') i" if "i \<in> {0, 1}" for i
    using upd [of "uses_bowl i"] bowls [OF that] inv that unfolding training_inv_def by fastforce
  have "view (bowls_usage s') i \<le> 1" if "i \<in> {0, 1}" for i
  proof -
    have old: "view (bowls_usage s) i \<le> 1" using inv that unfolding training_inv_def by blast
    from move show ?thesis
      by cases (use old in \<open>simp_all add: usage_small(1) [OF _ old] usage_small(2) [OF _ old] del: One_nat_def\<close>)
  qed
  moreover have "monkey_ok (view (balls s')) m" if "m \<in> set ?ms" for m
  proof -
    from that obtain j where j: "j < length (monkeys s)" "m = ?ms ! j" by (auto simp: in_set_conv_nth)
    show ?thesis
    proof (cases "j = k")
      case True
      with j k step_ok [OF move okm free_bowl [OF inv k]] show ?thesis by simp
    next
      case False
      have old: "monkey_ok (view (balls s)) (monkeys s ! j)" using inv j(1) by (simp add: training_inv_def)
      have "view (balls s) c \<le> view (balls s') c" if "in_check (monkeys s ! j)" for c
      proof (rule balls_mono [OF move])
        show "mk_pc ?m \<notin> {PickFirst, PickSecond}" using one_checks [OF inv k j(1)] that False by (auto simp: in_check_def)
      qed
      with monkey_ok_mono [OF old] j False show ?thesis by simp
    qed
  qed
  ultimately show ?thesis using frame locks rooms balls usage by (simp add: training_inv_def)
qed


section \<open>The trainer and the main thread keep the invariant\<close>

text \<open>The trainer writes neither the monkeys nor what the balance counts.\<close>

abbreviation trained :: "training \<Rightarrow> nat list \<Rightarrow> nat \<Rightarrow> trainer_pc \<Rightarrow> training" where
  "trained s ds n l \<equiv> s\<lparr>bowls_detail := ds, bowls_empty := n, trainer_at := l\<rparr>"

lemma inv_trained: "training_inv s \<Longrightarrow> length ds = length (bowls_detail s) \<Longrightarrow> training_inv (trained s ds n l)"
  by (simp add: training_inv_def)

lemma trainer_frame:
  assumes "trainerSimulatorThread s = Some (Some s')"
  obtains ds n l where "s' = trained s ds n l" "length ds = length (bowls_detail s)"
proof (cases "trainer_at s")
  case GetEmpty
  with assms have "s' = trained s (bowls_detail s) (bowls_empty s) EmptyWait" by (simp add: trainerSimulatorThread_def)
  then show ?thesis by (rule that) simp
next
  case EmptyWait
  with assms have "s' = trained s (bowls_detail s) (bowls_empty s - 1) SeeFirst"
    by (simp add: trainerSimulatorThread_def split: if_splits)
  then show ?thesis by (rule that) simp
next
  case SeeFirst
  with assms obtain l where "s' = trained s (bowls_detail s) (bowls_empty s) l" by (auto simp: trainerSimulatorThread_def)
  then show ?thesis by (rule that) simp
next
  case SeeSecond
  with assms obtain l where "s' = trained s (bowls_detail s) (bowls_empty s) l" by (auto simp: trainerSimulatorThread_def)
  then show ?thesis by (rule that) simp
next
  case FeedFirst
  with assms obtain d ds where ds: "arr_set (bowls_detail s) 0 d = Some ds" "s' = trained s ds (bowls_empty s) GetEmpty"
    by (auto simp: trainerSimulatorThread_def split: bind_splits)
  with arr_set_SomeD [OF ds(1)] show ?thesis by (intro that [OF ds(2)]) simp
next
  case FeedSecond
  with assms obtain d ds where ds: "arr_set (bowls_detail s) 1 d = Some ds" "s' = trained s ds (bowls_empty s) GetEmpty"
    by (auto simp: trainerSimulatorThread_def split: bind_splits)
  with arr_set_SomeD [OF ds(1)] show ?thesis by (intro that [OF ds(2)]) simp
qed

lemma inv_trainer: "training_inv s \<Longrightarrow> trainerSimulatorThread s = Some (Some s') \<Longrightarrow> training_inv s'"
  by (erule trainer_frame) (simp add: inv_trained)

lemma draw_range: "draw rs bound excluded = Some v \<Longrightarrow> 0 < bound \<Longrightarrow> 0 \<le> v \<and> v < bound \<and> (excluded = - 1 \<or> v \<noteq> excluded)"
  by (induction rs bound excluded rule: draw.induct) (auto split: if_splits)

lemma spawned:
  assumes "spawnMonkeyThread rs1 rs2 rs3 n = Some m"
  shows "monkey_ok B m \<and> mk_pc m = NewMonkey"
proof -
  from assms obtain f g where "draw rs1 4 (- 1) = Some f" "draw rs2 4 f = Some g" and m: "mk_first m = f" "mk_second m = g" "mk_pc m = NewMonkey"
    by (auto simp: spawnMonkeyThread_def split: bind_splits)
  with draw_range [of rs1 4 "- 1" f] draw_range [of rs2 4 f g] show ?thesis by (auto simp: monkey_ok_def)
qed

lemma inv_main:
  assumes inv: "training_inv s" and step: "training_main rs1 rs2 rs3 s = Some s'"
  shows "training_inv s'"
proof (cases "main_at s")
  case Spawn
  with step obtain m where m: "spawnMonkeyThread rs1 rs2 rs3 (main_id s) = Some m" "s' = s\<lparr>monkeys := monkeys s @ [m], main_at := MainWait\<rparr>"
    by (auto simp: training_main_def)
  from spawned [OF m(1)] m(2) inv Spawn show ?thesis by (simp add: training_inv_def region_defs)
next
  case MainWait
  with step obtain n where "maxMonkeys s = Suc n" "s' = s\<lparr>maxMonkeys := n, main_at := IdWait\<rparr>"
    by (auto simp: training_main_def gr0_conv_Suc split: if_splits)
  with inv MainWait show ?thesis by (simp add: training_inv_def)
next
  case IdWait
  with step obtain n where "counterMutex s = Suc n" "s' = s\<lparr>counterMutex := n, main_at := IdAdd\<rparr>"
    by (auto simp: training_main_def gr0_conv_Suc split: if_splits)
  with inv IdWait show ?thesis by (simp add: training_inv_def)
next
  case IdAdd
  with step have "s' = s\<lparr>identity := identity s + 1, main_at := IdOut\<rparr>" by (simp add: training_main_def)
  with inv IdAdd show ?thesis by (simp add: training_inv_def)
next
  case IdOut
  with step have "s' = s\<lparr>main_id := identity s, main_at := IdPost\<rparr>" by (simp add: training_main_def)
  with inv IdOut show ?thesis by (simp add: training_inv_def)
next
  case IdPost
  with step have "s' = s\<lparr>counterMutex := counterMutex s + 1, main_at := Spawn\<rparr>" by (simp add: training_main_def)
  with inv IdPost show ?thesis by (simp add: training_inv_def)
qed

lemma monkey_defined:
  assumes inv: "training_inv s" and k: "k < length (monkeys s)"
  shows "monkeySimulatorThread (monkeys s ! k) s \<noteq> Some None"
proof -
  let ?m = "monkeys s ! k"
  have "monkey_ok (view (balls s)) ?m" using inv k by (simp add: training_inv_def)
  with inv show ?thesis
    by (cases "mk_pc ?m")
      (auto simp: monkeySimulatorThread_def training_inv_def monkey_ok_def acquireProperBowl_def releaseBowl_def split: option.splits if_splits)
qed

lemma trainer_defined: "training_inv s \<Longrightarrow> trainerSimulatorThread s \<noteq> Some None"
  by (cases "trainer_at s") (auto simp: trainerSimulatorThread_def training_inv_def)

definition training_ok :: "training option \<Rightarrow> bool" where
  "training_ok t = (case t of None \<Rightarrow> False | Some s \<Rightarrow> training_inv s)"

interpretation training: inductive_invariant "\<lambda>t. t = Some initSemaphore" "moves training_step" training_ok
proof
  fix t
  assume "t = Some initSemaphore"
  moreover have "view [1, 1, 1, Suc 0] c = 1" if "c \<in> {0..3}" for c
  proof -
    have "c = 0 \<or> c = 1 \<or> c = 2 \<or> c = 3" using that by auto
    then show ?thesis by (auto simp: view_def)
  qed
  ultimately show "training_ok t"
    by (simp add: training_ok_def training_inv_def initSemaphore_def MAX_MONKEYS_def view_def)
next
  fix t t'
  assume "moves training_step t t'" and ok: "training_ok t"
  then obtain s a where s: "t = Some s" "training_inv s" "training_step a (Some s) = Some t'"
    by (auto simp: moves_def training_ok_def split: option.splits)
  then have run: "\<not> finished s" by (auto split: if_splits)
  show "training_ok t'"
  proof (cases a)
    case (MonkeyTurn k)
    with s run obtain r where k: "k < length (monkeys s)" and r: "monkeySimulatorThread (monkeys s ! k) s = Some r"
      "t' = map_option (\<lambda>(m, s). s\<lparr>monkeys := (monkeys s)[k := m]\<rparr>) r" by (auto split: if_splits)
    with monkey_defined [OF s(2) k] obtain m' s' where ms: "r = Some (m', s')" by (cases r) auto
    with r monkey_step_moves have "monkey_move (monkeys s ! k) s m' s'" by blast
    from inv_monkey [OF s(2) k this] r(2) ms show ?thesis by (simp add: training_ok_def)
  next
    case TrainerTurn
    with s run have r: "trainerSimulatorThread s = Some t'" by simp
    with trainer_defined [OF s(2)] obtain s' where "t' = Some s'" by (cases t') auto
    with r inv_trainer [OF s(2)] show ?thesis by (simp add: training_ok_def)
  next
    case (MainTurn rs1 rs2 rs3)
    with s run obtain s' where "training_main rs1 rs2 rs3 s = Some s'" "t' = Some s'" by auto
    with inv_main [OF s(2)] show ?thesis by (simp add: training_ok_def)
  qed
qed




section \<open>A lost banana\<close>

text \<open>The trainer does not know who woke it: it looks at the first bowl first.\<close>

definition lost_feed :: "actor list" where
  "lost_feed =
     replicate 5 (MainTurn [] [] []) @ MainTurn [0] [1] [0] # replicate 18 (MonkeyTurn 0) @
     replicate 5 (MainTurn [] [] []) @ MainTurn [2] [3] [0] # replicate 18 (MonkeyTurn 1) @
     replicate 9 TrainerTurn @ replicate 11 (MonkeyTurn 0)"

definition starved :: "training option option \<Rightarrow> bool" where
  "starved r = (case r of Some (Some s) \<Rightarrow>
       bowls_empty s = 0 \<and> trainerSimulatorThread s = None \<and> map mk_pc (monkeys s) = [Gone, FeedWait] \<and>
       map mk_bowl (monkeys s) = [0, 1] \<and> bowls_detail s = [1, 0] | _ \<Rightarrow> False)"

lemma lost_feed_runs: "starved (run_schedule training_step lost_feed (Some initSemaphore))"
  by code_simp

text \<open>Two monkeys wait for bananas; the trainer, woken twice, feeds the first bowl both times when the first monkey
  has not yet released it. In the state reached then the second monkey waits at the second bowl, which is empty, the
  trainer sleeps with nobody left to wake it, and a banana that nobody eats lies in the first bowl.\<close>

lemma monkeys_lost_feed:
  "\<exists>s. training_reachable (Some s) \<and> trainerSimulatorThread s = None \<and> length (monkeys s) = 2 \<and>
     mk_pc (monkeys s ! 0) = Gone \<and> mk_pc (monkeys s ! 1) = FeedWait \<and> monkeySimulatorThread (monkeys s ! 1) s = None \<and>
     bowls_detail s = [1, 0]"
proof -
  obtain s where run: "run_schedule training_step lost_feed (Some initSemaphore) = Some (Some s)" and s: "starved (Some (Some s))"
    using lost_feed_runs by (auto simp: starved_def split: option.splits)
  have "training_reachable (Some initSemaphore)" unfolding training_reachable_def by (rule reach_start) simp
  with run_schedule_reachable [OF _ run] have "training_reachable (Some s)" unfolding training_reachable_def .
  moreover have "mk_pc (monkeys s ! 0) = Gone" "mk_pc (monkeys s ! 1) = FeedWait" "mk_bowl (monkeys s ! 1) = 1" "length (monkeys s) = 2"
    using s by (auto simp: starved_def)
  moreover have "monkeySimulatorThread (monkeys s ! 1) s = None"
    using s calculation by (simp add: starved_def monkeySimulatorThread_def)
  ultimately show ?thesis using s by (auto simp: starved_def)
qed

end
