(* ===== verification/LinkedListDriver.thy ===== *)
theory LinkedListDriver
  imports Prelude
begin

text \<open>
  \<open>src/project5/task1/linkedlist_skel.c\<close>, a character device that keeps a singly linked list of digits: a write
  inserts a value behind a random node, a read asks for a value and removes its first node, closing the
  device frees the list. \<open>src/project5/task1/reader_writer_skel.c\<close> are its ten writers and ten readers. Nodes live in a
  heap; a dereference of a null or freed pointer and a lock that is held have no result. The random
  number is an argument, and \<open>kzalloc\<close> succeeds (the code does not check it). The theorems: the
  driver refines operations on a list without leaking a node, and what the readers got and what is left is what
  the writers wrote.
\<close>

section \<open>State\<close>

type_synonym sll_ptr = nat

record sll =
  sll_next :: sll_ptr
  sll_v :: int

record sll_state =
  sll_heap :: "sll_ptr \<rightharpoonup> sll"
  sll_head :: sll_ptr
  sll_size :: "32 word"
  sll_sem :: nat
  sll_fresh :: sll_ptr

definition sll_down :: "sll_state \<Rightarrow> sll_state option" where
  "sll_down s = (if sll_sem s = 0 then None else Some (s\<lparr>sll_sem := sll_sem s - 1\<rparr>))"

definition sll_up :: "sll_state \<Rightarrow> sll_state" where
  "sll_up s = s\<lparr>sll_sem := sll_sem s + 1\<rparr>"

definition sll_kzalloc :: "sll_state \<Rightarrow> sll_ptr \<times> sll_state" where
  "sll_kzalloc s =
     (sll_fresh s, s\<lparr>sll_heap := (sll_heap s)(sll_fresh s \<mapsto> \<lparr>sll_next = 0, sll_v = 0\<rparr>), sll_fresh := sll_fresh s + 1\<rparr>)"

definition sll_kfree :: "sll_ptr \<Rightarrow> sll_state \<Rightarrow> sll_state option" where
  "sll_kfree p s = (if sll_heap s p = None then None else Some (s\<lparr>sll_heap := (sll_heap s)(p := None)\<rparr>))"

definition sll_upd :: "sll_ptr \<Rightarrow> (sll \<Rightarrow> sll) \<Rightarrow> sll_state \<Rightarrow> sll_state option" where
  "sll_upd p f s = map_option (\<lambda>n. s\<lparr>sll_heap := (sll_heap s)(p \<mapsto> f n)\<rparr>) (sll_heap s p)"

section \<open>Operations on the list\<close>

text \<open>The loop \<open>while(pos--) cur = cur->next\<close>.\<close>

fun move_ahead :: "nat \<Rightarrow> sll_ptr \<Rightarrow> sll_state \<Rightarrow> sll_ptr option" where
  "move_ahead 0 cur s = Some cur"
| "move_ahead (Suc k) cur s = do { n \<leftarrow> sll_heap s cur; move_ahead k (sll_next n) s }"

definition allocLinkedListRandomly :: "32 word \<Rightarrow> int \<Rightarrow> sll_state \<Rightarrow> sll_state option" where
  "allocLinkedListRandomly rnd v s = do {
     s \<leftarrow> sll_down s;
     s \<leftarrow> (if sll_head s = 0 then
             (let (p, s) = sll_kzalloc s in sll_upd p (\<lambda>n. n\<lparr>sll_v := v\<rparr>) (s\<lparr>sll_head := p\<rparr>))
           else if sll_size s = 0 then None
           else do {
             cur \<leftarrow> move_ahead (unat (rnd mod sll_size s)) (sll_head s) s;
             cn \<leftarrow> sll_heap s cur;
             let temp = sll_next cn;
             let (p, s) = sll_kzalloc s;
             s \<leftarrow> sll_upd cur (\<lambda>n. n\<lparr>sll_next := p\<rparr>) s;
             s \<leftarrow> sll_upd p (\<lambda>n. n\<lparr>sll_v := v\<rparr>) s;
             sll_upd p (\<lambda>n. n\<lparr>sll_next := temp\<rparr>) s
           });
     Some (sll_up (s\<lparr>sll_size := sll_size s + 1\<rparr>))
   }"

text \<open>The search loop: whether a node after \<open>cur\<close> matches, and the node before it.\<close>

fun search_next :: "nat \<Rightarrow> int \<Rightarrow> sll_ptr \<Rightarrow> sll_state \<Rightarrow> (bool \<times> sll_ptr) option" where
  "search_next 0 v cur s = Some (False, cur)"
| "search_next (Suc k) v cur s = do {
     cn \<leftarrow> sll_heap s cur;
     nn \<leftarrow> sll_heap s (sll_next cn);
     if sll_v nn = v then Some (True, cur) else search_next k v (sll_next cn) s
   }"

definition getFirstMatchedSllNodeWithDeleteOperation :: "int \<Rightarrow> sll_state \<Rightarrow> (int \<times> sll_state) option" where
  "getFirstMatchedSllNodeWithDeleteOperation v s = do {
     s \<leftarrow> sll_down s;
     (ret, s) \<leftarrow>
       (if sll_size s > 0 then do {
          hn \<leftarrow> sll_heap s (sll_head s);
          if sll_v hn = v then do {
            let temp = sll_head s;
            let s = s\<lparr>sll_head := sll_next hn\<rparr>;
            s \<leftarrow> sll_kfree temp s;
            Some (v, s\<lparr>sll_size := sll_size s - 1\<rparr>)
          }
          else do {
            (matched, cur) \<leftarrow> search_next (unat (sll_size s - 1)) v (sll_head s) s;
            if matched then do {
              cn \<leftarrow> sll_heap s cur;
              let temp = sll_next cn;
              tn \<leftarrow> sll_heap s temp;
              s \<leftarrow> sll_upd cur (\<lambda>n. n\<lparr>sll_next := sll_next tn\<rparr>) s;
              s \<leftarrow> sll_kfree temp s;
              Some (v, s\<lparr>sll_size := sll_size s - 1\<rparr>)
            }
            else Some (- 1, s)
          }
        }
        else Some (- 1, s));
     Some (ret, sll_up s)
   }"

fun free_nodes :: "nat \<Rightarrow> sll_ptr \<Rightarrow> sll_state \<Rightarrow> sll_state option" where
  "free_nodes 0 cur s = Some s"
| "free_nodes (Suc k) cur s = do {
     n \<leftarrow> sll_heap s cur;
     s \<leftarrow> sll_kfree cur s;
     free_nodes k (sll_next n) s
   }"

definition releaseSll :: "sll_state \<Rightarrow> sll_state option" where
  "releaseSll s = do {
     s \<leftarrow> sll_down s;
     s \<leftarrow> free_nodes (unat (sll_size s)) (sll_head s) s;
     Some (sll_up (s\<lparr>sll_size := 0, sll_head := 0\<rparr>))
   }"

section \<open>File operations\<close>

text \<open>A read passes the wanted value in the first byte of its buffer and gets the result in the second.\<close>

definition dummy_read :: "8 word list \<Rightarrow> nat \<Rightarrow> sll_state \<Rightarrow> (int \<times> 8 word list \<times> sll_state) option" where
  "dummy_read buffer len s =
     (if len > 1 then do {
        b \<leftarrow> arr_get buffer 0;
        let v = sint b;
        (ret, s) \<leftarrow> getFirstMatchedSllNodeWithDeleteOperation v s;
        buffer \<leftarrow> arr_set buffer 1 (word_of_int ret);
        Some (ret, buffer, s)
      }
      else Some (- 1, buffer, s))"

definition dummy_write :: "32 word \<Rightarrow> 8 word list \<Rightarrow> nat \<Rightarrow> sll_state \<Rightarrow> (int \<times> sll_state) option" where
  "dummy_write rnd buffer len s =
     (if len > 0 then do {
        b \<leftarrow> arr_get buffer 0;
        let v = sint b;
        if 0 \<le> v \<and> v \<le> 9 then do {
          s \<leftarrow> allocLinkedListRandomly rnd v s;
          Some (1, s)
        }
        else Some (- 1, s)
      }
      else Some (- 1, s))"

definition dummy_open :: "sll_state \<Rightarrow> int \<times> sll_state" where
  "dummy_open s = (0, s)"

definition dummy_release :: "sll_state \<Rightarrow> (int \<times> sll_state) option" where
  "dummy_release s = do { s \<leftarrow> releaseSll s; Some (0, s) }"

definition dummy_ioctl :: "32 word \<Rightarrow> 64 word \<Rightarrow> sll_state \<Rightarrow> int \<times> sll_state" where
  "dummy_ioctl cmd argument s = (0, s)"

section \<open>Loading and unloading\<close>

text \<open>The kernel objects the module registers: regions of device numbers, the class, the device and the
  character device. A region is unregistered by its first number and its size.\<close>

record kernel_objects =
  ko_regions :: "((nat \<times> nat) \<times> nat) list"
  ko_class :: bool
  ko_device :: bool
  ko_cdev :: bool

definition unregister_chrdev_region :: "nat \<times> nat \<Rightarrow> nat \<Rightarrow> kernel_objects \<Rightarrow> kernel_objects" where
  "unregister_chrdev_region dev n k = k\<lparr>ko_regions := filter (\<lambda>r. r \<noteq> (dev, n)) (ko_regions k)\<rparr>"

definition DUMMY_MAJOR_NUMBER :: nat where "DUMMY_MAJOR_NUMBER = 250"

text \<open>The arguments: the number \<open>alloc_chrdev_region\<close> finds, and whether the other calls succeed.\<close>

definition dummy_init :: "(nat \<times> nat) option \<Rightarrow> bool \<Rightarrow> bool \<Rightarrow> bool \<Rightarrow> kernel_objects \<Rightarrow> sll_state \<Rightarrow> int \<times> kernel_objects \<times> sll_state" where
  "dummy_init region class_ok device_ok add_ok k s =
     (case region of
        None \<Rightarrow> (- 1, k, s)
      | Some device_num \<Rightarrow>
          let k = k\<lparr>ko_regions := (device_num, 1) # ko_regions k\<rparr>
          in if \<not> class_ok then (- 1, unregister_chrdev_region device_num 1 k, s)
          else let k = k\<lparr>ko_class := True\<rparr>
          in if \<not> device_ok then (- 1, unregister_chrdev_region device_num 1 (k\<lparr>ko_class := False\<rparr>), s)
          else let k = k\<lparr>ko_device := True\<rparr>;
                   s = s\<lparr>sll_sem := 1, sll_head := 0, sll_size := 0\<rparr>
          in if \<not> add_ok
             then (0, unregister_chrdev_region device_num 1 (k\<lparr>ko_device := False, ko_class := False\<rparr>), s)
             else (0, k\<lparr>ko_cdev := True\<rparr>, s))"

definition dummy_exit :: "kernel_objects \<Rightarrow> kernel_objects" where
  "dummy_exit k =
     unregister_chrdev_region (DUMMY_MAJOR_NUMBER, 0) 128 (k\<lparr>ko_cdev := False, ko_device := False, ko_class := False\<rparr>)"

section \<open>Readers and writers\<close>

definition getNanoTimeRandomNumber :: "nat \<Rightarrow> nat \<Rightarrow> nat" where
  "getNanoTimeRandomNumber rnd bound = rnd mod bound"

datatype rw_message =
    WriterFailed | WriterWrote int
  | ReaderFailed int | ReaderGot int

text \<open>One iteration of each loop: the random number of the program, for a writer also that of the driver. The other
  bytes of the buffer are whatever the stack holds.\<close>

type_synonym stack_bytes = "8 word \<times> 8 word \<times> 8 word \<times> 8 word"

definition bytes_of :: "stack_bytes \<Rightarrow> 8 word list" where
  "bytes_of j = (case j of (a, b, c, d) \<Rightarrow> [a, b, c, d])"

definition write_func :: "stack_bytes \<Rightarrow> nat \<Rightarrow> 32 word \<Rightarrow> sll_state \<Rightarrow> (rw_message \<times> sll_state) option" where
  "write_func junk rnd krnd s = do {
     buf \<leftarrow> arr_set (bytes_of junk) 0 (of_nat (getNanoTimeRandomNumber rnd 10));
     (ret, s) \<leftarrow> dummy_write krnd buf 4 s;
     b \<leftarrow> arr_get buf 0;
     Some (if ret = - 1 then WriterFailed else WriterWrote (sint b), s)
   }"

definition read_func :: "stack_bytes \<Rightarrow> nat \<Rightarrow> sll_state \<Rightarrow> (rw_message \<times> sll_state) option" where
  "read_func junk rnd s = do {
     buf \<leftarrow> arr_set (bytes_of junk) 0 (of_nat (getNanoTimeRandomNumber rnd 10));
     (ret, buf, s) \<leftarrow> dummy_read buf 4 s;
     b0 \<leftarrow> arr_get buf 0;
     b1 \<leftarrow> arr_get buf 1;
     Some (if ret = - 1 then ReaderFailed (sint b0) else ReaderGot (sint b1), s)
   }"


section \<open>Lists in the heap\<close>

type_synonym sll_mem = "sll_ptr \<rightharpoonup> sll"

fun sll_path :: "sll_mem \<Rightarrow> sll_ptr \<Rightarrow> sll_ptr list \<Rightarrow> sll_ptr \<Rightarrow> bool" where
  "sll_path h p [] q \<longleftrightarrow> p = q"
| "sll_path h p (a # as) q \<longleftrightarrow> p = a \<and> a \<noteq> 0 \<and> (\<exists>n. h a = Some n \<and> sll_path h (sll_next n) as q)"

definition sll_val :: "sll_mem \<Rightarrow> sll_ptr \<Rightarrow> int" where
  "sll_val h p = (case h p of None \<Rightarrow> 0 | Some n \<Rightarrow> sll_v n)"

definition sll_rep :: "sll_state \<Rightarrow> sll_ptr list \<Rightarrow> int list \<Rightarrow> bool" where
  "sll_rep s ps vs \<longleftrightarrow>
     sll_path (sll_heap s) (sll_head s) ps 0 \<and> distinct ps \<and> dom (sll_heap s) = set ps \<and>
     vs = map (sll_val (sll_heap s)) ps \<and> unat (sll_size s) = length ps \<and>
     sll_sem s = 1 \<and> 0 < sll_fresh s \<and> (\<forall>p \<in> set ps. p < sll_fresh s)"

lemma sll_path_append: "sll_path h p (as @ bs) q \<longleftrightarrow> (\<exists>r. sll_path h p as r \<and> sll_path h r bs q)"
  by (induction as arbitrary: p) auto

lemma sll_path_upd [simp]: "a \<notin> set ps \<Longrightarrow> sll_path (h(a := x)) p ps q = sll_path h p ps q"
  by (induction ps arbitrary: p) auto

lemma sll_val_upd [simp]:
  "sll_val (h(a \<mapsto> n)) p = (if p = a then sll_v n else sll_val h p)"
  "p \<noteq> a \<Longrightarrow> sll_val (h(a := None)) p = sll_val h p"
  by (auto simp: sll_val_def)

lemma map_val_upd [simp]:
  "a \<notin> set ps \<Longrightarrow> map (sll_val (h(a := x))) ps = map (sll_val h) ps"
  by (auto simp: sll_val_def)

lemma sll_path_nonempty: "sll_path h p ps 0 \<Longrightarrow> p = 0 \<longleftrightarrow> ps = []"
  by (cases ps) auto

text \<open>The links between two neighbours and behind the last node.\<close>

lemma sll_path_cut:
  "sll_path h p (as @ a # bs) q \<longleftrightarrow> sll_path h p as a \<and> a \<noteq> 0 \<and> (\<exists>n. h a = Some n \<and> sll_path h (sll_next n) bs q)"
  by (auto simp: sll_path_append)

lemma walks_sem [simp]:
  "move_ahead k p (s\<lparr>sll_sem := m\<rparr>) = move_ahead k p s"
  "search_next k v p (s\<lparr>sll_sem := m\<rparr>) = search_next k v p s"
  by (induction k arbitrary: p) (simp_all cong: Option.bind_cong if_cong)

lemma move_ahead_path:
  "sll_path (sll_heap s) p ps q \<Longrightarrow> k < length ps \<Longrightarrow> move_ahead k p s = Some (ps ! k)"
proof (induction k arbitrary: p ps)
  case 0
  then show ?case by (cases ps) auto
next
  case (Suc k)
  then obtain a as where "ps = a # as" by (cases ps) auto
  with Suc show ?case by auto
qed

section \<open>The operations on lists\<close>

text \<open>What the driver does, on the list of its values.\<close>

definition insert_after :: "nat \<Rightarrow> 'a \<Rightarrow> 'a list \<Rightarrow> 'a list" where
  "insert_after k v vs = (if vs = [] then [v] else take (Suc (k mod length vs)) vs @ v # drop (Suc (k mod length vs)) vs)"

lemma split_after:
  assumes "k < length xs"
  shows "xs = take k xs @ xs ! k # drop (Suc k) xs"
  using assms by (simp add: id_take_nth_drop)

lemma alloc_refines:
  assumes rep: "sll_rep s ps vs" and room: "Suc (length vs) < 2 ^ 32"
  shows "\<exists>s' ps'. allocLinkedListRandomly rnd v s = Some s' \<and> sll_rep s' ps' (insert_after (unat rnd) v vs)"
proof (cases "ps = []")
  case True
  with rep have "allocLinkedListRandomly rnd v s = Some (s\<lparr>sll_heap := [sll_fresh s \<mapsto> \<lparr>sll_next = 0, sll_v = v\<rparr>],
      sll_head := sll_fresh s, sll_size := sll_size s + 1, sll_fresh := sll_fresh s + 1\<rparr>)"
    by (auto simp: sll_rep_def allocLinkedListRandomly_def sll_down_def sll_up_def sll_kzalloc_def sll_upd_def Let_def)
  moreover have "sll_size s = 0" using rep True by (simp add: sll_rep_def unat_eq_0)
  ultimately show ?thesis using rep True
    by (intro exI [of _ "[sll_fresh s]"] exI) (auto simp: sll_rep_def insert_after_def sll_val_def split: if_splits)
next
  case False
  let ?h = "sll_heap s" and ?q = "sll_fresh s"
  have len: "unat (sll_size s) = length ps" and path: "sll_path ?h (sll_head s) ps 0" and dom: "dom ?h = set ps"
    using rep by (auto simp: sll_rep_def)
  define k where "k = unat rnd mod length ps"
  have k: "k < length ps" "unat (rnd mod sll_size s) = k" using False len by (auto simp: k_def unat_mod_distrib)
  define as c bs where "as = take k ps" and "c = ps ! k" and "bs = drop (Suc k) ps"
  have ps: "ps = as @ c # bs" using split_after [OF k(1)] by (simp add: as_def c_def bs_def)
  from path ps obtain n where n: "?h c = Some n" "sll_path ?h (sll_head s) as c" "c \<noteq> 0" "sll_path ?h (sll_next n) bs 0"
    by (auto simp: sll_path_cut)
  have fresh: "?q \<notin> set ps" "?q \<noteq> 0" using rep by (auto simp: sll_rep_def)
  let ?h' = "?h(c \<mapsto> n\<lparr>sll_next := ?q\<rparr>, ?q \<mapsto> \<lparr>sll_next = sll_next n, sll_v = v\<rparr>)"
  have exec: "allocLinkedListRandomly rnd v s =
      Some (s\<lparr>sll_heap := ?h', sll_size := sll_size s + 1, sll_fresh := ?q + 1\<rparr>)"
  proof -
    have "sll_sem s = 1" "sll_head s \<noteq> 0" "sll_size s \<noteq> 0"
      using rep False len sll_path_nonempty [OF path] by (auto simp: sll_rep_def unat_eq_0)
    moreover have "c \<noteq> ?q" "?q \<noteq> c" using fresh ps by auto
    moreover have "move_ahead k (sll_head s) s = Some c" using move_ahead_path [OF path k(1)] by (simp add: c_def)
    ultimately show ?thesis using k(2) n(1)
      by (simp add: allocLinkedListRandomly_def sll_down_def sll_up_def sll_kzalloc_def sll_upd_def fun_upd_twist)
  qed
  have path': "sll_path ?h' (sll_head s) (as @ c # ?q # bs) 0"
    using n fresh rep ps by (auto simp: sll_path_cut sll_rep_def)
  have vals: "map (sll_val ?h') (as @ c # ?q # bs) = insert_after (unat rnd) v vs"
  proof -
    have "vs = map (sll_val ?h) ps" using rep by (simp add: sll_rep_def)
    moreover have "map (sll_val ?h') (as @ c # ?q # bs) = map (sll_val ?h) (as @ [c]) @ v # map (sll_val ?h) bs"
      using n fresh rep ps by (auto simp: sll_rep_def sll_val_def)
    moreover have "as @ [c] = take (Suc k) ps" using k(1) by (simp add: as_def c_def take_Suc_conv_app_nth)
    ultimately show ?thesis using False by (simp add: insert_after_def k_def bs_def take_map drop_map)
  qed
  have "unat (sll_size s + 1) = Suc (length ps)"
    using len room rep by (simp add: unat_word_ariths sll_rep_def)
  with path' vals rep fresh ps dom n exec show ?thesis
    by (intro exI [of _ "s\<lparr>sll_heap := ?h', sll_size := sll_size s + 1, sll_fresh := ?q + 1\<rparr>"] exI [of _ "as @ c # ?q # bs"])
      (auto simp: sll_rep_def less_Suc_eq)
qed


lemma search_none:
  "sll_path (sll_heap s) c (c # ps) q \<Longrightarrow> v \<notin> set (map (sll_val (sll_heap s)) ps) \<Longrightarrow>
   \<exists>r. search_next (length ps) v c s = Some (False, r)"
proof (induction ps arbitrary: c)
  case (Cons a ps)
  from Cons.prems(1) obtain n m where n: "sll_heap s c = Some n" "sll_next n = a" "sll_heap s a = Some m"
    "sll_path (sll_heap s) a (a # ps) q" by auto
  with Cons.IH [of a] Cons.prems(2) show ?case by (auto simp: sll_val_def)
qed auto

lemma search_found:
  "sll_path (sll_heap s) c (c # as @ a # bs) q \<Longrightarrow> v \<notin> set (map (sll_val (sll_heap s)) as) \<Longrightarrow> sll_val (sll_heap s) a = v \<Longrightarrow>
   search_next (length as + Suc k) v c s = Some (True, last (c # as))"
proof (induction as arbitrary: c)
  case Nil
  then show ?case by (auto simp: sll_val_def)
next
  case (Cons x as)
  from Cons.prems(1) obtain n m where n: "sll_heap s c = Some n" "sll_next n = x" "sll_heap s x = Some m"
    "sll_path (sll_heap s) x (x # as @ a # bs) q" by auto
  have "search_next (length as + Suc k) v x s = Some (True, last (x # as))"
    by (rule Cons.IH) (use n Cons.prems in auto)
  moreover have "sll_v m \<noteq> v" using n(3) Cons.prems(2) by (auto simp: sll_val_def)
  ultimately show ?case using n by simp
qed

text \<open>Unlinking a node of a list.\<close>

lemma sll_path_unlink:
  assumes path: "sll_path h p (as @ c # a # bs) q" and dist: "distinct (as @ c # a # bs)" and hc: "h c = Some n" and ha: "h a = Some m"
  shows "sll_next n = a" "sll_path ((h(c \<mapsto> n\<lparr>sll_next := sll_next m\<rparr>))(a := None)) p (as @ c # bs) q"
  using path dist hc ha by (auto simp: sll_path_cut)

lemma remove1_mid: "v \<notin> set (map f xs) \<Longrightarrow> f a = v \<Longrightarrow> remove1 v (map f (xs @ a # ys)) = map f (xs @ ys)"
  by (induction xs) auto

lemma rep_removed:
  assumes rep: "sll_rep s (xs @ a # ys) vs" and first: "v \<notin> set (map (sll_val (sll_heap s)) xs)" "sll_val (sll_heap s) a = v"
    and path: "sll_path h' hd' (xs @ ys) 0" and dom: "dom h' = set (xs @ ys)"
    and vals: "\<And>p. p \<in> set (xs @ ys) \<Longrightarrow> sll_val h' p = sll_val (sll_heap s) p"
  shows "sll_rep (s\<lparr>sll_heap := h', sll_head := hd', sll_size := sll_size s - 1\<rparr>) (xs @ ys) (remove1 v vs)"
proof -
  have "unat (sll_size s) = Suc (length (xs @ ys))" using rep by (simp add: sll_rep_def)
  then have "unat (sll_size s - 1) = length (xs @ ys)" by (simp add: unat_sub_if')
  moreover have "remove1 v vs = map (sll_val h') (xs @ ys)"
    using rep remove1_mid [of v "sll_val (sll_heap s)" xs a ys] first vals by (simp add: sll_rep_def)
  ultimately show ?thesis using rep path dom by (auto simp: sll_rep_def)
qed

lemma first_match:
  assumes "v \<in> set (map f ps)"
  obtains xs a ys where "ps = xs @ a # ys" "f a = v" "v \<notin> set (map f xs)"
proof -
  from assms have "\<exists>x \<in> set ps. f x = v" by auto
  from split_list_first_prop [OF this] obtain xs a ys where "ps = xs @ a # ys" "f a = v" "\<forall>y \<in> set xs. f y \<noteq> v" by blast
  then show ?thesis by (intro that) auto
qed

lemma get_refines:
  assumes rep: "sll_rep s ps vs"
  shows "\<exists>s' ps'. getFirstMatchedSllNodeWithDeleteOperation v s = Some (if v \<in> set vs then v else - 1, s')
    \<and> sll_rep s' ps' (remove1 v vs)"
proof -
  let ?h = "sll_heap s" and ?f = "sll_val (sll_heap s)"
  have path: "sll_path ?h (sll_head s) ps 0" and dom: "dom ?h = set ps" and dist: "distinct ps" and vs: "vs = map ?f ps"
    and len: "unat (sll_size s) = length ps" and sem: "sll_sem s = 1" using rep by (auto simp: sll_rep_def)
  note defs = getFirstMatchedSllNodeWithDeleteOperation_def sll_down_def sll_up_def Let_def
  show ?thesis
  proof (cases ps)
    case Nil
    with len have "sll_size s = 0" by (simp add: unat_eq_0)
    with Nil rep vs show ?thesis by (auto simp: defs sem sll_rep_def)
  next
    case (Cons c qs)
    have pos: "sll_size s > 0" "unat (sll_size s - 1) = length qs"
      using len Cons by (auto simp: word_gt_0 unat_sub_if')
    obtain n where n: "sll_head s = c" "?h c = Some n" "sll_path ?h (sll_next n) qs 0" using path Cons by auto
    show ?thesis
    proof (cases "sll_v n = v")
      case True
      let ?s = "s\<lparr>sll_heap := ?h(c := None), sll_head := sll_next n, sll_size := sll_size s - 1\<rparr>"
      have "sll_rep ?s qs (remove1 v vs)"
        by (rule rep_removed [of s "[]" c qs vs v "?h(c := None)" "sll_next n", simplified append_Nil])
          (use rep Cons n dom dist True in \<open>auto simp: sll_val_def\<close>)
      moreover have "getFirstMatchedSllNodeWithDeleteOperation v s = Some (v, ?s)"
        using n True pos sem by (simp add: defs sll_kfree_def)
      moreover have "v \<in> set vs" using vs Cons n True by (simp add: sll_val_def)
      ultimately show ?thesis by auto
    next
      case False
      then have fc: "?f c \<noteq> v" using n by (simp add: sll_val_def)
      show ?thesis
      proof (cases "v \<in> set (map ?f qs)")
        case True
        then obtain xs a ys where q: "qs = xs @ a # ys" "?f a = v" "v \<notin> set (map ?f xs)" by (rule first_match)
        have "\<exists>us d. c # xs = us @ [d]" by (metis append_butlast_last_id list.distinct(1))
        then obtain us d where us: "c # xs = us @ [d]" by blast
        have all: "ps = us @ d # a # ys" using Cons q us by (metis append.assoc append_Cons append_Nil)
        have "d \<in> dom ?h" "a \<in> dom ?h" using dom all by auto
        then obtain dn an where dn: "?h d = Some dn" "?h a = Some an" by auto
        let ?h' = "(?h(d \<mapsto> dn\<lparr>sll_next := sll_next an\<rparr>))(a := None)"
        let ?s = "s\<lparr>sll_heap := ?h', sll_head := c, sll_size := sll_size s - 1\<rparr>"
        note un = sll_path_unlink [of ?h c us d a ys 0 dn an, OF _ _ dn]
        have link: "sll_next dn = a" "sll_path ?h' c (us @ d # ys) 0" using un path dist all n by auto
        have "search_next (length qs) v c s = Some (True, last (c # xs))"
          using search_found [of s c xs a ys 0 v "length ys"] path Cons q n by simp
        then have search: "search_next (length qs) v c s = Some (True, d)" using us by simp
        have "getFirstMatchedSllNodeWithDeleteOperation v s = Some (v, ?s)"
          using n False pos sem search dn link dist all by (auto simp: defs sll_kfree_def sll_upd_def)
        moreover have "sll_rep ?s (us @ [d] @ ys) (remove1 v vs)"
        proof -
          have "v \<notin> set (map ?f (c # xs))" using fc q by auto
          then have out: "v \<notin> set (map ?f (us @ [d]))" unfolding us .
          have r: "sll_rep s ((us @ [d]) @ a # ys) vs" using rep all by simp
          have "sll_rep ?s ((us @ [d]) @ ys) (remove1 v vs)"
            by (rule rep_removed [OF r out q(2)]) (use link dn dom all dist in \<open>auto simp: sll_val_def\<close>)
          then show ?thesis by simp
        qed
        moreover have "v \<in> set vs" using True vs Cons by simp
        ultimately show ?thesis by auto
      next
        case missing: False
        obtain r where "search_next (length qs) v c s = Some (False, r)"
          using search_none [of s c qs 0 v] path Cons n missing by auto
        then have "getFirstMatchedSllNodeWithDeleteOperation v s = Some (- 1, s)"
          using n False pos sem by (simp add: defs)
        moreover have "v \<notin> set vs" using missing vs Cons fc by auto
        ultimately show ?thesis using rep by (auto simp: remove1_idem)
      qed
    qed
  qed
qed

lemma free_all_nodes:
  "sll_path (sll_heap s) p ps 0 \<Longrightarrow> distinct ps \<Longrightarrow>
   free_nodes (length ps) p s = Some (s\<lparr>sll_heap := sll_heap s |` (- set ps)\<rparr>)"
proof (induction ps arbitrary: p s)
  case Nil
  have "sll_heap s |` UNIV = sll_heap s" by (simp add: restrict_map_def)
  then show ?case by simp
next
  case (Cons a as)
  then obtain n where n: "p = a" "sll_heap s a = Some n" "sll_path (sll_heap s) (sll_next n) as 0" by auto
  have "(sll_heap s)(a := None) |` (- set as) = sll_heap s |` (- set (a # as))"
    by (auto simp: restrict_map_def fun_eq_iff)
  moreover have "free_nodes (length as) (sll_next n) (s\<lparr>sll_heap := (sll_heap s)(a := None)\<rparr>)
      = Some (s\<lparr>sll_heap := (sll_heap s)(a := None) |` (- set as)\<rparr>)"
    by (subst Cons.IH) (use n Cons.prems(2) in simp_all)
  ultimately show ?case using n by (simp add: sll_kfree_def)
qed

lemma release_refines:
  assumes "sll_rep s ps vs"
  shows "\<exists>s'. releaseSll s = Some s' \<and> sll_rep s' [] []"
proof -
  have "free_nodes (unat (sll_size s)) (sll_head s) (s\<lparr>sll_sem := 0\<rparr>)
      = Some (s\<lparr>sll_sem := 0, sll_heap := sll_heap s |` (- set ps)\<rparr>)"
    using free_all_nodes [of "s\<lparr>sll_sem := 0\<rparr>" "sll_head s" ps] assms by (simp add: sll_rep_def)
  moreover have "sll_heap s |` (- set ps) = Map.empty"
    using assms by (auto simp: sll_rep_def fun_eq_iff restrict_map_def dom_def)
  ultimately show ?thesis using assms by (auto simp: releaseSll_def sll_down_def sll_up_def sll_rep_def)
qed


section \<open>Requests\<close>

text \<open>The file operations as requests with their buffers, and what they do to a list.\<close>

datatype sll_request =
    SllWrite "32 word" "8 word list"
  | SllRead "8 word list"
  | SllClose

fun sll_serve :: "sll_request \<Rightarrow> sll_state \<Rightarrow> ((int \<times> 8 word list) \<times> sll_state) option" where
  "sll_serve (SllWrite rnd buffer) s = map_option (\<lambda>(r, s). ((r, buffer), s)) (dummy_write rnd buffer (length buffer) s)"
| "sll_serve (SllRead buffer) s = map_option (\<lambda>(r, b, s). ((r, b), s)) (dummy_read buffer (length buffer) s)"
| "sll_serve SllClose s = map_option (\<lambda>(r, s). ((r, []), s)) (dummy_release s)"

fun sll_spec :: "sll_request \<Rightarrow> int list \<Rightarrow> (int \<times> 8 word list) \<times> int list" where
  "sll_spec (SllWrite rnd buffer) vs =
     (case buffer of
        [] \<Rightarrow> ((- 1, buffer), vs)
      | b # bs \<Rightarrow> if 0 \<le> sint b \<and> sint b \<le> 9 then ((1, buffer), insert_after (unat rnd) (sint b) vs) else ((- 1, buffer), vs))"
| "sll_spec (SllRead buffer) vs =
     (case buffer of
        b # _ # bs \<Rightarrow>
          (let r = (if sint b \<in> set vs then sint b else - 1)
           in ((r, b # word_of_int r # bs), remove1 (sint b) vs))
      | _ \<Rightarrow> ((- 1, buffer), vs))"
| "sll_spec SllClose vs = ((0, []), [])"

definition sll_room :: "nat \<Rightarrow> int list \<Rightarrow> bool" where
  "sll_room n vs \<longleftrightarrow> length vs + n < 2 ^ 32"

lemma length_insert_after: "length (insert_after k v vs) = Suc (length vs)"
  by (auto simp: insert_after_def)

interpretation sll: served_requests sll_serve sll_spec "\<lambda>s vs. \<exists>ps. sll_rep s ps vs" sll_room
proof
  fix s vs n q
  assume rep: "\<exists>ps. sll_rep s ps vs" and room: "sll_room (Suc n) vs"
  then have small: "Suc (length vs) < 2 ^ 32" by (simp add: sll_room_def)
  show "\<exists>s'. sll_serve q s = Some (fst (sll_spec q vs), s') \<and> (\<exists>ps. sll_rep s' ps (snd (sll_spec q vs)))"
  proof (cases q)
    case (SllWrite rnd buffer)
    show ?thesis
    proof (cases buffer)
      case Nil
      with SllWrite rep show ?thesis by (simp add: dummy_write_def)
    next
      case (Cons b bs)
      from rep alloc_refines [OF _ small, of s _ rnd "sint b"] obtain s' ps' where
        "allocLinkedListRandomly rnd (sint b) s = Some s'" "sll_rep s' ps' (insert_after (unat rnd) (sint b) vs)" by blast
      with SllWrite Cons rep show ?thesis by (auto simp: dummy_write_def)
    qed
  next
    case (SllRead buffer)
    show ?thesis
    proof (cases "length buffer > 1")
      case True
      then obtain b b' bs where buf: "buffer = b # b' # bs" by (cases buffer rule: remdups_adj.cases) auto
      from rep get_refines [of s _ vs "sint b"] obtain s' ps' where
        "getFirstMatchedSllNodeWithDeleteOperation (sint b) s = Some (if sint b \<in> set vs then sint b else - 1, s')"
        "sll_rep s' ps' (remove1 (sint b) vs)" by blast
      with SllRead buf show ?thesis by (auto simp: dummy_read_def arr_set_def Let_def)
    next
      case False
      with SllRead rep show ?thesis by (auto simp: dummy_read_def split: list.splits)
    qed
  next
    case SllClose
    from rep release_refines obtain s' where "releaseSll s = Some s'" "sll_rep s' [] []" by blast
    with SllClose show ?thesis by (auto simp: dummy_release_def)
  qed
next
  fix n vs q
  assume "sll_room (Suc n) vs"
  moreover have "length (snd (sll_spec q vs)) \<le> Suc (length vs)"
    by (cases q) (auto simp: length_insert_after length_remove1 Let_def split: list.splits)
  ultimately show "sll_room n (snd (sll_spec q vs))" by (simp add: sll_room_def)
qed

text \<open>The state after loading, when every registration succeeds.\<close>

definition sll_boot :: sll_state where
  "sll_boot = \<lparr>sll_heap = Map.empty, sll_head = 0, sll_size = 0, sll_sem = 0, sll_fresh = 1\<rparr>"

definition sll_loaded :: "sll_state" where
  "sll_loaded = snd (snd (dummy_init (Some (250, 0)) True True True
     \<lparr>ko_regions = [], ko_class = False, ko_device = False, ko_cdev = False\<rparr> sll_boot))"

lemma loaded_rep: "sll_rep sll_loaded [] []"
  by (simp add: sll_loaded_def dummy_init_def sll_boot_def sll_rep_def)

text \<open>C13. The device refines a list of digits: after loading, any series of fewer than \<open>2 ^ 32\<close> writes, reads and
  closes is served without a fault and without blocking, with the results and buffers of the list operations
  (a digit is inserted behind a random element, a read removes the first equal value or reports -1,
  closing empties the list), and the nodes in memory are exactly those of the list.\<close>

theorem sll_requests_refine:
  assumes "length rs < 2 ^ 32"
  shows "\<exists>s ps. serve_all sll_serve rs sll_loaded = Some (fst (spec_all sll_spec rs []), s)
    \<and> sll_rep s ps (snd (spec_all sll_spec rs [])) \<and> dom (sll_heap s) = set ps"
proof -
  have "sll_room (length rs) []" using assms by (simp add: sll_room_def)
  from sll.serve_all_ok [OF _ this, of sll_loaded] loaded_rep show ?thesis by (auto simp: sll_rep_def)
qed

theorem sll_requests_refine_witness:
  "\<exists>s ps. serve_all sll_serve [SllWrite 7 [3, 0], SllWrite 0 [5, 0], SllWrite 1 [12, 0], SllRead [3, 0], SllRead [3, 0]] sll_loaded
     = Some ([(1, [3, 0]), (1, [5, 0]), (- 1, [12, 0]), (3, [3, 3]), (- 1, [3, - 1])], s) \<and> sll_rep s ps [5]"
proof -
  let ?rs = "[SllWrite 7 [3, 0], SllWrite 0 [5, 0], SllWrite 1 [12, 0], SllRead [3, 0], SllRead [3, 0]]"
  have "spec_all sll_spec ?rs [] = ([(1, [3, 0]), (1, [5, 0]), (- 1, [12, 0]), (3, [3, 3]), (- 1, [3, - 1])], [5])"
    by code_simp
  then show ?thesis using sll_requests_refine [of ?rs] by auto
qed

section \<open>Readers and writers together\<close>

datatype rw_turn = WriterTurn stack_bytes nat "32 word" | ReaderTurn stack_bytes nat

fun rw_serve :: "rw_turn \<Rightarrow> sll_state \<Rightarrow> (rw_message \<times> sll_state) option" where
  "rw_serve (WriterTurn junk rnd krnd) s = write_func junk rnd krnd s"
| "rw_serve (ReaderTurn junk rnd) s = read_func junk rnd s"

fun rw_spec :: "rw_turn \<Rightarrow> int list \<Rightarrow> rw_message \<times> int list" where
  "rw_spec (WriterTurn junk rnd krnd) vs = (WriterWrote (int (rnd mod 10)), insert_after (unat krnd) (int (rnd mod 10)) vs)"
| "rw_spec (ReaderTurn junk rnd) vs =
     (let v = int (rnd mod 10) in (if v \<in> set vs then ReaderGot v else ReaderFailed v, remove1 v vs))"

lemma digit_byte: "n < 10 \<Longrightarrow> sint (of_nat n :: 8 word) = int n"
  by (simp add: sint_uint unsigned_of_nat signed_take_bit_int_eq_self take_bit_nat_eq_self)

lemma digit_word: "n < 10 \<Longrightarrow> (word_of_int (int n) :: 8 word) = of_nat n"
  by simp

interpretation rw_programs: served_requests rw_serve rw_spec "\<lambda>s vs. \<exists>ps. sll_rep s ps vs" sll_room
proof
  fix s vs n q
  assume rep: "\<exists>ps. sll_rep s ps vs" and room: "sll_room (Suc n) vs"
  show "\<exists>s'. rw_serve q s = Some (fst (rw_spec q vs), s') \<and> (\<exists>ps. sll_rep s' ps (snd (rw_spec q vs)))"
  proof (cases q)
    case (WriterTurn junk rnd krnd)
    obtain a b c d where j: "junk = (a, b, c, d)" by (cases junk)
    have digit: "sint (of_nat (rnd mod 10) :: 8 word) = int (rnd mod 10)" "rnd mod 10 \<le> 9" "(4::nat) = Suc (Suc (Suc (Suc 0)))"
      using digit_byte [of "rnd mod 10"] by simp_all
    from sll.serve_ok [OF rep room, of "SllWrite krnd [of_nat (rnd mod 10), b, c, d]"] WriterTurn j show ?thesis
      by (auto simp: write_func_def bytes_of_def getNanoTimeRandomNumber_def arr_set_def digit)
  next
    case (ReaderTurn junk rnd)
    obtain a b c d where j: "junk = (a, b, c, d)" by (cases junk)
    have digit: "sint (of_nat (rnd mod 10) :: 8 word) = int (rnd mod 10)" "rnd mod 10 \<le> 9" "(4::nat) = Suc (Suc (Suc (Suc 0)))"
      using digit_byte [of "rnd mod 10"] by simp_all
    from sll.serve_ok [OF rep room, of "SllRead [of_nat (rnd mod 10), b, c, d]"] ReaderTurn j show ?thesis
      by (auto simp: read_func_def bytes_of_def getNanoTimeRandomNumber_def arr_set_def digit Let_def)
  qed
next
  fix n vs q
  assume "sll_room (Suc n) vs"
  moreover have "length (snd (rw_spec q vs)) \<le> Suc (length vs)"
    by (cases q) (auto simp: length_insert_after length_remove1 Let_def)
  ultimately show "sll_room n (snd (rw_spec q vs))" by (simp add: sll_room_def)
qed

definition written :: "rw_message list \<Rightarrow> int multiset" where
  "written ms = mset (concat (map (\<lambda>m. case m of WriterWrote v \<Rightarrow> [v] | _ \<Rightarrow> []) ms))"

definition got :: "rw_message list \<Rightarrow> int multiset" where
  "got ms = mset (concat (map (\<lambda>m. case m of ReaderGot v \<Rightarrow> [v] | _ \<Rightarrow> []) ms))"


lemma mset_insert_after: "mset (insert_after k v vs) = add_mset v (mset vs)"
proof (cases "vs = []")
  case False
  have "mset (take (Suc (k mod length vs)) vs) + mset (drop (Suc (k mod length vs)) vs) = mset vs"
    by (metis append_take_drop_id mset_append)
  with False show ?thesis by (simp add: insert_after_def union_commute)
qed (simp add: insert_after_def)

lemma message_msets [simp]:
  "written [] = {#}" "got [] = {#}"
  "written (m # ms) = (case m of WriterWrote v \<Rightarrow> {#v#} | _ \<Rightarrow> {#}) + written ms"
  "got (m # ms) = (case m of ReaderGot v \<Rightarrow> {#v#} | _ \<Rightarrow> {#}) + got ms"
  by (auto simp: written_def got_def split: rw_message.splits)

lemma rw_spec_conserves:
  "written (fst (spec_all rw_spec ts vs)) + mset vs = got (fst (spec_all rw_spec ts vs)) + mset (snd (spec_all rw_spec ts vs))"
proof (induction ts arbitrary: vs)
  case (Cons turn ts)
  show ?case
  proof (cases turn)
    case (WriterTurn junk rnd krnd)
    with Cons.IH [of "insert_after (unat krnd) (int (rnd mod 10)) vs"] show ?thesis by (simp add: mset_insert_after)
  next
    case (ReaderTurn junk rnd)
    with Cons.IH [of "remove1 (int (rnd mod 10)) vs"] show ?thesis
      by (auto simp: Let_def remove1_idem mset_remove1 in_set_conv_decomp)
  qed
qed simp

text \<open>Nothing is lost and nothing invented: however the turns of the readers and writers follow each other,
  every turn completes, no write fails, and the values the writers wrote are the values the readers got together with
  those still in the list.\<close>

theorem readers_writers_conserve:
  assumes "length turns < 2 ^ 32"
  shows "\<exists>ms s ps vs. serve_all rw_serve turns sll_loaded = Some (ms, s) \<and> sll_rep s ps vs
    \<and> WriterFailed \<notin> set ms \<and> written ms = got ms + mset vs"
proof -
  have "sll_room (length turns) []" using assms by (simp add: sll_room_def)
  from rw_programs.serve_all_ok [OF _ this, of sll_loaded] loaded_rep obtain s ps where
    "serve_all rw_serve turns sll_loaded = Some (fst (spec_all rw_spec turns []), s)"
    "sll_rep s ps (snd (spec_all rw_spec turns []))" by auto
  moreover have "WriterFailed \<notin> set (fst (spec_all rw_spec ts vs))" for ts vs
  proof (induction ts arbitrary: vs)
    case (Cons t ts)
    then show ?case by (cases t) (auto simp: Let_def)
  qed simp
  ultimately show ?thesis using rw_spec_conserves [of turns "[]"] by fastforce
qed

theorem readers_writers_conserve_witness:
  "\<exists>ms s ps vs. serve_all rw_serve [WriterTurn (0, 0, 0, 0) 13 5, ReaderTurn (0, 0, 0, 0) 3] sll_loaded = Some (ms, s)
     \<and> sll_rep s ps vs \<and> WriterFailed \<notin> set ms \<and> written ms = got ms + mset vs"
  by (rule readers_writers_conserve) simp

text \<open>Unloading leaves the region of device numbers registered: it is unregistered with another number and size. A failing
  \<open>cdev_add\<close> is undone and then reported as success.\<close>

lemma region_leaked:
  "dummy_init (Some dev) True True True k s = (r, k', s') \<Longrightarrow> (dev, 1) \<in> set (ko_regions (dummy_exit k'))"
  by (auto simp: dummy_init_def dummy_exit_def unregister_chrdev_region_def)

lemma failed_add_succeeds:
  "fst (dummy_init (Some dev) True True False k s) = 0 \<and> \<not> ko_device (fst (snd (dummy_init (Some dev) True True False k s)))"
  by (simp add: dummy_init_def unregister_chrdev_region_def)

end
