(* ===== verification/RwProgram.thy ===== *)
theory RwProgram
  imports LinkedListDriver
begin

text \<open>
  The whole program \<open>src/project5/task1/reader_writer_skel.c\<close> on the linked-list device: \<open>main\<close> opens the device, creates ten
  readers and ten writers, joins them and closes the device; every thread makes a hundred requests. A thread first
  reads its number from the array that \<open>main\<close> fills, the same array for readers and writers. A request is one step, since the
  driver holds its semaphore for the whole of it. \<open>pthread_create\<close> and \<open>malloc\<close> succeed (the code does not check
  them). The theorem: every execution ends, and at its end each thread has made its hundred requests under its own number, no write
  has failed, what was read had been written, and the device is empty.
\<close>

section \<open>The program\<close>

definition NUMREAD :: nat where "NUMREAD = 10"
definition NUMWRITE :: nat where "NUMWRITE = 10"
definition NUMLOOP :: nat where "NUMLOOP = 100"

datatype rw_role = Reader | Writer

datatype rw_phase = Born | Loops int nat

record rw_thread =
  t_role :: rw_role
  t_arg :: nat
  t_phase :: rw_phase

datatype main_pc = MOpen | MCreateR nat | MCreateW nat | MJoinR nat | MJoinW nat | MClose | MDone int

record rw_prog =
  p_dev :: sll_state
  p_main :: main_pc
  p_id :: "int list"
  p_threads :: "rw_thread list"
  p_log :: "(rw_role \<times> int \<times> rw_message) list"

definition rw_start :: rw_prog where
  "rw_start = \<lparr>p_dev = sll_loaded, p_main = MOpen, p_id = [], p_threads = [], p_log = []\<rparr>"

definition ended :: "rw_thread \<Rightarrow> bool" where
  "ended t \<longleftrightarrow> (case t_phase t of Born \<Rightarrow> False | Loops v k \<Rightarrow> k = NUMLOOP)"

definition create :: "rw_role \<Rightarrow> nat \<Rightarrow> rw_prog \<Rightarrow> rw_prog option" where
  "create role i s = do {
     ids \<leftarrow> arr_set (p_id s) (int i) (int i + 1);
     Some (s\<lparr>p_id := ids, p_threads := p_threads s @ [\<lparr>t_role = role, t_arg = i, t_phase = Born\<rparr>]\<rparr>)
   }"

definition join :: "nat \<Rightarrow> main_pc \<Rightarrow> rw_prog \<Rightarrow> rw_prog option option" where
  "join j pc s = (if j < length (p_threads s) then (if ended (p_threads s ! j) then Some (Some (s\<lparr>p_main := pc\<rparr>)) else None) else Some None)"

text \<open>A step of \<open>main\<close>: the arguments tell whether the device can be opened and what the array \<open>id\<close> holds when it is allocated. \<open>None\<close> is a
  blocked thread, \<open>Some None\<close> undefined.\<close>

definition main_step :: "bool \<Rightarrow> (nat \<Rightarrow> int) \<Rightarrow> rw_prog \<Rightarrow> rw_prog option option" where
  "main_step found junk s = (case p_main s of
       MOpen \<Rightarrow> Some (Some (if found then s\<lparr>p_main := MCreateR 0, p_dev := snd (dummy_open (p_dev s)),
           p_id := List.map junk [0..<(if NUMWRITE < NUMREAD then NUMREAD else NUMWRITE)]\<rparr> else s\<lparr>p_main := MDone (- 1)\<rparr>))
     | MCreateR i \<Rightarrow> if i < NUMREAD then Some (map_option (\<lambda>s. s\<lparr>p_main := MCreateR (Suc i)\<rparr>) (create Reader i s))
         else Some (Some (s\<lparr>p_main := MCreateW 0\<rparr>))
     | MCreateW i \<Rightarrow> if i < NUMWRITE then Some (map_option (\<lambda>s. s\<lparr>p_main := MCreateW (Suc i)\<rparr>) (create Writer i s))
         else Some (Some (s\<lparr>p_main := MJoinR 0\<rparr>))
     | MJoinR i \<Rightarrow> if i < NUMREAD then join i (MJoinR (Suc i)) s else Some (Some (s\<lparr>p_main := MJoinW 0\<rparr>))
     | MJoinW i \<Rightarrow> if i < NUMWRITE then join (NUMREAD + i) (MJoinW (Suc i)) s else Some (Some (s\<lparr>p_main := MClose\<rparr>))
     | MClose \<Rightarrow> Some (map_option (\<lambda>(r, d). s\<lparr>p_dev := d, p_main := MDone 0\<rparr>) (dummy_release (p_dev s)))
     | MDone r \<Rightarrow> None)"

definition request :: "rw_role \<Rightarrow> stack_bytes \<Rightarrow> nat \<Rightarrow> 32 word \<Rightarrow> sll_state \<Rightarrow> (rw_message \<times> sll_state) option" where
  "request role junk rnd krnd d = (case role of Writer \<Rightarrow> write_func junk rnd krnd d | Reader \<Rightarrow> read_func junk rnd d)"

text \<open>A step of a thread: it reads its number, or makes a request and prints the outcome.\<close>

definition thread_step :: "nat \<Rightarrow> stack_bytes \<Rightarrow> nat \<Rightarrow> 32 word \<Rightarrow> rw_prog \<Rightarrow> rw_prog option option" where
  "thread_step j junk rnd krnd s =
     (if j < length (p_threads s) then
        (let t = p_threads s ! j in
         case t_phase t of
           Born \<Rightarrow> Some (map_option (\<lambda>v. s\<lparr>p_threads := (p_threads s)[j := t\<lparr>t_phase := Loops v 0\<rparr>]\<rparr>) (arr_get (p_id s) (int (t_arg t))))
         | Loops v k \<Rightarrow>
             if k < NUMLOOP then
               Some (map_option (\<lambda>(m, d). s\<lparr>p_dev := d, p_threads := (p_threads s)[j := t\<lparr>t_phase := Loops v (Suc k)\<rparr>],
                 p_log := p_log s @ [(t_role t, v, m)]\<rparr>) (request (t_role t) junk rnd krnd (p_dev s)))
             else None)
      else None)"

datatype rw_move = MainMove bool "nat \<Rightarrow> int" | ThreadMove nat stack_bytes nat "32 word"

fun rw_step :: "rw_move \<Rightarrow> rw_prog \<Rightarrow> rw_prog option option" where
  "rw_step (MainMove found junk) s = main_step found junk s"
| "rw_step (ThreadMove j junk rnd krnd) s = thread_step j junk rnd krnd s"

text \<open>The state \<open>None\<close> is undefined behaviour.\<close>

definition rw_goes :: "rw_move \<Rightarrow> rw_prog option \<Rightarrow> rw_prog option option" where
  "rw_goes m t = (case t of None \<Rightarrow> None | Some s \<Rightarrow> rw_step m s)"

section \<open>The invariant\<close>

definition role_of :: "nat \<Rightarrow> rw_role" where
  "role_of j = (if j < 10 then Reader else Writer)"

definition number_of :: "nat \<Rightarrow> int" where
  "number_of j = int (j mod 10) + 1"

definition turns :: "rw_thread \<Rightarrow> nat" where
  "turns t = (case t_phase t of Born \<Rightarrow> 0 | Loops v k \<Rightarrow> k)"

definition thread_ok :: "nat \<Rightarrow> rw_thread \<Rightarrow> bool" where
  "thread_ok j t \<longleftrightarrow> t_role t = role_of j \<and> t_arg t = j mod 10 \<and>
     (case t_phase t of Born \<Rightarrow> True | Loops v k \<Rightarrow> v = number_of j \<and> k \<le> 100)"

text \<open>How many threads there are, and how many have been joined.\<close>

fun created :: "main_pc \<Rightarrow> nat" where
  "created MOpen = 0" | "created (MCreateR i) = i" | "created (MCreateW i) = 10 + i" | "created (MDone r) = (if r = 0 then 20 else 0)" | "created _ = 20"

fun joined :: "main_pc \<Rightarrow> nat" where
  "joined (MJoinR i) = i" | "joined (MJoinW i) = 10 + i" | "joined MClose = 20" | "joined (MDone r) = (if r = 0 then 20 else 0)" | "joined _ = 0"

fun pc_ok :: "main_pc \<Rightarrow> bool" where
  "pc_ok (MCreateR i) \<longleftrightarrow> i \<le> 10" | "pc_ok (MCreateW i) \<longleftrightarrow> i \<le> 10" | "pc_ok (MJoinR i) \<longleftrightarrow> i \<le> 10" | "pc_ok (MJoinW i) \<longleftrightarrow> i \<le> 10"
| "pc_ok (MDone r) \<longleftrightarrow> r \<in> {0, - 1}" | "pc_ok _ \<longleftrightarrow> True"

definition messages :: "(rw_role \<times> int \<times> rw_message) list \<Rightarrow> rw_message list" where
  "messages l = List.map (\<lambda>(r, v, m). m) l"

definition threads_inv :: "main_pc \<Rightarrow> int list \<Rightarrow> rw_thread list \<Rightarrow> bool" where
  "threads_inv pc ids ts \<longleftrightarrow> pc_ok pc \<and> length ts = created pc \<and> (pc \<noteq> MOpen \<and> pc \<noteq> MDone (- 1) \<longrightarrow> length ids = 10) \<and>
     (\<forall>j < length ts. thread_ok j (ts ! j) \<and> ids ! (j mod 10) = number_of j) \<and> (\<forall>j < joined pc. turns (ts ! j) = 100)"

definition log_inv :: "rw_thread list \<Rightarrow> (rw_role \<times> int \<times> rw_message) list \<Rightarrow> bool" where
  "log_inv ts l \<longleftrightarrow> length l = sum_list (List.map turns ts) \<and>
     (\<forall>j < length ts. length (filter (\<lambda>(r, v, m). r = role_of j \<and> v = number_of j) l) = turns (ts ! j)) \<and>
     WriterFailed \<notin> set (messages l) \<and> (\<forall>(r, v, m) \<in> set l. \<exists>j < length ts. r = role_of j \<and> v = number_of j)"

definition device_inv :: "main_pc \<Rightarrow> sll_state \<Rightarrow> (rw_role \<times> int \<times> rw_message) list \<Rightarrow> bool" where
  "device_inv pc d l \<longleftrightarrow> (\<exists>ps vs. sll_rep d ps vs \<and> length vs \<le> length l \<and> got (messages l) \<subseteq># written (messages l) \<and>
     ((\<forall>r. pc \<noteq> MDone r) \<longrightarrow> written (messages l) = got (messages l) + mset vs) \<and> (\<forall>r. pc = MDone r \<longrightarrow> vs = []))"

definition rw_inv :: "rw_prog \<Rightarrow> bool" where
  "rw_inv s \<longleftrightarrow> threads_inv (p_main s) (p_id s) (p_threads s) \<and> log_inv (p_threads s) (p_log s) \<and> device_inv (p_main s) (p_dev s) (p_log s)"

fun main_rank :: "main_pc \<Rightarrow> nat" where
  "main_rank MOpen = 46" | "main_rank (MCreateR i) = 45 - i" | "main_rank (MCreateW i) = 34 - i" | "main_rank (MJoinR i) = 23 - i"
| "main_rank (MJoinW i) = 12 - i" | "main_rank MClose = 1" | "main_rank (MDone r) = 0"

definition thread_rank :: "rw_thread \<Rightarrow> nat" where
  "thread_rank t = (case t_phase t of Born \<Rightarrow> 101 | Loops v k \<Rightarrow> 100 - k)"

definition rw_rank :: "rw_prog \<Rightarrow> nat" where
  "rw_rank s = main_rank (p_main s) + (20 - length (p_threads s)) * 101 + sum_list (List.map thread_rank (p_threads s))"

section \<open>Requests\<close>

lemma messages_simps [simp]: "messages [] = []" "messages (l @ l') = messages l @ messages l'" "messages [(r, v, m)] = [m]"
  by (simp_all add: messages_def)

lemma msets_append [simp]: "written (a @ b) = written a + written b" "got (a @ b) = got a + got b"
  by (simp_all add: written_def got_def)

lemma request_effect:
  assumes rep: "sll_rep d ps vs" and room: "Suc (length vs) < 2 ^ 32"
  shows "\<exists>m d' ps' vs'. request role junk rnd krnd d = Some (m, d') \<and> sll_rep d' ps' vs' \<and> m \<noteq> WriterFailed \<and> length vs' \<le> Suc (length vs) \<and>
    written [m] + mset vs = got [m] + mset vs'"
proof -
  define q where "q = (case role of Writer \<Rightarrow> WriterTurn junk rnd krnd | Reader \<Rightarrow> ReaderTurn junk rnd)"
  have q: "request role junk rnd krnd d = rw_serve q d" by (cases role) (simp_all add: request_def q_def)
  have "sll_room (Suc 0) vs" using room by (simp add: sll_room_def)
  from rw_programs.serve_ok [OF _ this, of d q] rep obtain d' ps' where
    s: "rw_serve q d = Some (fst (rw_spec q vs), d')" "sll_rep d' ps' (snd (rw_spec q vs))" by blast
  moreover have "fst (rw_spec q vs) \<noteq> WriterFailed" by (cases q) (auto simp: Let_def)
  moreover have "length (snd (rw_spec q vs)) \<le> Suc (length vs)"
    by (cases q) (auto simp: length_insert_after length_remove1 Let_def)
  moreover have "written [fst (rw_spec q vs)] + mset vs = got [fst (rw_spec q vs)] + mset (snd (rw_spec q vs))"
    using rw_spec_conserves [of "[q]" vs] by (simp add: split_beta)
  ultimately show ?thesis unfolding q by blast
qed

section \<open>Every step keeps the invariant\<close>

lemma sum_update: "j < length ts \<Longrightarrow> sum_list (List.map f (ts[j := t])) + f (ts ! j) = sum_list (List.map f ts) + (f t :: nat)"
proof (induction ts arbitrary: j)
  case (Cons a ts)
  then show ?case by (cases j) auto
qed simp

lemma key_inj: "role_of i = role_of j \<Longrightarrow> number_of i = number_of j \<Longrightarrow> i < 20 \<Longrightarrow> j < 20 \<Longrightarrow> i = j"
proof -
  have "k mod 10 = (if k < 10 then k else k - 10)" if "k < 20" for k :: nat using that by (simp add: le_mod_geq)
  moreover assume "role_of i = role_of j" "number_of i = number_of j" "i < 20" "j < 20"
  ultimately show ?thesis by (simp add: role_of_def number_of_def split: if_splits)
qed

lemma created_le: "pc_ok pc \<Longrightarrow> created pc \<le> 20" "pc_ok pc \<Longrightarrow> joined pc \<le> created pc"
  by (cases pc; auto)+

lemma threads_update:
  assumes inv: "threads_inv pc ids ts" and j: "j < length ts" and ok: "thread_ok j t" and turns: "turns (ts ! j) \<le> turns t"
  shows "threads_inv pc ids (ts[j := t])"
proof -
  have le: "turns t \<le> 100" using ok by (auto simp: thread_ok_def turns_def split: rw_phase.splits)
  have "turns (ts[j := t] ! i) = 100" if "i < joined pc" for i
  proof -
    have "turns (ts ! i) = 100" using inv that by (simp add: threads_inv_def)
    then show ?thesis using le turns j by (cases "i = j") simp_all
  qed
  moreover have "thread_ok i (ts[j := t] ! i)" if "i < length ts" for i
    using that inv ok by (cases "i = j") (simp_all add: threads_inv_def)
  ultimately show ?thesis using inv unfolding threads_inv_def by simp
qed

lemma thread_step_inv:
  assumes inv: "rw_inv s" and step: "thread_step j junk rnd krnd s = Some r"
  shows "\<exists>s'. r = Some s' \<and> rw_inv s' \<and> rw_rank s' < rw_rank s"
proof -
  let ?ts = "p_threads s" and ?t = "p_threads s ! j" and ?pc = "p_main s"
  have T: "threads_inv ?pc (p_id s) ?ts" and Lg: "log_inv ?ts (p_log s)" and D: "device_inv ?pc (p_dev s) (p_log s)" using inv by (simp_all add: rw_inv_def)
  have j: "j < length ?ts" using step by (simp add: thread_step_def split: if_splits)
  have pc: "pc_ok ?pc" "length ?ts = created ?pc" "\<forall>j < joined ?pc. turns (?ts ! j) = 100" and ok: "thread_ok j ?t" "p_id s ! (j mod 10) = number_of j"
    using T j by (simp_all add: threads_inv_def)
  have ids: "length (p_id s) = 10" using T j pc by (cases ?pc) (auto simp: threads_inv_def)
  have j20: "j < 20" "length ?ts \<le> 20" using j pc created_le by fastforce+
  show ?thesis
  proof (cases "t_phase ?t")
    case Born
    let ?t' = "?t\<lparr>t_phase := Loops (number_of j) 0\<rparr>" and ?s = "s\<lparr>p_threads := ?ts[j := ?t\<lparr>t_phase := Loops (number_of j) 0\<rparr>]\<rparr>"
    have "arr_get (p_id s) (int (t_arg ?t)) = Some (number_of j)" using ok ids by (simp add: thread_ok_def)
    then have r: "r = Some ?s" using step j Born by (simp add: thread_step_def)
    have "threads_inv ?pc (p_id s) (?ts[j := ?t'])"
      by (rule threads_update [OF T j]) (use ok Born in \<open>simp_all add: thread_ok_def turns_def\<close>)
    moreover have same: "turns (?ts[j := ?t'] ! i) = turns (?ts ! i)" if "i < length ?ts" for i
      using that j Born by (cases "i = j") (simp_all add: turns_def)
    moreover have "sum_list (List.map turns (?ts[j := ?t'])) = sum_list (List.map turns ?ts)"
      using sum_update [OF j, of turns ?t'] Born by (simp add: turns_def)
    ultimately have "rw_inv ?s" using Lg D by (simp add: rw_inv_def log_inv_def)
    moreover have "rw_rank ?s < rw_rank s" using sum_update [OF j, of thread_rank ?t'] Born by (simp add: rw_rank_def thread_rank_def)
    ultimately show ?thesis using r by blast
  next
    case (Loops v k)
    have k: "k < 100" and v: "v = number_of j" "t_role ?t = role_of j"
      using step j Loops ok by (auto simp: thread_step_def Let_def NUMLOOP_def thread_ok_def split: if_splits)
    have alive: "?pc \<noteq> MDone x" for x using pc j Loops k by (auto simp: turns_def)
    from D alive obtain ps vs where d: "sll_rep (p_dev s) ps vs" "length vs \<le> length (p_log s)"
      "written (messages (p_log s)) = got (messages (p_log s)) + mset vs" unfolding device_inv_def by blast
    have "turns (?ts ! i) \<le> 100" if "i < length ?ts" for i
      using T that by (auto simp: threads_inv_def thread_ok_def turns_def split: rw_phase.splits)
    then have "sum_list (List.map turns ?ts) \<le> sum_list (List.map (\<lambda>_. 100) ?ts)"
      by (intro sum_list_mono) (metis in_set_conv_nth)
    also have "\<dots> \<le> 2000" using j20 by (simp add: sum_list_triv)
    finally have "length (p_log s) \<le> 2000" using Lg by (simp add: log_inv_def)
    with d(2) have "Suc (length vs) < 2 ^ 32" by simp
    from request_effect [OF d(1) this, of "role_of j" junk rnd krnd] obtain m d' ps' vs' where
      m: "request (role_of j) junk rnd krnd (p_dev s) = Some (m, d')" "sll_rep d' ps' vs'" "m \<noteq> WriterFailed" "length vs' \<le> Suc (length vs)"
        "written [m] + mset vs = got [m] + mset vs'" by blast
    let ?t' = "?t\<lparr>t_phase := Loops v (Suc k)\<rparr>" and ?l = "p_log s @ [(role_of j, v, m)]"
    let ?s = "s\<lparr>p_dev := d', p_threads := ?ts[j := ?t\<lparr>t_phase := Loops v (Suc k)\<rparr>], p_log := p_log s @ [(role_of j, v, m)]\<rparr>"
    have r: "r = Some ?s" using step j Loops m(1) v k by (simp add: thread_step_def NUMLOOP_def)
    have "threads_inv ?pc (p_id s) (?ts[j := ?t'])"
      by (rule threads_update [OF T j]) (use ok Loops k in \<open>simp_all add: thread_ok_def turns_def\<close>)
    moreover have "log_inv (?ts[j := ?t']) ?l"
    proof -
      have "length (filter (\<lambda>(r, v, m). r = role_of i \<and> v = number_of i) ?l) = turns (?ts[j := ?t'] ! i)" if i: "i < length ?ts" for i
        using i Lg j Loops v key_inj [of i j] j20 by (cases "i = j") (auto simp: log_inv_def turns_def)
      moreover have "length ?l = sum_list (List.map turns (?ts[j := ?t']))"
        using sum_update [OF j, of turns ?t'] Lg Loops by (simp add: log_inv_def turns_def)
      ultimately show ?thesis using Lg m(3) j v by (auto simp: log_inv_def)
    qed
    moreover have "device_inv ?pc d' ?l"
    proof -
      have "written (messages ?l) = got (messages ?l) + mset vs'" using d(3) m(5) by (simp add: ac_simps)
      moreover have "length vs' \<le> length ?l" using m(4) d(2) by simp
      ultimately show ?thesis using m(2) alive unfolding device_inv_def by (metis mset_subset_eq_add_left)
    qed
    ultimately have "rw_inv ?s" by (simp add: rw_inv_def)
    moreover have "rw_rank ?s < rw_rank s" using sum_update [OF j, of thread_rank ?t'] Loops k by (simp add: rw_rank_def thread_rank_def)
    ultimately show ?thesis using r by blast
  qed
qed

text \<open>The steps of \<open>main\<close>.\<close>

lemma device_pc: "device_inv pc d l \<Longrightarrow> (\<And>r. pc \<noteq> MDone r) \<Longrightarrow> (\<And>r. pc' \<noteq> MDone r) \<Longrightarrow> device_inv pc' d l"
  unfolding device_inv_def by blast

lemma create_threads:
  assumes inv: "threads_inv pc ids ts" and ids: "length ids = 10" and n: "length ts < 20"
    and pc': "created pc' = Suc (length ts)" "joined pc' = 0" "pc_ok pc'"
  shows "threads_inv pc' (ids[length ts mod 10 := int (length ts mod 10) + 1])
    (ts @ [\<lparr>t_role = role_of (length ts), t_arg = length ts mod 10, t_phase = Born\<rparr>])"
proof -
  let ?n = "length ts" and ?t = "\<lparr>t_role = role_of (length ts), t_arg = length ts mod 10, t_phase = Born\<rparr>"
  let ?ids = "ids[?n mod 10 := int (?n mod 10) + 1]"
  have "thread_ok j ((ts @ [?t]) ! j) \<and> ?ids ! (j mod 10) = number_of j" if "j < Suc ?n" for j
  proof (cases "j = ?n")
    case True
    with ids show ?thesis by (simp add: thread_ok_def number_of_def)
  next
    case False
    with that have "j < ?n" by simp
    with inv ids show ?thesis
      by (cases "j mod 10 = ?n mod 10") (simp_all add: threads_inv_def nth_append number_of_def)
  qed
  with ids pc' show ?thesis by (simp add: threads_inv_def)
qed

lemma create_log:
  assumes inv: "log_inv ts l" and n: "length ts < 20" and t: "t_phase t = Born"
  shows "log_inv (ts @ [t]) l"
proof -
  have none: "filter (\<lambda>(r, v, m). r = role_of (length ts) \<and> v = number_of (length ts)) l = []"
  proof (rule filter_False, safe)
    fix r v m
    assume "(role_of (length ts), number_of (length ts), m) \<in> set l"
    with inv obtain j where "j < length ts" "role_of (length ts) = role_of j" "number_of (length ts) = number_of j" by (force simp: log_inv_def)
    with key_inj [of "length ts" j] n show False by simp
  qed
  have "length (filter (\<lambda>(r, v, m). r = role_of j \<and> v = number_of j) l) = turns ((ts @ [t]) ! j)" if "j < Suc (length ts)" for j
    using that inv none t by (cases "j = length ts") (simp_all add: log_inv_def nth_append turns_def)
  moreover have "\<exists>j < Suc (length ts). r = role_of j \<and> v = number_of j" if "(r, v, m) \<in> set l" for r v m
  proof -
    from inv that obtain j where "j < length ts" "r = role_of j" "v = number_of j" by (force simp: log_inv_def)
    then show ?thesis by (intro exI [of _ j]) simp
  qed
  moreover have "length l = sum_list (List.map turns (ts @ [t]))" "WriterFailed \<notin> set (messages l)"
    using inv t by (simp_all add: log_inv_def turns_def)
  ultimately show ?thesis unfolding log_inv_def by simp blast
qed

lemma create_step:
  assumes inv: "rw_inv s" and n: "length (p_threads s) = b + i" "i < 10" "(role = Reader \<and> b = 0) \<or> (role = Writer \<and> b = 10)"
    and pc: "p_main s \<noteq> MOpen" "\<And>r. p_main s \<noteq> MDone r"
    and pc': "created pc' = Suc (b + i)" "joined pc' = 0" "pc_ok pc'" "\<And>r. pc' \<noteq> MDone r" "main_rank pc' < main_rank (p_main s)"
  shows "\<exists>s'. map_option (\<lambda>s. s\<lparr>p_main := pc'\<rparr>) (create role i s) = Some s' \<and> rw_inv s' \<and> rw_rank s' < rw_rank s"
proof -
  let ?ts = "p_threads s"
  have T: "threads_inv (p_main s) (p_id s) ?ts" and Lg: "log_inv ?ts (p_log s)" and D: "device_inv (p_main s) (p_dev s) (p_log s)" using inv by (simp_all add: rw_inv_def)
  have m: "length ?ts mod 10 = i" "role_of (length ?ts) = role" "length ?ts < 20" using n by (auto simp: role_of_def)
  have ids: "length (p_id s) = 10" using T pc by (simp add: threads_inv_def)
  let ?t = "\<lparr>t_role = role, t_arg = i, t_phase = Born\<rparr>"
  let ?s = "s\<lparr>p_id := (p_id s)[i := int i + 1], p_threads := p_threads s @ [\<lparr>t_role = role, t_arg = i, t_phase = Born\<rparr>], p_main := pc'\<rparr>"
  have "map_option (\<lambda>s. s\<lparr>p_main := pc'\<rparr>) (create role i s) = Some ?s" using ids n(2) by (simp add: create_def)
  moreover have "threads_inv pc' ((p_id s)[i := int i + 1]) (?ts @ [?t])"
    using create_threads [OF T ids m(3), of pc'] pc' n(1) m by simp
  moreover have "log_inv (?ts @ [?t]) (p_log s)" by (rule create_log [OF Lg m(3)]) simp
  moreover have "device_inv pc' (p_dev s) (p_log s)" by (rule device_pc [OF D pc(2) pc'(4)])
  moreover have "(20 - length ?ts) * 101 = (20 - Suc (length ?ts)) * 101 + 101" using m(3) by linarith
  ultimately show ?thesis using pc'(5) by (intro exI [of _ ?s]) (simp add: rw_inv_def rw_rank_def thread_rank_def)
qed

text \<open>A step that changes the program counter only.\<close>

lemma goto_step:
  assumes inv: "rw_inv s" and pc: "\<And>r. p_main s \<noteq> MDone r" "p_main s \<noteq> MOpen" and pc': "pc_ok pc'" "\<And>r. pc' \<noteq> MDone r" "pc' \<noteq> MOpen"
    and same: "created pc' = created (p_main s)" "\<forall>j < joined pc'. turns (p_threads s ! j) = 100" "main_rank pc' < main_rank (p_main s)"
  shows "rw_inv (s\<lparr>p_main := pc'\<rparr>) \<and> rw_rank (s\<lparr>p_main := pc'\<rparr>) < rw_rank s"
  using assms device_pc [of "p_main s" "p_dev s" "p_log s" pc'] by (simp add: rw_inv_def threads_inv_def rw_rank_def)

lemma join_step:
  assumes inv: "rw_inv s" and pc: "\<And>r. p_main s \<noteq> MDone r" "p_main s \<noteq> MOpen" "created (p_main s) = 20" "joined (p_main s) = j"
    and pc': "pc_ok pc'" "\<And>r. pc' \<noteq> MDone r" "pc' \<noteq> MOpen" "created pc' = 20" "joined pc' = Suc j" "main_rank pc' < main_rank (p_main s)" "j < 20"
    and step: "join j pc' s = Some r"
  shows "\<exists>s'. r = Some s' \<and> rw_inv s' \<and> rw_rank s' < rw_rank s"
proof -
  have T: "length (p_threads s) = 20" "\<forall>i < j. turns (p_threads s ! i) = 100" using inv pc by (simp_all add: rw_inv_def threads_inv_def)
  then have r: "r = Some (s\<lparr>p_main := pc'\<rparr>)" "ended (p_threads s ! j)" using step pc'(7) by (auto simp: join_def split: if_splits)
  then have "turns (p_threads s ! j) = 100" by (auto simp: ended_def turns_def NUMLOOP_def split: rw_phase.splits)
  with T(2) have "\<forall>i < joined pc'. turns (p_threads s ! i) = 100" using pc'(5) by (auto simp: less_Suc_eq)
  with goto_step [OF inv pc(1,2) pc'(1-3)] pc(3) pc'(4,6) r(1) show ?thesis by simp
qed

lemma main_step_inv:
  assumes inv: "rw_inv s" and step: "main_step found junk s = Some r"
  shows "\<exists>s'. r = Some s' \<and> rw_inv s' \<and> rw_rank s' < rw_rank s"
proof -
  have T: "threads_inv (p_main s) (p_id s) (p_threads s)" and Lg: "log_inv (p_threads s) (p_log s)" and D: "device_inv (p_main s) (p_dev s) (p_log s)"
    using inv by (simp_all add: rw_inv_def)
  have len: "pc_ok (p_main s)" "length (p_threads s) = created (p_main s)" using T by (simp_all add: threads_inv_def)
  show ?thesis
  proof (cases "p_main s")
    case MOpen
    then have e: "p_threads s = []" "p_log s = []" using len Lg by (auto simp: log_inv_def)
    then have "r = Some (if found then s\<lparr>p_main := MCreateR 0, p_dev := p_dev s, p_id := List.map junk [0..<10]\<rparr> else s\<lparr>p_main := MDone (- 1)\<rparr>)"
      using step MOpen by (cases s) (auto simp: main_step_def dummy_open_def NUMREAD_def NUMWRITE_def)
    moreover have "device_inv (MDone (- 1)) (p_dev s) []" "device_inv (MCreateR 0) (p_dev s) []" using D e MOpen by (auto simp: device_inv_def)
    ultimately show ?thesis using e MOpen Lg by (auto simp: rw_inv_def threads_inv_def rw_rank_def)
  next
    case (MCreateR i)
    show ?thesis
    proof (cases "i < 10")
      case True
      then have "main_rank (MCreateR (Suc i)) < main_rank (p_main s)" using MCreateR by simp
      with True this create_step [OF inv, of 0 i Reader "MCreateR (Suc i)"] len MCreateR step show ?thesis by (auto simp: main_step_def NUMREAD_def)
    next
      case False
      with goto_step [OF inv, of "MCreateW 0"] len MCreateR step show ?thesis by (auto simp: main_step_def NUMREAD_def)
    qed
  next
    case (MCreateW i)
    show ?thesis
    proof (cases "i < 10")
      case True
      then have "main_rank (MCreateW (Suc i)) < main_rank (p_main s)" using MCreateW by simp
      with True this create_step [OF inv, of 10 i Writer "MCreateW (Suc i)"] len MCreateW step show ?thesis by (auto simp: main_step_def NUMWRITE_def)
    next
      case False
      with goto_step [OF inv, of "MJoinR 0"] len MCreateW step show ?thesis by (auto simp: main_step_def NUMWRITE_def)
    qed
  next
    case (MJoinR i)
    show ?thesis
    proof (cases "i < 10")
      case True
      then have "main_rank (MJoinR (Suc i)) < main_rank (p_main s)" using MJoinR by simp
      with True this join_step [OF inv, of i "MJoinR (Suc i)" r] len MJoinR step show ?thesis by (auto simp: main_step_def NUMREAD_def)
    next
      case False
      with goto_step [OF inv, of "MJoinW 0"] T len MJoinR step show ?thesis by (auto simp: main_step_def NUMREAD_def threads_inv_def)
    qed
  next
    case (MJoinW i)
    show ?thesis
    proof (cases "i < 10")
      case True
      then have "main_rank (MJoinW (Suc i)) < main_rank (p_main s)" using MJoinW by simp
      with True this join_step [OF inv, of "10 + i" "MJoinW (Suc i)" r] len MJoinW step show ?thesis by (auto simp: main_step_def NUMREAD_def NUMWRITE_def)
    next
      case False
      with goto_step [OF inv, of MClose] T len MJoinW step show ?thesis by (auto simp: main_step_def NUMWRITE_def threads_inv_def)
    qed
  next
    case MClose
    from D obtain ps vs where "sll_rep (p_dev s) ps vs" and m: "got (messages (p_log s)) \<subseteq># written (messages (p_log s))" by (auto simp: device_inv_def)
    from release_refines [OF this(1)] obtain d where d: "releaseSll (p_dev s) = Some d" "sll_rep d [] []" by blast
    then have "r = Some (s\<lparr>p_dev := d, p_main := MDone 0\<rparr>)" using step MClose by (simp add: main_step_def dummy_release_def)
    moreover have "device_inv (MDone 0) d (p_log s)" using d(2) m unfolding device_inv_def by fastforce
    ultimately show ?thesis using MClose T Lg by (auto simp: rw_inv_def threads_inv_def rw_rank_def)
  next
    case (MDone x)
    with step show ?thesis by (auto simp: main_step_def)
  qed
qed

lemma rw_step_inv: "rw_inv s \<Longrightarrow> rw_step m s = Some r \<Longrightarrow> \<exists>s'. r = Some s' \<and> rw_inv s' \<and> rw_rank s' < rw_rank s"
  using main_step_inv thread_step_inv by (cases m) simp_all

lemma rw_inv_start: "rw_inv rw_start"
proof -
  have "device_inv MOpen sll_loaded []" using loaded_rep unfolding device_inv_def by fastforce
  then show ?thesis by (simp add: rw_inv_def rw_start_def threads_inv_def log_inv_def)
qed

definition rw_fine :: "rw_prog option \<Rightarrow> bool" where
  "rw_fine t \<longleftrightarrow> (\<exists>s. t = Some s \<and> rw_inv s)"

definition rw_left :: "rw_prog option \<Rightarrow> nat" where
  "rw_left t = (case t of None \<Rightarrow> 0 | Some s \<Rightarrow> rw_rank s)"

interpretation rw_program: terminating_system "(=) (Some rw_start)" "moves rw_goes" rw_fine rw_left
proof
  show "rw_fine t" if "Some rw_start = t" for t using that rw_inv_start by (auto simp: rw_fine_def)
  show "rw_fine t'" "rw_left t' < rw_left t" if "moves rw_goes t t'" "rw_fine t" for t t'
    using that rw_step_inv by (fastforce simp: moves_def rw_goes_def rw_fine_def rw_left_def)+
qed

text \<open>When nothing can move, \<open>main\<close> has returned.\<close>

lemma rw_progress:
  assumes inv: "rw_inv s" and stuck: "\<forall>m. rw_step m s = None"
  shows "\<exists>r. p_main s = MDone r"
proof (rule ccontr)
  assume run: "\<nexists>r. p_main s = MDone r"
  have T: "threads_inv (p_main s) (p_id s) (p_threads s)" using inv by (simp add: rw_inv_def)
  have main: "main_step True (\<lambda>_. 0) s = None" using stuck by (metis rw_step.simps(1))
  have "\<exists>j pc. j < length (p_threads s) \<and> join j pc s = None"
  proof (cases "p_main s")
    case (MJoinR i)
    with main T show ?thesis by (auto simp: main_step_def threads_inv_def NUMREAD_def split: if_splits intro!: exI [of _ i])
  next
    case (MJoinW i)
    with main T show ?thesis by (auto simp: main_step_def threads_inv_def NUMREAD_def NUMWRITE_def split: if_splits intro!: exI [of _ "10 + i"])
  qed (use main run in \<open>auto simp: main_step_def split: if_splits\<close>)
  then obtain j where j: "j < length (p_threads s)" "\<not> ended (p_threads s ! j)" by (auto simp: join_def split: if_splits)
  then have "thread_ok j (p_threads s ! j)" using T by (simp add: threads_inv_def)
  with j have "thread_step j (0, 0, 0, 0) 0 0 s \<noteq> None"
    by (auto simp: thread_step_def Let_def ended_def thread_ok_def NUMLOOP_def split: rw_phase.splits)
  with stuck show False by (metis rw_step.simps(2))
qed

section \<open>The theorem\<close>

lemma all_joined:
  assumes inv: "rw_inv s" and main: "p_main s = MDone 0"
  shows "length (p_log s) = 2000" "i \<in> {1..10} \<Longrightarrow> length (filter (\<lambda>(r, v, m). r = role \<and> v = i) (p_log s)) = 100"
proof -
  let ?ts = "p_threads s"
  have T: "length ?ts = 20" "\<forall>j < 20. turns (?ts ! j) = 100" using inv main by (simp_all add: rw_inv_def threads_inv_def)
  then have "List.map turns ?ts = replicate 20 100" by (simp add: list_eq_iff_nth_eq)
  then have "sum_list (List.map turns ?ts) = 2000" by (simp add: sum_list_replicate)
  with inv show "length (p_log s) = 2000" by (simp add: rw_inv_def log_inv_def)
  assume i: "i \<in> {1..10}"
  define j where "j = (if role = Reader then nat i - 1 else nat i + 9)"
  have j: "j < 20" "role_of j = role" "number_of j = i"
    using i by (cases role; auto simp: j_def role_of_def number_of_def le_mod_geq)+
  have "length (filter (\<lambda>(r, v, m). r = role_of j \<and> v = number_of j) (p_log s)) = 100"
    using inv T j(1) by (simp add: rw_inv_def log_inv_def)
  then show "length (filter (\<lambda>(r, v, m). r = role \<and> v = i) (p_log s)) = 100" unfolding j(2,3) .
qed

text \<open>C14. The readers and writers with \<open>main\<close>: every execution has at most 2066 steps, none of them undefined, and one that cannot go on
  has ended: when the device was not found, at once with -1, and otherwise with 0, after each of the ten readers and ten writers has made
  a hundred requests under its own number; no write has failed, everything read had been written, and the device holds no
  node any more.\<close>

theorem rw_program_ends:
  assumes "(moves rw_goes ^^ n) (Some rw_start) t"
  shows "n \<le> 2066 \<and> (\<exists>s. t = Some s \<and> ((\<forall>m. rw_goes m t = None) \<longrightarrow>
    p_main s = MDone (- 1) \<and> p_threads s = [] \<and> p_log s = [] \<or>
    p_main s = MDone 0 \<and> dom (sll_heap (p_dev s)) = {} \<and> length (p_log s) = 2000 \<and> WriterFailed \<notin> set (messages (p_log s)) \<and>
    got (messages (p_log s)) \<subseteq># written (messages (p_log s)) \<and>
    (\<forall>role. \<forall>i \<in> {1..10}. length (filter (\<lambda>(r, v, m). r = role \<and> v = i) (p_log s)) = 100)))"
proof -
  have fine: "rw_fine (Some rw_start)" using rw_inv_start by (simp add: rw_fine_def)
  from rw_program.bounded_executions [OF refl assms] have "n \<le> 2066" by (simp add: rw_left_def rw_rank_def rw_start_def)
  moreover from rw_program.relpowp_rank [OF assms fine] obtain s where s: "t = Some s" "rw_inv s" by (auto simp: rw_fine_def)
  moreover have "p_main s = MDone (- 1) \<and> p_threads s = [] \<and> p_log s = [] \<or>
    p_main s = MDone 0 \<and> dom (sll_heap (p_dev s)) = {} \<and> length (p_log s) = 2000 \<and> WriterFailed \<notin> set (messages (p_log s)) \<and>
    got (messages (p_log s)) \<subseteq># written (messages (p_log s)) \<and>
    (\<forall>role. \<forall>i \<in> {1..10}. length (filter (\<lambda>(r, v, m). r = role \<and> v = i) (p_log s)) = 100)" if "\<forall>m. rw_goes m t = None"
  proof -
    have "\<forall>m. rw_step m s = None" using that s(1) by (simp add: rw_goes_def)
    from rw_progress [OF s(2) this] obtain r where r: "p_main s = MDone r" by blast
    then have "r = 0 \<or> r = - 1" using s(2) by (auto simp: rw_inv_def threads_inv_def)
    then show ?thesis
    proof
      assume "r = 0"
      with r have 0: "p_main s = MDone 0" by simp
      then obtain ps where "sll_rep (p_dev s) ps []" "got (messages (p_log s)) \<subseteq># written (messages (p_log s))"
        using s(2) by (auto simp: rw_inv_def device_inv_def)
      moreover have "WriterFailed \<notin> set (messages (p_log s))" using s(2) by (simp add: rw_inv_def log_inv_def)
      ultimately show ?thesis using 0 all_joined [OF s(2) 0] by (auto simp: sll_rep_def)
    next
      assume "r = - 1"
      with r s(2) show ?thesis by (auto simp: rw_inv_def threads_inv_def log_inv_def)
    qed
  qed
  ultimately show ?thesis by blast
qed

text \<open>An execution in which the device is found.\<close>

lemma rw_opened:
  "(moves rw_goes ^^ n) (Some s) (Some s') \<Longrightarrow> rw_inv s \<Longrightarrow> p_main s \<notin> {MOpen, MDone (- 1)} \<Longrightarrow> p_main s' \<notin> {MOpen, MDone (- 1)}"
proof (induction n arbitrary: s')
  case (Suc n)
  then obtain t where t: "(moves rw_goes ^^ n) (Some s) t" "moves rw_goes t (Some s')" by auto
  then obtain u m where u: "t = Some u" "rw_step m u = Some (Some s')" by (auto simp: moves_def rw_goes_def split: option.splits)
  have "p_main u \<notin> {MOpen, MDone (- 1)}" using Suc t(1) u(1) by blast
  then show ?case
  proof (cases m)
    case (MainMove found junk)
    with u(2) \<open>p_main u \<notin> {MOpen, MDone (- 1)}\<close> show ?thesis
      by (auto simp: main_step_def join_def split: main_pc.splits if_splits)
  next
    case (ThreadMove j junk rnd krnd)
    with u(2) have "p_main s' = p_main u" by (auto simp: thread_step_def Let_def split: if_splits rw_phase.splits)
    with \<open>p_main u \<notin> {MOpen, MDone (- 1)}\<close> show ?thesis by simp
  qed
qed simp

theorem rw_program_ends_witness:
  "\<exists>n s. (moves rw_goes ^^ n) (Some rw_start) (Some s) \<and> n \<le> 2066 \<and> (\<forall>m. rw_goes m (Some s) = None)
    \<and> p_main s = MDone 0 \<and> length (p_log s) = 2000 \<and> dom (sll_heap (p_dev s)) = {}"
proof -
  obtain s1 where s1: "main_step True (\<lambda>_. 0) rw_start = Some (Some s1)" "p_main s1 = MCreateR 0" by (simp add: main_step_def rw_start_def)
  then have fine: "rw_inv s1" using main_step_inv [OF rw_inv_start s1(1)] by simp
  have first: "moves rw_goes (Some rw_start) (Some s1)" using s1(1) by (auto simp: moves_def rw_goes_def intro!: exI [of _ "MainMove True (\<lambda>_. 0)"])
  have "rw_fine (Some s1)" using fine by (simp add: rw_fine_def)
  from rw_program.runs_to_end [OF this] obtain n t where t: "(moves rw_goes ^^ n) (Some s1) t" "rw_fine t" "\<nexists>t'. moves rw_goes t t'" by blast
  then obtain s where s: "t = Some s" by (auto simp: rw_fine_def)
  have run: "(moves rw_goes ^^ Suc n) (Some rw_start) (Some s)" using relpowp_Suc_I2 [OF first t(1)] s by simp
  have stuck: "\<forall>m. rw_goes m (Some s) = None" using t(3) s unfolding moves_def by (metis not_Some_eq)
  have "p_main s \<noteq> MDone (- 1)" using rw_opened [of n s1 s] t(1) s fine s1(2) by simp
  with rw_program_ends [OF run] run stuck show ?thesis by (intro exI [of _ "Suc n"] exI [of _ s]) simp
qed

end
