(* ===== verification/LedDrivers.thy ===== *)
theory LedDrivers
  imports Prelude
begin

unbundle bit_operations_syntax

text \<open>
  The four LED modules of \<open>src/project5/task2_1\<close> to \<open>task2_4\<close> for a board with four LEDs and a button. The board
  is a state of its own: the requested and output GPIOs, their levels, the kernel timers the modules use and the clock in
  jiffies. Adding a timer that is already pending, or initialising one, is an error of the kernel interface and has no
  result. \<open>HZ\<close> is a parameter, and so are the GPIO numbers that are valid and free. The theorems: the LEDs
  of task 2 blink with their own periods, the button of task 3 starts and stops them without ever adding a
  timer twice, and the LEDs of task 4 show the number of short clicks in binary for four fifths of every second.
\<close>

section \<open>The board\<close>

record ktimer =
  t_expires :: nat
  t_data :: nat
  t_pending :: bool

record board =
  bd_requested :: "int list"
  bd_output :: "int \<Rightarrow> bool"
  bd_value :: "int \<Rightarrow> int"
  timerFactor :: "ktimer list"
  bd_irq :: bool
  jiffies :: nat

definition NUM_LED :: nat where "NUM_LED = 4"
definition LED0_GPIO :: int where "LED0_GPIO = 53"
definition BUTTON_GPIO :: int where "BUTTON_GPIO = 72"

text \<open>The environment: valid GPIO numbers, numbers nobody else uses, and the frequency of the clock.\<close>

record board_env =
  gpio_is_valid :: "int \<Rightarrow> bool"
  gpio_available :: "int \<Rightarrow> bool"
  HZ :: nat

definition gpio_request :: "board_env \<Rightarrow> int \<Rightarrow> 'a board_scheme \<Rightarrow> int \<times> 'a board_scheme" where
  "gpio_request e g s =
     (if gpio_available e g \<and> g \<notin> set (bd_requested s) then (0, s\<lparr>bd_requested := g # bd_requested s\<rparr>) else (- 16, s))"

definition gpio_free :: "int \<Rightarrow> 'a board_scheme \<Rightarrow> 'a board_scheme" where
  "gpio_free g s = s\<lparr>bd_requested := removeAll g (bd_requested s)\<rparr>"

definition gpio_set_value :: "int \<Rightarrow> int \<Rightarrow> 'a board_scheme \<Rightarrow> 'a board_scheme" where
  "gpio_set_value g v s = s\<lparr>bd_value := (bd_value s)(g := v)\<rparr>"

definition gpio_direction_output :: "int \<Rightarrow> int \<Rightarrow> 'a board_scheme \<Rightarrow> 'a board_scheme" where
  "gpio_direction_output g v s = s\<lparr>bd_output := (bd_output s)(g := True), bd_value := (bd_value s)(g := v)\<rparr>"

definition gpio_direction_input :: "int \<Rightarrow> 'a board_scheme \<Rightarrow> 'a board_scheme" where
  "gpio_direction_input g s = s\<lparr>bd_output := (bd_output s)(g := False)\<rparr>"

definition timer_upd :: "nat \<Rightarrow> (ktimer \<Rightarrow> ktimer) \<Rightarrow> 'a board_scheme \<Rightarrow> 'a board_scheme option" where
  "timer_upd i f s = (if i < length (timerFactor s) then Some (s\<lparr>timerFactor := (timerFactor s)[i := f (timerFactor s ! i)]\<rparr>) else None)"

definition init_timer :: "nat \<Rightarrow> 'a board_scheme \<Rightarrow> 'a board_scheme option" where
  "init_timer i s = (if i < length (timerFactor s) \<and> \<not> t_pending (timerFactor s ! i) then Some s else None)"

definition add_timer :: "nat \<Rightarrow> 'a board_scheme \<Rightarrow> 'a board_scheme option" where
  "add_timer i s = (if i < length (timerFactor s) \<and> \<not> t_pending (timerFactor s ! i)
     then timer_upd i (\<lambda>t. t\<lparr>t_pending := True\<rparr>) s else None)"

definition del_timer :: "nat \<Rightarrow> 'a board_scheme \<Rightarrow> 'a board_scheme option" where
  "del_timer i s = timer_upd i (\<lambda>t. t\<lparr>t_pending := False\<rparr>) s"

text \<open>The kernel runs the handler of a timer that has expired, after taking it off its list. A jiffy
  advances the clock and runs the expired timers.\<close>

definition run_timer :: "(nat \<Rightarrow> 'a board_scheme \<Rightarrow> 'a board_scheme option) \<Rightarrow> nat \<Rightarrow> 'a board_scheme \<Rightarrow> 'a board_scheme option" where
  "run_timer handler i s =
     (let t = timerFactor s ! i
      in if i < length (timerFactor s) \<and> t_pending t \<and> t_expires t \<le> jiffies s
         then Option.bind (del_timer i s) (handler (t_data t)) else Some s)"

definition jiffy :: "(nat \<Rightarrow> 'a board_scheme \<Rightarrow> 'a board_scheme option) \<Rightarrow> 'a board_scheme \<Rightarrow> 'a board_scheme option" where
  "jiffy handler s = each (run_timer handler) [0..<length (timerFactor s)] (s\<lparr>jiffies := jiffies s + 1\<rparr>)"

definition leds :: "int list" where
  "leds = map (\<lambda>i. LED0_GPIO + int i) [0..<NUM_LED]"

section \<open>Task 1: all LEDs on while the module is loaded\<close>

text \<open>An invalid number ends the function, a number that is taken is skipped.\<close>

fun request_leds :: "board_env \<Rightarrow> int list \<Rightarrow> 'a board_scheme \<Rightarrow> 'a board_scheme" where
  "request_leds e [] s = s"
| "request_leds e (g # gs) s =
     (if \<not> gpio_is_valid e g then s
      else let (ret, s) = gpio_request e g s
           in if ret < 0 then request_leds e gs s
              else request_leds e gs (gpio_direction_output g 0 s))"

definition t21_init_gpios :: "board_env \<Rightarrow> 'a board_scheme \<Rightarrow> 'a board_scheme" where
  "t21_init_gpios e s = request_leds e leds s"

definition turnOnLEDs :: "'a board_scheme \<Rightarrow> 'a board_scheme" where
  "turnOnLEDs s = fold (\<lambda>g. gpio_set_value g 1) leds s"

definition turnOffLEDS :: "'a board_scheme \<Rightarrow> 'a board_scheme" where
  "turnOffLEDS s = fold (\<lambda>g. gpio_set_value g 0) leds s"

definition t21_free_gpios :: "'a board_scheme \<Rightarrow> 'a board_scheme" where
  "t21_free_gpios s = fold gpio_free leds s"

definition t21_module_init :: "board_env \<Rightarrow> 'a board_scheme \<Rightarrow> int \<times> 'a board_scheme" where
  "t21_module_init e s = (0, turnOnLEDs (t21_init_gpios e s))"

definition t21_module_exit :: "'a board_scheme \<Rightarrow> 'a board_scheme" where
  "t21_module_exit s = t21_free_gpios (turnOffLEDS s)"

section \<open>Task 2: every LED blinks with its own period\<close>

definition t22_init_gpios :: "board_env \<Rightarrow> 'a board_scheme \<Rightarrow> 'a board_scheme" where
  "t22_init_gpios e s = request_leds e leds s"

definition t22_timer_timeout :: "board_env \<Rightarrow> nat \<Rightarrow> 'a board_scheme \<Rightarrow> 'a board_scheme option" where
  "t22_timer_timeout e ptr s =
     (if ptr < 4 then do {
        let target = LED0_GPIO + int ptr;
        let cur = bd_value s target;
        let s = (if cur = 0 then gpio_set_value target 1 s else gpio_set_value target 0 s);
        s \<leftarrow> timer_upd ptr (\<lambda>t. t\<lparr>t_expires := jiffies s + (ptr + 1) * HZ e div 10\<rparr>) s;
        add_timer ptr s
      }
      else Some s)"

definition t22_start_timer :: "board_env \<Rightarrow> 'a board_scheme \<Rightarrow> 'a board_scheme option" where
  "t22_start_timer e s =
     each (\<lambda>i s. do {
       s \<leftarrow> init_timer i s;
       s \<leftarrow> timer_upd i (\<lambda>t. t\<lparr>t_expires := jiffies s + (i + 1) * HZ e div 10, t_data := i\<rparr>) s;
       add_timer i s
     }) [0..<NUM_LED] s"

definition t22_stop_timer :: "'a board_scheme \<Rightarrow> 'a board_scheme option" where
  "t22_stop_timer s =
     each (\<lambda>i s. do {
       s \<leftarrow> del_timer i s;
       Some (gpio_set_value (LED0_GPIO + int i) 0 s)
     }) [0..<NUM_LED] s"

definition t22_free_gpios :: "'a board_scheme \<Rightarrow> 'a board_scheme" where
  "t22_free_gpios s = fold gpio_free leds s"

definition t22_module_init :: "board_env \<Rightarrow> 'a board_scheme \<Rightarrow> (int \<times> 'a board_scheme) option" where
  "t22_module_init e s = do { s \<leftarrow> t22_start_timer e (t22_init_gpios e s); Some (0, s) }"

definition t22_module_exit :: "'a board_scheme \<Rightarrow> 'a board_scheme option" where
  "t22_module_exit s = do { s \<leftarrow> t22_stop_timer s; Some (t22_free_gpios s) }"

section \<open>Task 3: the button starts and stops the blinking\<close>

record board3 = board +
  timerActivated :: int

text \<open>This module does not test the validity of a number; a number that is taken is skipped.\<close>

fun t23_request_leds :: "board_env \<Rightarrow> int list \<Rightarrow> 'a board_scheme \<Rightarrow> 'a board_scheme" where
  "t23_request_leds e [] s = s"
| "t23_request_leds e (g # gs) s =
     (let (ret, s) = gpio_request e g s
      in if ret < 0 then t23_request_leds e gs s
         else t23_request_leds e gs (gpio_direction_output g 0 s))"

text \<open>The last argument says whether \<open>request_irq\<close> succeeds.\<close>

definition t23_init_gpios :: "board_env \<Rightarrow> bool \<Rightarrow> 'a board_scheme \<Rightarrow> 'a board_scheme" where
  "t23_init_gpios e irq_ok s =
     (let s = t23_request_leds e leds s;
          s = snd (gpio_request e BUTTON_GPIO s);
          s = gpio_direction_input BUTTON_GPIO s
      in if irq_ok then s\<lparr>bd_irq := True\<rparr> else s)"

definition t23_timer_timeout :: "board_env \<Rightarrow> nat \<Rightarrow> 'a board_scheme \<Rightarrow> 'a board_scheme option" where
  "t23_timer_timeout e ptr s =
     (if ptr < 4 then do {
        let target = LED0_GPIO + int ptr;
        let cur = bd_value s target;
        let s = (if cur = 0 then gpio_set_value target 1 s else gpio_set_value target 0 s);
        s \<leftarrow> timer_upd ptr (\<lambda>t. t\<lparr>t_expires := jiffies s + (ptr + 1) * HZ e div 10\<rparr>) s;
        add_timer ptr s
      }
      else Some s)"

definition t23_start_timer :: "board_env \<Rightarrow> 'a board_scheme \<Rightarrow> 'a board_scheme option" where
  "t23_start_timer e s =
     each (\<lambda>i s. do {
       s \<leftarrow> init_timer i s;
       s \<leftarrow> timer_upd i (\<lambda>t. t\<lparr>t_expires := jiffies s + (i + 1) * HZ e div 10, t_data := i\<rparr>) s;
       add_timer i s
     }) [0..<NUM_LED] s"

definition t23_stop_timer :: "'a board_scheme \<Rightarrow> 'a board_scheme option" where
  "t23_stop_timer s =
     each (\<lambda>i s. do {
       s \<leftarrow> del_timer i s;
       Some (gpio_set_value (LED0_GPIO + int i) 0 s)
     }) [0..<NUM_LED] s"

text \<open>The interrupt handler, with the level of the button.\<close>

definition t23_button_isr :: "board_env \<Rightarrow> int \<Rightarrow> board3 \<Rightarrow> board3 option" where
  "t23_button_isr e level s =
     (if level = 0 then
        (if timerActivated s = 0 then do { s \<leftarrow> t23_start_timer e s; Some (s\<lparr>timerActivated := 1\<rparr>) }
         else do { s \<leftarrow> t23_stop_timer s; Some (s\<lparr>timerActivated := 0\<rparr>) })
      else Some s)"

definition t23_free_gpios :: "'a board_scheme \<Rightarrow> 'a board_scheme" where
  "t23_free_gpios s = (gpio_free BUTTON_GPIO (fold gpio_free leds s))\<lparr>bd_irq := False\<rparr>"

definition t23_module_init :: "board_env \<Rightarrow> bool \<Rightarrow> board3 \<Rightarrow> int \<times> board3" where
  "t23_module_init e irq_ok s = (0, t23_init_gpios e irq_ok s)"

definition t23_module_exit :: "board3 \<Rightarrow> board3 option" where
  "t23_module_exit s = do { s \<leftarrow> t23_stop_timer s; Some (t23_free_gpios s) }"

section \<open>Task 4: the LEDs show the number of clicks\<close>

record board4 = board +
  click_counter :: int
  startTime :: "64 word"

definition LIGHTUP :: nat where "LIGHTUP = 6"
definition LIGHTDOWN :: nat where "LIGHTDOWN = 7"
definition INT_MAX :: int where "INT_MAX = 2147483647"

definition t24_button_isr :: "board_env \<Rightarrow> int \<Rightarrow> board4 \<Rightarrow> board4" where
  "t24_button_isr e level s =
     (if level = 0 then s\<lparr>startTime := of_nat (jiffies s)\<rparr>
      else let duration = (of_nat (jiffies s) :: 64 word) - startTime s
           in if duration \<le> of_nat (HZ e)
              then (let s = s\<lparr>click_counter := click_counter s + 1\<rparr>
                    in if click_counter s = INT_MAX then s\<lparr>click_counter := 0\<rparr> else s)
              else s\<lparr>click_counter := 0\<rparr>)"

text \<open>A number that is taken is reported and then used as if it were not.\<close>

definition t24_init_gpios :: "board_env \<Rightarrow> bool \<Rightarrow> 'a board_scheme \<Rightarrow> 'a board_scheme" where
  "t24_init_gpios e irq_ok s =
     (let s = fold (\<lambda>g s. gpio_direction_output g 0 (snd (gpio_request e g s))) leds s;
          s = snd (gpio_request e BUTTON_GPIO s)
      in if irq_ok then s\<lparr>bd_irq := True\<rparr> else s)"

definition counter_bit :: "int \<Rightarrow> nat \<Rightarrow> bool" where
  "counter_bit c i \<longleftrightarrow> (c AND push_bit i 1) \<noteq> 0"

definition t24_timer_timeout :: "board_env \<Rightarrow> nat \<Rightarrow> board4 \<Rightarrow> board4 option" where
  "t24_timer_timeout e ptr s =
     Option.bind
       (if ptr = LIGHTDOWN then
          (let s = fold (\<lambda>i s. if counter_bit (click_counter s) i then gpio_set_value (LED0_GPIO + int i) 1 s else s) [0..<NUM_LED] s
           in timer_upd 0 (\<lambda>t. t\<lparr>t_expires := jiffies s + 8 * HZ e div 10, t_data := LIGHTUP\<rparr>) s)
        else if ptr = LIGHTUP then
          (let s = fold (\<lambda>g. gpio_set_value g 0) leds s
           in timer_upd 0 (\<lambda>t. t\<lparr>t_expires := jiffies s + 2 * HZ e div 10, t_data := LIGHTDOWN\<rparr>) s)
        else Some s)
       (add_timer 0)"

definition t24_start_timer :: "board_env \<Rightarrow> board4 \<Rightarrow> board4 option" where
  "t24_start_timer e s = do {
     s \<leftarrow> init_timer 0 s;
     s \<leftarrow> timer_upd 0 (\<lambda>t. t\<lparr>t_expires := jiffies s + 2 * HZ e div 10, t_data := LIGHTDOWN\<rparr>) s;
     add_timer 0 s
   }"

definition t24_stop_timer :: "board4 \<Rightarrow> board4 option" where
  "t24_stop_timer s = del_timer 0 (fold (\<lambda>g. gpio_set_value g 0) leds s)"

definition t24_free_gpios :: "'a board_scheme \<Rightarrow> 'a board_scheme" where
  "t24_free_gpios s = gpio_free BUTTON_GPIO ((fold gpio_free leds s)\<lparr>bd_irq := False\<rparr>)"

definition t24_module_init :: "board_env \<Rightarrow> bool \<Rightarrow> board4 \<Rightarrow> (int \<times> board4) option" where
  "t24_module_init e irq_ok s = do {
     s \<leftarrow> t24_start_timer e ((t24_init_gpios e irq_ok s)\<lparr>click_counter := 0\<rparr>);
     Some (0, s)
   }"

definition t24_module_exit :: "board4 \<Rightarrow> board4 option" where
  "t24_module_exit s = do { s \<leftarrow> t24_stop_timer s; Some (t24_free_gpios s) }"


section \<open>The board under the operations\<close>

lemmas board_ops = gpio_set_value_def gpio_direction_output_def gpio_direction_input_def gpio_free_def
  timer_upd_def init_timer_def add_timer_def del_timer_def

lemma leds_eq: "leds = [53, 54, 55, 56]"
  by (simp add: leds_def LED0_GPIO_def NUM_LED_def upt_rec)

lemma four: "[0..<NUM_LED] = [0, Suc 0, Suc (Suc 0), Suc (Suc (Suc 0))]"
  by (simp add: NUM_LED_def upt_rec)

lemma less_four: "i < 4 \<longleftrightarrow> i = 0 \<or> i = Suc 0 \<or> i = Suc (Suc 0) \<or> i = Suc (Suc (Suc 0))"
  by auto

lemma length_four: "length xs = 4 \<longleftrightarrow> (\<exists>a b c d. xs = [a, b, c, d])"
  by (auto simp: length_Suc_conv numeral_eq_Suc)

text \<open>Time passes.\<close>

fun elapse :: "(nat \<Rightarrow> 'a board_scheme \<Rightarrow> 'a board_scheme option) \<Rightarrow> nat \<Rightarrow> 'a board_scheme \<Rightarrow> 'a board_scheme option" where
  "elapse handler 0 s = Some s"
| "elapse handler (Suc n) s = Option.bind (elapse handler n s) (jiffy handler)"

definition free_board :: "board_env \<Rightarrow> 'a board_scheme \<Rightarrow> bool" where
  "free_board e s \<longleftrightarrow> (\<forall>g \<in> {53, 54, 55, 56, 72}. gpio_is_valid e g \<and> gpio_available e g \<and> g \<notin> set (bd_requested s))"

section \<open>Task 1\<close>

lemma request_leds_free:
  "free_board e s \<Longrightarrow> request_leds e leds s =
     s\<lparr>bd_requested := [56, 55, 54, 53] @ bd_requested s,
       bd_output := (bd_output s)(53 := True, 54 := True, 55 := True, 56 := True),
       bd_value := (bd_value s)(53 := 0, 54 := 0, 55 := 0, 56 := 0)\<rparr>"
  by (simp add: leds_eq free_board_def gpio_request_def gpio_direction_output_def)

text \<open>Loading and unloading the first module: the LEDs are on while it is loaded, off afterwards, and every GPIO is
  given back.\<close>

lemma t21_lights:
  assumes "free_board e s"
  shows "\<exists>s'. t21_module_init e s = (0, s') \<and> (\<forall>g \<in> set leds. bd_value s' g = 1 \<and> bd_output s' g) \<and>
    (\<forall>g \<in> set leds. bd_value (t21_module_exit s') g = 0) \<and> bd_requested (t21_module_exit s') = bd_requested s"
  using assms unfolding t21_module_init_def t21_init_gpios_def request_leds_free [OF assms]
  by (simp add: t21_module_exit_def turnOnLEDs_def turnOffLEDS_def t21_free_gpios_def leds_eq gpio_set_value_def
      gpio_free_def free_board_def)

section \<open>Task 2\<close>

definition period :: "board_env \<Rightarrow> nat \<Rightarrow> nat" where
  "period e i = (i + 1) * HZ e div 10"

lemma t22_start_ok:
  assumes "length (timerFactor s) = 4" "\<forall>t \<in> set (timerFactor s). \<not> t_pending t"
  shows "t22_start_timer e s = Some (s\<lparr>timerFactor := map (\<lambda>i. \<lparr>t_expires = jiffies s + period e i, t_data = i, t_pending = True\<rparr>) [0..<4]\<rparr>)"
proof -
  from assms(1) obtain a b c d where "timerFactor s = [a, b, c, d]" by (auto simp: length_four)
  with assms(2) show ?thesis
    unfolding t22_start_timer_def four by (simp add: board_ops period_def upt_rec)
qed

text \<open>LED \<open>i\<close> and its timer \<open>n\<close> jiffies after time \<open>t0\<close>.\<close>

definition led_at :: "board_env \<Rightarrow> nat \<Rightarrow> nat \<Rightarrow> nat \<Rightarrow> 'a board_scheme \<Rightarrow> bool" where
  "led_at e t0 n i s \<longleftrightarrow>
     timerFactor s ! i = \<lparr>t_expires = t0 + (n div period e i + 1) * period e i, t_data = i, t_pending = True\<rparr> \<and>
     bd_value s (LED0_GPIO + int i) = int (n div period e i mod 2)"

lemma next_expiry:
  assumes "0 < (p::nat)"
  shows "(n div p + 1) * p \<le> n + 1 \<longleftrightarrow> (n + 1) div p = n div p + 1"
    "(n + 1) div p = n div p + 1 \<Longrightarrow> n + 1 + p = ((n + 1) div p + 1) * p"
    "\<not> (n div p + 1) * p \<le> n + 1 \<Longrightarrow> (n + 1) div p = n div p"
proof -
  show "(n div p + 1) * p \<le> n + 1 \<longleftrightarrow> (n + 1) div p = n div p + 1"
    using assms by (metis div_less_iff_less_mult add.commute less_add_one linorder_not_less
        div_add1_eq Suc_eq_plus1 div_Suc le_add1 order_antisym not_less_eq_eq less_eq_div_iff_mult_less_eq mult.commute)
  show "n + 1 + p = ((n + 1) div p + 1) * p" if "(n + 1) div p = n div p + 1"
  proof -
    have "p dvd Suc n" using that assms by (simp add: div_Suc dvd_eq_mod_eq_0 split: if_splits)
    then show ?thesis by (auto simp: algebra_simps)
  qed
  show "(n + 1) div p = n div p" if "\<not> (n div p + 1) * p \<le> n + 1"
    using that assms \<open>(n div p + 1) * p \<le> n + 1 \<longleftrightarrow> (n + 1) div p = n div p + 1\<close> by (simp add: div_Suc split: if_splits)
qed

lemma run_timer_fires:
  "i < length (timerFactor s) \<Longrightarrow> timerFactor s ! i = t \<Longrightarrow> t_pending t \<Longrightarrow> t_expires t \<le> jiffies s \<Longrightarrow>
   run_timer h i s = h (t_data t) (s\<lparr>timerFactor := (timerFactor s)[i := t\<lparr>t_pending := False\<rparr>]\<rparr>)"
  by (simp add: run_timer_def del_timer_def timer_upd_def)

lemma run_timer_waits: "timerFactor s ! i = t \<Longrightarrow> \<not> t_pending t \<or> jiffies s < t_expires t \<Longrightarrow> run_timer h i s = Some s"
  by (auto simp: run_timer_def)

lemma t22_timeout_ok:
  "i < 4 \<Longrightarrow> i < length (timerFactor s) \<Longrightarrow> \<not> t_pending (timerFactor s ! i) \<Longrightarrow> t22_timer_timeout e i s =
     Some (s\<lparr>bd_value := (bd_value s)(LED0_GPIO + int i := if bd_value s (LED0_GPIO + int i) = 0 then 1 else 0),
       timerFactor := (timerFactor s)[i := (timerFactor s ! i)\<lparr>t_expires := jiffies s + period e i, t_pending := True\<rparr>]\<rparr>)"
  by (simp add: t22_timer_timeout_def board_ops period_def)

lemma t22_timer:
  assumes i: "i < 4" "length (timerFactor s) = 4" and p: "0 < period e i" and at: "led_at e t0 n i s" and now: "jiffies s = t0 + (n + 1)"
  shows "\<exists>s'. run_timer (t22_timer_timeout e) i s = Some s' \<and> led_at e t0 (n + 1) i s' \<and> length (timerFactor s') = 4
    \<and> jiffies s' = jiffies s \<and> (\<forall>j m. j \<noteq> i \<longrightarrow> led_at e t0 m j s' = led_at e t0 m j s)"
proof (cases "(n div period e i + 1) * period e i \<le> n + 1")
  case True
  note ex = next_expiry(1) [OF p, of n, THEN iffD1, OF True]
  have flip: "int ((n + 1) div period e i mod 2) = (if int (n div period e i mod 2) = 0 then 1 else 0)"
    unfolding ex by (auto simp: mod_Suc)
  let ?v = "if bd_value s (LED0_GPIO + int i) = 0 then 1 else (0::int)"
  let ?s' = "s\<lparr>bd_value := (bd_value s)(LED0_GPIO + int i := ?v), timerFactor := (timerFactor s)[i :=
      \<lparr>t_expires = jiffies s + period e i, t_data = i, t_pending = True\<rparr>]\<rparr>"
  have tm: "timerFactor s ! i = \<lparr>t_expires = t0 + (n div period e i + 1) * period e i, t_data = i, t_pending = True\<rparr>"
    using at by (simp add: led_at_def)
  have "t_expires (timerFactor s ! i) \<le> jiffies s" unfolding tm now using True by simp
  then have "run_timer (t22_timer_timeout e) i s = Some ?s'"
    using i tm by (subst run_timer_fires [OF _ tm]) (simp_all add: t22_timeout_ok)
  moreover have "led_at e t0 (n + 1) i ?s'"
  proof -
    have "jiffies s + period e i = t0 + ((n + 1) div period e i + 1) * period e i"
      using next_expiry(2) [OF p ex] now by linarith
    then show ?thesis using at flip i by (simp add: led_at_def)
  qed
  ultimately show ?thesis using i by (auto simp: led_at_def)
next
  case False
  have tm: "timerFactor s ! i = \<lparr>t_expires = t0 + (n div period e i + 1) * period e i, t_data = i, t_pending = True\<rparr>"
    using at by (simp add: led_at_def)
  have "run_timer (t22_timer_timeout e) i s = Some s" by (rule run_timer_waits [OF tm]) (use False now in simp)
  moreover have "led_at e t0 (n + 1) i s" using at next_expiry(3) [OF p False] by (simp add: led_at_def)
  ultimately show ?thesis using i by auto
qed

lemma t22_jiffy:
  assumes len: "length (timerFactor s) = 4" and now: "jiffies s = t0 + n" and p: "\<forall>i < 4. 0 < period e i"
    and at: "\<forall>i < 4. led_at e t0 n i s"
  shows "\<exists>s'. jiffy (t22_timer_timeout e) s = Some s' \<and> length (timerFactor s') = 4 \<and> jiffies s' = t0 + (n + 1)
    \<and> (\<forall>i < 4. led_at e t0 (n + 1) i s')"
proof -
  have "k \<le> 4 \<Longrightarrow> \<exists>s'. each (run_timer (t22_timer_timeout e)) [0..<k] (s\<lparr>jiffies := jiffies s + 1\<rparr>) = Some s'
      \<and> length (timerFactor s') = 4 \<and> jiffies s' = t0 + (n + 1)
      \<and> (\<forall>i < 4. led_at e t0 (if i < k then n + 1 else n) i s')" for k
  proof (induction k)
    case 0
    with len now at show ?case by (simp add: led_at_def)
  next
    case (Suc k)
    then obtain s1 where s1: "each (run_timer (t22_timer_timeout e)) [0..<k] (s\<lparr>jiffies := jiffies s + 1\<rparr>) = Some s1"
      "length (timerFactor s1) = 4" "jiffies s1 = t0 + (n + 1)" "\<forall>i < 4. led_at e t0 (if i < k then n + 1 else n) i s1" by auto
    have k: "k < 4" using Suc.prems by simp
    then have "led_at e t0 n k s1" using s1(4) by auto
    from t22_timer [OF k s1(2) _ this s1(3)] p k obtain s2 where
      s2: "run_timer (t22_timer_timeout e) k s1 = Some s2" "led_at e t0 (n + 1) k s2" "length (timerFactor s2) = 4"
      "jiffies s2 = t0 + (n + 1)" "\<forall>j m. j \<noteq> k \<longrightarrow> led_at e t0 m j s2 = led_at e t0 m j s1" using s1(3) by auto
    have "led_at e t0 (if i < Suc k then n + 1 else n) i s2" if "i < 4" for i
      using s1(4) s2(2,5) that by (cases "i = k") (auto simp: less_Suc_eq)
    with s1(1) s2 show ?case by (auto simp: each_append)
  qed
  from this [of 4] len show ?thesis by (simp add: jiffy_def)
qed

text \<open>C27. The blinking LEDs: after loading the second module on a free board every LED is an output, and \<open>n\<close>
  jiffies later LED \<open>i\<close> is on exactly when an odd number of its periods, each \<open>(i + 1) HZ / 10\<close> jiffies long, has
  passed. No timer is ever added twice.\<close>

theorem t22_blinks:
  assumes free: "free_board e s" and hz: "10 \<le> HZ e"
    and timers: "length (timerFactor s) = 4" "\<forall>t \<in> set (timerFactor s). \<not> t_pending t"
  shows "\<exists>s0 sn. t22_module_init e s = Some (0, s0) \<and> elapse (t22_timer_timeout e) n s0 = Some sn
    \<and> (\<forall>i < 4. bd_value sn (53 + int i) = int (n div ((i + 1) * HZ e div 10) mod 2))"
proof -
  have p: "\<forall>i < 4. 0 < period e i" using hz by (auto simp: period_def div_greater_zero_iff)
  have "\<exists>s0. t22_module_init e s = Some (0, s0) \<and> length (timerFactor s0) = 4 \<and> jiffies s0 = jiffies s
      \<and> (\<forall>i < 4. led_at e (jiffies s) 0 i s0)"
    using timers unfolding t22_module_init_def t22_init_gpios_def request_leds_free [OF free]
    by (subst t22_start_ok) (auto simp: led_at_def LED0_GPIO_def less_four)
  then obtain s0 where s0: "t22_module_init e s = Some (0, s0)" "length (timerFactor s0) = 4" "jiffies s0 = jiffies s"
    "\<forall>i < 4. led_at e (jiffies s) 0 i s0" by blast
  have "\<exists>sn. elapse (t22_timer_timeout e) n s0 = Some sn \<and> length (timerFactor sn) = 4 \<and> jiffies sn = jiffies s + n
      \<and> (\<forall>i < 4. led_at e (jiffies s) n i sn)"
  proof (induction n)
    case 0
    with s0 show ?case by simp
  next
    case (Suc n)
    then obtain sn where sn: "elapse (t22_timer_timeout e) n s0 = Some sn" "length (timerFactor sn) = 4" "jiffies sn = jiffies s + n"
      "\<forall>i < 4. led_at e (jiffies s) n i sn" by blast
    from t22_jiffy [OF sn(2,3) p sn(4)] sn(1) show ?case by auto
  qed
  with s0(1) show ?thesis by (auto simp: led_at_def period_def LED0_GPIO_def)
qed


section \<open>Task 3\<close>

text \<open>The third module shares the code of the second for its timers.\<close>

lemma t23_same: "t23_timer_timeout = t22_timer_timeout" "t23_start_timer = t22_start_timer" "t23_stop_timer = t22_stop_timer"
  by (simp_all add: fun_eq_iff t23_timer_timeout_def t22_timer_timeout_def t23_start_timer_def t22_start_timer_def
      t23_stop_timer_def t22_stop_timer_def)

datatype led_event = Button int | Jiffy

fun t23_event :: "board_env \<Rightarrow> led_event \<Rightarrow> board3 \<Rightarrow> board3 option" where
  "t23_event e (Button level) s = t23_button_isr e level s"
| "t23_event e Jiffy s = jiffy (t23_timer_timeout e) s"

definition armed :: "'a board_scheme \<Rightarrow> bool" where
  "armed s \<longleftrightarrow> length (timerFactor s) = 4 \<and> (\<forall>i < 4. t_pending (timerFactor s ! i) \<and> t_data (timerFactor s ! i) = i)"

definition dark :: "'a board_scheme \<Rightarrow> bool" where
  "dark s \<longleftrightarrow> length (timerFactor s) = 4 \<and> (\<forall>t \<in> set (timerFactor s). \<not> t_pending t) \<and> (\<forall>g \<in> set leds. bd_value s g = 0)"

definition t23_inv :: "board3 \<Rightarrow> bool" where
  "t23_inv s \<longleftrightarrow> timerActivated s = 1 \<and> armed s \<or> timerActivated s = 0 \<and> dark s"

lemma t22_stop_ok:
  assumes "length (timerFactor s) = 4"
  shows "t22_stop_timer s = Some (s\<lparr>timerFactor := map (\<lambda>t. t\<lparr>t_pending := False\<rparr>) (timerFactor s),
    bd_value := (bd_value s)(53 := 0, 54 := 0, 55 := 0, 56 := 0)\<rparr>)"
proof -
  from assms obtain a b c d where "timerFactor s = [a, b, c, d]" by (auto simp: length_four)
  then show ?thesis unfolding t22_stop_timer_def four by (simp add: board_ops LED0_GPIO_def)
qed

lemma run_timer_armed:
  assumes "armed s" "i < 4"
  shows "\<exists>s'. run_timer (t22_timer_timeout e) i s = Some s' \<and> armed s' \<and> board.more s' = board.more s"
proof (cases "t_expires (timerFactor s ! i) \<le> jiffies s")
  case True
  with assms have "run_timer (t22_timer_timeout e) i s = t22_timer_timeout e i
      (s\<lparr>timerFactor := (timerFactor s)[i := (timerFactor s ! i)\<lparr>t_pending := False\<rparr>]\<rparr>)"
    by (subst run_timer_fires) (auto simp: armed_def)
  with assms show ?thesis by (auto simp: t22_timeout_ok armed_def nth_list_update)
next
  case False
  with assms run_timer_waits [OF refl, of s i] show ?thesis by auto
qed

lemma jiffy_armed:
  assumes "armed s"
  shows "\<exists>s'. jiffy (t22_timer_timeout e) s = Some s' \<and> armed s' \<and> board.more s' = board.more s"
proof -
  have "k \<le> 4 \<Longrightarrow> \<exists>s'. each (run_timer (t22_timer_timeout e)) [0..<k] (s\<lparr>jiffies := jiffies s + 1\<rparr>) = Some s'
      \<and> armed s' \<and> board.more s' = board.more s" for k
  proof (induction k)
    case 0
    with assms show ?case by (simp add: armed_def)
  next
    case (Suc k)
    then obtain s1 where s1: "each (run_timer (t22_timer_timeout e)) [0..<k] (s\<lparr>jiffies := jiffies s + 1\<rparr>) = Some s1"
      "armed s1" "board.more s1 = board.more s" by auto
    from run_timer_armed [OF s1(2), of k e] Suc.prems s1 show ?case by (auto simp: each_append)
  qed
  from this [of 4] assms show ?thesis by (simp add: jiffy_def armed_def)
qed

lemma jiffy_dark:
  assumes "dark s"
  shows "jiffy h s = Some (s\<lparr>jiffies := jiffies s + 1\<rparr>)"
proof -
  have "run_timer h i (s\<lparr>jiffies := m\<rparr>) = Some (s\<lparr>jiffies := m\<rparr>)" if "i < 4" for i m
    using assms that by (intro run_timer_waits [OF refl]) (simp add: dark_def)
  then have "each (run_timer h) xs (s\<lparr>jiffies := m\<rparr>) = Some (s\<lparr>jiffies := m\<rparr>)" if "set xs \<subseteq> {..<4}" for xs m
    using that by (induction xs) auto
  from this [of "[0..<4]" "jiffies s + 1"] have "each (run_timer h) [0..<4] (s\<lparr>jiffies := jiffies s + 1\<rparr>) = Some (s\<lparr>jiffies := jiffies s + 1\<rparr>)"
    by (simp add: subset_iff)
  then show ?thesis using assms by (simp add: jiffy_def dark_def)
qed

lemma activated_more: "board.more s' = board.more s \<Longrightarrow> timerActivated s' = timerActivated s"
  by (cases s, cases s') simp

lemma t23_event_ok:
  assumes "t23_inv s"
  shows "\<exists>s'. t23_event e ev s = Some s' \<and> t23_inv s'"
proof (cases ev)
  case (Button level)
  have "armed (s\<lparr>timerFactor := map (\<lambda>i. \<lparr>t_expires = jiffies s + period e i, t_data = i, t_pending = True\<rparr>) [0..<4],
      timerActivated := 1\<rparr>)" by (simp add: armed_def)
  moreover have "dark (s\<lparr>timerFactor := map (\<lambda>t. t\<lparr>t_pending := False\<rparr>) (timerFactor s),
    bd_value := (bd_value s)(53 := 0, 54 := 0, 55 := 0, 56 := 0), timerActivated := 0\<rparr>)" if "length (timerFactor s) = 4"
    using that by (auto simp: dark_def leds_eq)
  ultimately show ?thesis using Button assms
    by (auto simp: t23_button_isr_def t23_same t23_inv_def armed_def dark_def t22_start_ok t22_stop_ok leds_eq)
next
  case Jiffy
  show ?thesis
  proof (cases "timerActivated s = 1 \<and> armed s")
    case True
    from jiffy_armed [of s e] True obtain s' where
      "jiffy (t22_timer_timeout e) s = Some s'" "armed s'" "board.more s' = board.more s" by blast
    with Jiffy True activated_more [of s' s] show ?thesis by (simp add: t23_same t23_inv_def)
  next
    case False
    with assms have "timerActivated s = 0" "dark s" by (auto simp: t23_inv_def)
    with Jiffy jiffy_dark [of s] show ?thesis by (simp add: t23_inv_def dark_def)
  qed
qed

lemma t23_events_ok: "t23_inv s \<Longrightarrow> \<exists>s'. each (t23_event e) evs s = Some s' \<and> t23_inv s'"
proof (induction evs arbitrary: s)
  case (Cons ev evs)
  from t23_event_ok [OF Cons.prems, of e ev] obtain s1 where "t23_event e ev s = Some s1" "t23_inv s1" by blast
  with Cons.IH show ?case by auto
qed simp



section \<open>Task 4\<close>

lemma counter_bit_iff: "counter_bit (int k) i \<longleftrightarrow> odd (k div 2 ^ i)"
  by (simp add: counter_bit_def push_bit_of_1 and_exp_eq_0_iff_not_bit bit_iff_odd)
    (metis even_of_nat of_nat_div of_nat_numeral of_nat_power)

lemma counter_bit_0: "\<not> counter_bit 0 i"
  by (simp add: counter_bit_def)

definition dark_time :: "board_env \<Rightarrow> nat" where "dark_time e = 2 * HZ e div 10"
definition light_time :: "board_env \<Rightarrow> nat" where "light_time e = 8 * HZ e div 10"

abbreviation cycle :: "board_env \<Rightarrow> nat" where "cycle e \<equiv> dark_time e + light_time e"

definition show_count :: "int \<Rightarrow> 'a board_scheme \<Rightarrow> bool" where
  "show_count c s \<longleftrightarrow> (\<forall>i < 4. bd_value s (53 + int i) = (if counter_bit c i then 1 else 0))"

definition lights :: "int \<Rightarrow> nat list \<Rightarrow> (int \<Rightarrow> int) \<Rightarrow> int \<Rightarrow> int" where
  "lights c xs v = (\<lambda>g. if \<exists>i \<in> set xs. g = 53 + int i \<and> counter_bit c i then 1 else v g)"

lemma lights_Cons: "lights c (i # xs) v = lights c xs (if counter_bit c i then v(53 + int i := 1) else v)"
  by (auto simp: lights_def fun_eq_iff)

lemma fold_lights:
  "fold (\<lambda>i s. if counter_bit (click_counter s) i then gpio_set_value (LED0_GPIO + int i) 1 s else s) xs s =
     s\<lparr>bd_value := lights (click_counter s) xs (bd_value s)\<rparr>"
proof (induction xs arbitrary: s)
  case Nil
  then show ?case by (simp add: lights_def)
next
  case (Cons i xs)
  then show ?case by (simp add: lights_Cons gpio_set_value_def LED0_GPIO_def)
qed

lemma show_lights: "show_count 0 s \<Longrightarrow> show_count c (s\<lparr>bd_value := lights c [0..<NUM_LED] (bd_value s)\<rparr>)"
  by (auto simp: show_count_def lights_def NUM_LED_def counter_bit_def)

text \<open>The timer of the module \<open>n\<close> jiffies after the beginning of a dark phase.\<close>

definition blinking :: "board_env \<Rightarrow> nat \<Rightarrow> int \<Rightarrow> nat \<Rightarrow> board4 \<Rightarrow> bool" where
  "blinking e t0 c n s \<longleftrightarrow>
     timerFactor s =
       [\<lparr>t_expires = t0 + n div cycle e * cycle e + (if n mod cycle e < dark_time e then dark_time e else cycle e),
         t_data = (if n mod cycle e < dark_time e then LIGHTDOWN else LIGHTUP), t_pending = True\<rparr>]
     \<and> jiffies s = t0 + n \<and> click_counter s = c
     \<and> show_count (if n mod cycle e < dark_time e then 0 else c) s"

lemma timer_all [simp]:
  "t\<lparr>t_expires := a, t_data := b, t_pending := c\<rparr> = \<lparr>t_expires = a, t_data = b, t_pending = c\<rparr>"
  by (cases t) simp

lemma bind_each_Nil [simp]: "Option.bind m (each f []) = m"
  by (cases m) auto

lemma light_step:
  assumes "timerFactor s = [t]" "\<not> t_pending t"
  shows "t24_timer_timeout e LIGHTDOWN s = Some (s\<lparr>bd_value := lights (click_counter s) [0..<NUM_LED] (bd_value s),
      timerFactor := [\<lparr>t_expires = jiffies s + light_time e, t_data = LIGHTUP, t_pending = True\<rparr>]\<rparr>)"
  using assms by (simp add: t24_timer_timeout_def fold_lights board_ops light_time_def)

lemma dark_step:
  assumes "timerFactor s = [t]" "\<not> t_pending t"
  shows "t24_timer_timeout e LIGHTUP s = Some (s\<lparr>bd_value := (bd_value s)(53 := 0, 54 := 0, 55 := 0, 56 := 0),
      timerFactor := [\<lparr>t_expires = jiffies s + dark_time e, t_data = LIGHTDOWN, t_pending = True\<rparr>]\<rparr>)"
  using assms by (simp add: t24_timer_timeout_def board_ops dark_time_def leds_eq LIGHTUP_def LIGHTDOWN_def)

lemma show_dark: "show_count 0 (s\<lparr>bd_value := (bd_value s)(53 := 0, 54 := 0, 55 := 0, 56 := 0)\<rparr>)"
  by (auto simp: show_count_def less_four counter_bit_def)

lemma show_count_cong: "bd_value s = bd_value s' \<Longrightarrow> show_count c s = show_count c s'"
  by (simp add: show_count_def)

lemma jiffy_one:
  assumes "timerFactor s = [t]" "t_pending t"
  shows "t_expires t \<le> jiffies s + 1 \<Longrightarrow>
      jiffy h s = h (t_data t) (s\<lparr>jiffies := jiffies s + 1, timerFactor := [t\<lparr>t_pending := False\<rparr>]\<rparr>)"
    and "jiffies s + 1 < t_expires t \<Longrightarrow> jiffy h s = Some (s\<lparr>jiffies := jiffies s + 1\<rparr>)"
  using assms by (auto simp: jiffy_def run_timer_def del_timer_def timer_upd_def)

lemma blinking_jiffy:
  assumes b: "blinking e t0 c n s" and pos: "0 < dark_time e" "0 < light_time e"
  shows "\<exists>s'. jiffy (t24_timer_timeout e) s = Some s' \<and> blinking e t0 c (n + 1) s'"
proof -
  let ?P = "cycle e" and ?m = "n mod cycle e" and ?q = "n div cycle e * cycle e"
  have n: "n = ?q + ?m" by (simp only: div_mult_mod_eq)
  have m: "?m < ?P" using pos by simp
  have now: "jiffies s + 1 = t0 + ?q + ?m + 1" using b n unfolding blinking_def by linarith
  have cnt: "click_counter s = c" using b by (simp add: blinking_def)
  consider (stay) "?m + 1 \<noteq> dark_time e" "?m + 1 \<noteq> ?P" | (up) "?m + 1 = dark_time e" | (down) "?m + 1 = ?P" by blast
  then show ?thesis
  proof cases
    case stay
    have nxt: "(n + 1) mod ?P = ?m + 1" "(n + 1) div ?P = n div ?P" using stay by (simp_all add: mod_Suc div_Suc)
    have same: "(n + 1) mod ?P < dark_time e \<longleftrightarrow> ?m < dark_time e" unfolding nxt using stay(1) by linarith
    obtain t where t: "timerFactor s = [t]" "t_pending t"
      "t_expires t = t0 + ?q + (if ?m < dark_time e then dark_time e else ?P)" using b by (auto simp: blinking_def)
    have "jiffies s + 1 < t_expires t" unfolding t(3) now using stay m by (cases "?m < dark_time e") auto
    then have "jiffy (t24_timer_timeout e) s = Some (s\<lparr>jiffies := jiffies s + 1\<rparr>)" by (rule jiffy_one(2) [OF t(1,2)])
    moreover have "blinking e t0 c (n + 1) (s\<lparr>jiffies := jiffies s + 1\<rparr>)"
      using b unfolding blinking_def same nxt(2) by (simp add: show_count_def)
    ultimately show ?thesis by blast
  next
    case up
    have dark: "?m < dark_time e" "?m + 1 \<noteq> ?P" using up pos by auto
    have nxt: "(n + 1) mod ?P = dark_time e" "(n + 1) div ?P = n div ?P" using up dark(2) by (simp_all add: mod_Suc div_Suc)
    have sc: "show_count 0 s" using b dark(1) by (simp add: blinking_def)
    define t where "t = \<lparr>t_expires = t0 + ?q + dark_time e, t_data = LIGHTDOWN, t_pending = True\<rparr>"
    have t: "timerFactor s = [t]" "t_pending t" "t_data t = LIGHTDOWN" "t_expires t = t0 + ?q + dark_time e"
      using b dark(1) by (simp_all add: blinking_def t_def)
    let ?s = "s\<lparr>jiffies := jiffies s + 1, timerFactor := [t\<lparr>t_pending := False\<rparr>]\<rparr>"
    have "jiffy (t24_timer_timeout e) s = t24_timer_timeout e LIGHTDOWN ?s"
      using jiffy_one(1) [OF t(1,2)] t(3,4) now up by simp
    also have "\<dots> = Some (?s\<lparr>bd_value := lights c [0..<NUM_LED] (bd_value s),
        timerFactor := [\<lparr>t_expires = jiffies s + 1 + light_time e, t_data = LIGHTUP, t_pending = True\<rparr>]\<rparr>)"
      by (subst light_step [of _ "t\<lparr>t_pending := False\<rparr>"]) (simp_all add: cnt)
    finally have j: "jiffy (t24_timer_timeout e) s = Some (?s\<lparr>bd_value := lights c [0..<NUM_LED] (bd_value s),
        timerFactor := [\<lparr>t_expires = jiffies s + 1 + light_time e, t_data = LIGHTUP, t_pending = True\<rparr>]\<rparr>)" .
    have "show_count c (s\<lparr>bd_value := lights c [0..<NUM_LED] (bd_value s)\<rparr>)" by (rule show_lights [OF sc])
    then have "blinking e t0 c (n + 1) (?s\<lparr>bd_value := lights c [0..<NUM_LED] (bd_value s),
        timerFactor := [\<lparr>t_expires = jiffies s + 1 + light_time e, t_data = LIGHTUP, t_pending = True\<rparr>]\<rparr>)"
      using now up cnt n unfolding blinking_def nxt by (simp add: show_count_def)
    with j show ?thesis by blast
  next
    case down
    have light: "\<not> ?m < dark_time e" using down pos by auto
    have nxt: "(n + 1) mod ?P = 0" "(n + 1) div ?P * ?P = ?q + ?P" using down by (simp_all add: mod_Suc div_Suc)
    define t where "t = \<lparr>t_expires = t0 + ?q + ?P, t_data = LIGHTUP, t_pending = True\<rparr>"
    have t: "timerFactor s = [t]" "t_pending t" "t_data t = LIGHTUP" "t_expires t = t0 + ?q + ?P"
      using b light by (simp_all add: blinking_def t_def)
    let ?s = "s\<lparr>jiffies := jiffies s + 1, timerFactor := [t\<lparr>t_pending := False\<rparr>]\<rparr>"
    let ?v = "(bd_value s)(53 := 0, 54 := 0, 55 := 0, 56 := 0)"
    have "jiffy (t24_timer_timeout e) s = t24_timer_timeout e LIGHTUP ?s"
      using jiffy_one(1) [OF t(1,2)] t(3,4) now down by simp
    also have "\<dots> = Some (?s\<lparr>bd_value := ?v,
        timerFactor := [\<lparr>t_expires = jiffies s + 1 + dark_time e, t_data = LIGHTDOWN, t_pending = True\<rparr>]\<rparr>)"
      by (subst dark_step [of _ "t\<lparr>t_pending := False\<rparr>"]) simp_all
    finally have j: "jiffy (t24_timer_timeout e) s = Some (?s\<lparr>bd_value := ?v,
        timerFactor := [\<lparr>t_expires = jiffies s + 1 + dark_time e, t_data = LIGHTDOWN, t_pending = True\<rparr>]\<rparr>)" .
    have "blinking e t0 c (n + 1) (?s\<lparr>bd_value := ?v,
        timerFactor := [\<lparr>t_expires = jiffies s + 1 + dark_time e, t_data = LIGHTDOWN, t_pending = True\<rparr>]\<rparr>)"
      using now down cnt n pos show_dark [of s] unfolding blinking_def nxt by (simp add: show_count_def)
    with j show ?thesis by blast
  qed
qed


text \<open>A short click: the button goes down and up within the same jiffy.\<close>

fun clicks :: "board_env \<Rightarrow> nat \<Rightarrow> board4 \<Rightarrow> board4" where
  "clicks e 0 s = s"
| "clicks e (Suc k) s = t24_button_isr e 1 (t24_button_isr e 0 (clicks e k s))"

lemma clicks_ok:
  "int k + click_counter s < INT_MAX \<Longrightarrow> 0 \<le> click_counter s \<Longrightarrow>
   \<exists>u. clicks e k s = s\<lparr>click_counter := click_counter s + int k, startTime := u\<rparr>"
proof (induction k)
  case 0
  have "s = s\<lparr>click_counter := click_counter s + int 0, startTime := startTime s\<rparr>" by simp
  then show ?case by (metis clicks.simps(1))
next
  case (Suc k)
  then obtain u where "clicks e k s = s\<lparr>click_counter := click_counter s + int k, startTime := u\<rparr>" by auto
  with Suc.prems show ?case
    by (intro exI [of _ "of_nat (jiffies s)"]) (simp add: t24_button_isr_def Let_def algebra_simps)
qed


section \<open>The counter stays in range\<close>

fun t24_event :: "board_env \<Rightarrow> led_event \<Rightarrow> board4 \<Rightarrow> board4 option" where
  "t24_event e (Button level) s = Some (t24_button_isr e level s)"
| "t24_event e Jiffy s = jiffy (t24_timer_timeout e) s"

definition t24_inv :: "board4 \<Rightarrow> bool" where
  "t24_inv s \<longleftrightarrow> 0 \<le> click_counter s \<and> click_counter s < INT_MAX \<and>
     (\<exists>t. timerFactor s = [t] \<and> t_pending t \<and> (t_data t = LIGHTUP \<or> t_data t = LIGHTDOWN \<and> show_count 0 s))"

lemma t24_event_ok:
  assumes "t24_inv s"
  shows "\<exists>s'. t24_event e ev s = Some s' \<and> t24_inv s'"
proof (cases ev)
  case (Button level)
  with assms show ?thesis
    by (auto simp: t24_inv_def t24_button_isr_def Let_def INT_MAX_def show_count_def)
next
  case Jiffy
  from assms obtain t where t: "timerFactor s = [t]" "t_pending t" "t_data t = LIGHTUP \<or> t_data t = LIGHTDOWN \<and> show_count 0 s"
    "0 \<le> click_counter s" "click_counter s < INT_MAX" by (auto simp: t24_inv_def)
  let ?s = "s\<lparr>jiffies := jiffies s + 1, timerFactor := [t\<lparr>t_pending := False\<rparr>]\<rparr>"
  have not_pending: "timerFactor ?s = [t\<lparr>t_pending := False\<rparr>]" "\<not> t_pending (t\<lparr>t_pending := False\<rparr>)" by simp_all
  show ?thesis
  proof (cases "t_expires t \<le> jiffies s + 1")
    case True
    from jiffy_one(1) [OF t(1,2) True] have j: "jiffy (t24_timer_timeout e) s = t24_timer_timeout e (t_data t) ?s" .
    from t(3) show ?thesis
    proof
      assume "t_data t = LIGHTUP"
      with j dark_step [OF not_pending] t(4,5) show_dark [of s] Jiffy show ?thesis
        by (simp add: t24_inv_def show_count_def)
    next
      assume "t_data t = LIGHTDOWN \<and> show_count 0 s"
      with j light_step [OF not_pending] t(4,5) Jiffy show ?thesis by (simp add: t24_inv_def)
    qed
  next
    case False
    with jiffy_one(2) [OF t(1,2)] have "jiffy (t24_timer_timeout e) s = Some (s\<lparr>jiffies := jiffies s + 1\<rparr>)" by simp
    with Jiffy assms show ?thesis by (simp add: t24_inv_def show_count_def)
  qed
qed

lemma t24_events_ok: "t24_inv s \<Longrightarrow> \<exists>s'. each (t24_event e) evs s = Some s' \<and> t24_inv s'"
proof (induction evs arbitrary: s)
  case (Cons ev evs)
  from t24_event_ok [OF Cons.prems, of e ev] obtain s1 where "t24_event e ev s = Some s1" "t24_inv s1" by blast
  with Cons.IH show ?case by auto
qed simp

text \<open>C30. Whatever series of button interrupts and jiffies follows the loading of the fourth module on a free board, no
  timer is added twice, the counter stays between 0 and \<open>INT_MAX\<close> and never reaches it, so that
  incrementing it does not overflow, and a click whose length exceeds HZ jiffies sets it to 0.\<close>

theorem t24_counter_bounds:
  assumes free: "free_board e s" and timer: "timerFactor s = [t]" "\<not> t_pending t"
  shows "\<exists>s0 s1. t24_module_init e True s = Some (0, s0) \<and> each (t24_event e) evs s0 = Some s1
    \<and> 0 \<le> click_counter s1 \<and> click_counter s1 + 1 \<le> INT_MAX
    \<and> (of_nat (HZ e) < of_nat (jiffies s1) - startTime s1 \<longrightarrow> click_counter (t24_button_isr e 1 s1) = 0)"
proof -
  have "\<exists>s0. t24_module_init e True s = Some (0, s0) \<and> t24_inv s0"
    using free timer
    by (simp add: t24_module_init_def t24_start_timer_def t24_init_gpios_def leds_eq free_board_def gpio_request_def
        board_ops BUTTON_GPIO_def t24_inv_def INT_MAX_def show_count_def less_four counter_bit_def)
  then obtain s0 where s0: "t24_module_init e True s = Some (0, s0)" "t24_inv s0" by blast
  from t24_events_ok [OF s0(2)] obtain s1 where s1: "each (t24_event e) evs s0 = Some s1" "t24_inv s1" by blast
  have "click_counter (t24_button_isr e 1 s1) = 0" if "of_nat (HZ e) < of_nat (jiffies s1) - startTime s1"
    using that by (simp add: t24_button_isr_def Let_def not_le [symmetric])
  with s0 s1 show ?thesis by (auto simp: t24_inv_def)
qed


section \<open>Examples\<close>

definition bbb :: board_env where
  "bbb = \<lparr>gpio_is_valid = (\<lambda>_. True), gpio_available = (\<lambda>_. True), HZ = 100\<rparr>"

definition idle_timer :: ktimer where
  "idle_timer = \<lparr>t_expires = 0, t_data = 0, t_pending = False\<rparr>"

definition fresh_board :: "ktimer list \<Rightarrow> board" where
  "fresh_board ts = \<lparr>bd_requested = [], bd_output = (\<lambda>_. False), bd_value = (\<lambda>_. 0), timerFactor = ts, bd_irq = False, jiffies = 7\<rparr>"

text \<open>25 jiffies after loading, LED 0 (period 10) and LED 1 (period 20) have changed twice and once.\<close>

theorem t22_blinks_witness:
  "\<exists>s0 sn. t22_module_init bbb (fresh_board (replicate 4 idle_timer)) = Some (0, s0) \<and> elapse (t22_timer_timeout bbb) 25 s0 = Some sn
    \<and> bd_value sn 53 = 0 \<and> bd_value sn 54 = 1 \<and> bd_value sn 55 = 0"
proof -
  have "free_board bbb (fresh_board (replicate 4 idle_timer))" "10 \<le> HZ bbb"
    "length (timerFactor (fresh_board (replicate 4 idle_timer))) = 4"
    "\<forall>t \<in> set (timerFactor (fresh_board (replicate 4 idle_timer))). \<not> t_pending t"
    by (simp_all add: free_board_def bbb_def fresh_board_def idle_timer_def)
  from t22_blinks [OF this, of 25] obtain s0 sn where r:
    "t22_module_init bbb (fresh_board (replicate 4 idle_timer)) = Some (0, s0)" "elapse (t22_timer_timeout bbb) 25 s0 = Some sn"
    "\<forall>i < 4. bd_value sn (53 + int i) = int (25 div ((i + 1) * HZ bbb div 10) mod 2)" by blast
  have "bd_value sn 53 = 0" "bd_value sn 54 = 1" "bd_value sn 55 = 0"
    using r(3) [rule_format, of 0] r(3) [rule_format, of 1] r(3) [rule_format, of 2] by (simp_all add: bbb_def)
  with r show ?thesis by blast
qed

definition fresh3 :: board3 where
  "fresh3 = board.extend (fresh_board (replicate 4 idle_timer)) (board3.fields 0)"


definition fresh4 :: board4 where
  "fresh4 = board.extend (fresh_board [idle_timer]) (board4.fields 3 0)"

lemma fresh4: "free_board bbb fresh4" "timerFactor fresh4 = [idle_timer]" "\<not> t_pending idle_timer"
  by (simp_all add: fresh4_def free_board_def bbb_def board.defs board4.defs fresh_board_def idle_timer_def)


theorem t24_counter_bounds_witness:
  "\<exists>s0 s1. t24_module_init bbb True fresh4 = Some (0, s0) \<and> each (t24_event bbb) [Button 0, Button 1, Jiffy] s0 = Some s1
    \<and> 0 \<le> click_counter s1 \<and> click_counter s1 + 1 \<le> INT_MAX"
  using t24_counter_bounds [OF fresh4, of "[Button 0, Button 1, Jiffy]"] by blast

end
