(* ===== verification/FsBench.thy ===== *)
theory FsBench
  imports Prelude
begin

text \<open>
  The two file system benchmarks, \<open>src/project1/fs_bench.c\<close> and \<open>src/project4/task3_fsbench.c\<close>. The system calls are a
  parameter, a function on a state of the world; so are the numbers \<open>rand\<close> returns after \<open>srand(30)\<close>. A pass over the file
  returns, or ends the program with a status (\<open>Inl\<close>), or does not return or is undefined (\<open>None\<close>). The messages are left
  out. The theorems are about the calls a pass makes: the sequential passes transfer the whole file in order; the
  random passes of the first benchmark end and visit every block exactly once; those of the second visit blocks in range
  and are undefined for a request larger than the file.
\<close>

section \<open>Calls\<close>

datatype fs_call =
    FOpen string "32 word" nat | FClose int | FUnlink string | FWrite int int | FRead int int | FLseek int int
  | FMemalign int | FMalloc int | FTime

type_synonym 'w fs = "fs_call \<Rightarrow> 'w \<Rightarrow> int \<times> 'w"

record 'w bench =
  world :: 'w
  drawn :: nat

type_synonym 'w outcome = "(int + 'w bench) option"

definition call :: "'w fs \<Rightarrow> fs_call \<Rightarrow> 'w bench \<Rightarrow> int \<times> 'w bench" where
  "call os c s = (let (r, w) = os c (world s) in (r, s\<lparr>world := w\<rparr>))"

definition next_pass :: "'w outcome \<Rightarrow> ('w bench \<Rightarrow> 'w outcome) \<Rightarrow> 'w outcome" where
  "next_pass r f = (case r of None \<Rightarrow> None | Some (Inl e) \<Rightarrow> Some (Inl e) | Some (Inr s) \<Rightarrow> f s)"

lemma next_pass_simps [simp]:
  "next_pass None f = None" "next_pass (Some (Inl e)) f = Some (Inl e)" "next_pass (Some (Inr s)) f = f s"
  by (simp_all add: next_pass_def)

definition NUMFILES :: nat where "NUMFILES = 1"
definition FILESIZE :: int where "FILESIZE = 10 * 1024 * 1024"

definition O_RDONLY :: "32 word" where "O_RDONLY = 0"
definition O_WRONLY :: "32 word" where "O_WRONLY = 1"
definition O_CREAT :: "32 word" where "O_CREAT = 0x40"
definition O_EXCL :: "32 word" where "O_EXCL = 0x80"
definition O_DIRECT :: "32 word" where "O_DIRECT = 0x4000"
definition MODE_RW :: nat where "MODE_RW = 0x1B6"

text \<open>The name of a file, cut at the size of its buffer, and the loop over the files.\<close>

definition filename :: "string \<Rightarrow> nat \<Rightarrow> string" where
  "filename dir i = take 127 (dir @ ''/file-'' @ dec_nat i)"

fun for_files :: "(nat \<Rightarrow> 'w bench \<Rightarrow> 'w outcome) \<Rightarrow> nat list \<Rightarrow> 'w bench \<Rightarrow> 'w outcome" where
  "for_files body [] s = Some (Inr s)"
| "for_files body (i # is) s = next_pass (body i s) (for_files body is)"

definition exit_fs :: "'w outcome" where "exit_fs = Some (Inl 1)"

section \<open>Passes\<close>

definition file_create :: "'w fs \<Rightarrow> string \<Rightarrow> 'w bench \<Rightarrow> 'w outcome" where
  "file_create os dir = for_files (\<lambda>i s.
     let (fd, s) = call os (FOpen (filename dir i) (or O_WRONLY (or O_CREAT O_EXCL)) MODE_RW) s
     in if fd = - 1 then exit_fs else Some (Inr (snd (call os (FClose fd) s)))) [0..<NUMFILES]"

definition file_delete :: "'w fs \<Rightarrow> string \<Rightarrow> 'w bench \<Rightarrow> 'w outcome" where
  "file_delete os dir = for_files (\<lambda>i s.
     let (ret, s) = call os (FUnlink (filename dir i)) s
     in if ret = - 1 then exit_fs else Some (Inr s)) [0..<NUMFILES]"

text \<open>The loop of a sequential pass; it does not end for a request of size 0.\<close>

partial_function (option) seq_loop :: "'w fs \<Rightarrow> fs_call \<Rightarrow> int \<Rightarrow> int \<Rightarrow> 'w bench \<Rightarrow> 'w outcome" where
  "seq_loop os c req j s =
     (if j < FILESIZE
      then if fst (call os c s) = - 1 then exit_fs else seq_loop os c req (j + req) (snd (call os c s))
      else Some (Inr s))"

definition with_file :: "'w fs \<Rightarrow> string \<Rightarrow> 32 word \<Rightarrow> (int \<Rightarrow> 'w bench \<Rightarrow> 'w outcome) \<Rightarrow> nat \<Rightarrow> 'w bench \<Rightarrow> 'w outcome" where
  "with_file os dir flags pass i s =
     (let (fd, s) = call os (FOpen (filename dir i) flags MODE_RW) s
      in if fd = - 1 then exit_fs
         else next_pass (pass fd s) (\<lambda>s. Some (Inr (snd (call os (FClose fd) s)))))"

definition with_buffer :: "'w fs \<Rightarrow> int \<Rightarrow> ('w bench \<Rightarrow> 'w outcome) \<Rightarrow> 'w bench \<Rightarrow> 'w outcome" where
  "with_buffer os req pass s = (let (buf, s) = call os (FMemalign req) s in if buf = 0 then exit_fs else pass s)"

definition file_write_sequential :: "'w fs \<Rightarrow> string \<Rightarrow> int \<Rightarrow> 'w bench \<Rightarrow> 'w outcome" where
  "file_write_sequential os dir req =
     with_buffer os req (for_files (with_file os dir (or O_DIRECT (or O_WRONLY O_EXCL))
       (\<lambda>fd. seq_loop os (FWrite fd req) req 0)) [0..<NUMFILES])"

definition file_read_sequential :: "'w fs \<Rightarrow> string \<Rightarrow> int \<Rightarrow> 'w bench \<Rightarrow> 'w outcome" where
  "file_read_sequential os dir req =
     with_buffer os req (for_files (with_file os dir (or O_DIRECT (or O_RDONLY O_EXCL))
       (\<lambda>fd. seq_loop os (FRead fd req) req 0)) [0..<NUMFILES])"

text \<open>Drawing a block that has not been visited, from the number drawn last.\<close>

partial_function (option) find_free :: "(nat \<Rightarrow> nat) \<Rightarrow> int \<Rightarrow> int list \<Rightarrow> int \<Rightarrow> nat \<Rightarrow> (int \<times> nat) option" where
  "find_free rnd m parr seekpoint k = Option.bind (arr_get parr seekpoint)
     (\<lambda>v. if v \<noteq> 0 then find_free rnd m parr (int (rnd k) mod m) (Suc k) else Some (seekpoint, k))"

partial_function (option) rand_loop ::
  "'w fs \<Rightarrow> (nat \<Rightarrow> nat) \<Rightarrow> int \<Rightarrow> fs_call \<Rightarrow> int \<Rightarrow> int \<Rightarrow> int list \<Rightarrow> int \<Rightarrow> 'w bench \<Rightarrow> 'w outcome" where
  "rand_loop os rnd fd c req m parr n s =
     (if 0 < n
      then Option.bind (find_free rnd m parr (int (rnd (drawn s)) mod m) (Suc (drawn s)))
        (\<lambda>r. Option.bind (arr_set parr (fst r) 1)
          (\<lambda>parr'. let s1 = snd (call os (FLseek fd (req * fst r)) (s\<lparr>drawn := snd r\<rparr>));
                        (act, s2) = call os c s1
                    in if act = - 1 then exit_fs else rand_loop os rnd fd c req m parr' (n - 1) s2))
      else Some (Inr s))"

text \<open>The number of blocks: a division by zero is undefined, a quotient is rounded towards zero.\<close>

definition blocks :: "int \<Rightarrow> int option" where
  "blocks req = (if req = 0 then None else Some (sgn req * (FILESIZE div \<bar>req\<bar>)))"

definition rand_pass :: "'w fs \<Rightarrow> (nat \<Rightarrow> nat) \<Rightarrow> (int \<Rightarrow> fs_call) \<Rightarrow> int \<Rightarrow> int \<Rightarrow> 'w bench \<Rightarrow> 'w outcome" where
  "rand_pass os rnd c req fd s = do {
     m \<leftarrow> blocks req;
     let (p, s) = call os (FMalloc (4 * m)) s;
     if p = 0 \<and> 0 < m then None else rand_loop os rnd fd (c fd) req m (replicate (nat m) 0) m s
   }"

definition file_write_random :: "'w fs \<Rightarrow> (nat \<Rightarrow> nat) \<Rightarrow> string \<Rightarrow> int \<Rightarrow> 'w bench \<Rightarrow> 'w outcome" where
  "file_write_random os rnd dir req =
     with_buffer os req (for_files (with_file os dir (or O_DIRECT (or O_WRONLY O_EXCL))
       (rand_pass os rnd (\<lambda>fd. FWrite fd req) req)) [0..<NUMFILES])"

definition file_read_random :: "'w fs \<Rightarrow> (nat \<Rightarrow> nat) \<Rightarrow> string \<Rightarrow> int \<Rightarrow> 'w bench \<Rightarrow> 'w outcome" where
  "file_read_random os rnd dir req =
     with_buffer os req (for_files (with_file os dir (or O_DIRECT (or O_RDONLY O_EXCL))
       (rand_pass os rnd (\<lambda>fd. FRead fd req) req)) [0..<NUMFILES])"

text \<open>The phases of \<open>main\<close> with the times before each of them and at the end. The sequence of random numbers starts with
  \<open>srand\<close>.\<close>

fun timed :: "'w fs \<Rightarrow> ('w bench \<Rightarrow> 'w outcome) list \<Rightarrow> 'w bench \<Rightarrow> (int + int list \<times> 'w bench) option" where
  "timed os [] s = (let (t, s) = call os FTime s in Some (Inr ([t], s)))"
| "timed os (p # ps) s =
     (let (t, s) = call os FTime s
      in case p s of
           None \<Rightarrow> None
         | Some (Inl e) \<Rightarrow> Some (Inl e)
         | Some (Inr s) \<Rightarrow>
             (case timed os ps s of
                Some (Inr (ts, s)) \<Rightarrow> Some (Inr (t # ts, s))
              | r \<Rightarrow> r))"

definition report :: "int list \<Rightarrow> int list" where
  "report ts = [ts ! 1 - ts ! 0, ts ! 2 - ts ! 1, ts ! 3 - ts ! 2, ts ! 4 - ts ! 3, ts ! 5 - ts ! 4, ts ! 6 - ts ! 5, ts ! 6 - ts ! 0]"

definition srand30 :: "'w outcome \<Rightarrow> 'w outcome" where
  "srand30 r = next_pass r (\<lambda>s. Some (Inr (s\<lparr>drawn := 0\<rparr>)))"

definition bench_main :: "'w fs \<Rightarrow> (string \<Rightarrow> int) \<Rightarrow> (nat \<Rightarrow> nat) \<Rightarrow> string list \<Rightarrow> 'w bench \<Rightarrow> (int + int list \<times> 'w bench) option" where
  "bench_main os atoi rnd argv s =
     (if length argv \<noteq> 3 then Some (Inl 1)
      else let dir = argv ! 1; req = atoi (argv ! 2)
        in map_option (map_sum id (apfst report))
             (timed os [file_create os dir, file_write_sequential os dir req, \<lambda>s. srand30 (file_read_sequential os dir req s),
                file_write_random os rnd dir req, file_read_random os rnd dir req, file_delete os dir] s))"

section \<open>The second benchmark\<close>

text \<open>It opens without \<open>O_DIRECT\<close>, does not test the buffer of its read passes and draws every block independently.\<close>

definition t3_file_create :: "'w fs \<Rightarrow> string \<Rightarrow> 'w bench \<Rightarrow> 'w outcome" where
  "t3_file_create os dir = for_files (\<lambda>i s.
     let (fd, s) = call os (FOpen (filename dir i) (or O_WRONLY (or O_CREAT O_EXCL)) MODE_RW) s
     in if fd = - 1 then exit_fs else Some (Inr (snd (call os (FClose fd) s)))) [0..<NUMFILES]"

definition t3_file_delete :: "'w fs \<Rightarrow> string \<Rightarrow> 'w bench \<Rightarrow> 'w outcome" where
  "t3_file_delete os dir = for_files (\<lambda>i s.
     let (ret, s) = call os (FUnlink (filename dir i)) s
     in if ret = - 1 then exit_fs else Some (Inr s)) [0..<NUMFILES]"

definition t3_file_write_sequential :: "'w fs \<Rightarrow> string \<Rightarrow> int \<Rightarrow> 'w bench \<Rightarrow> 'w outcome" where
  "t3_file_write_sequential os dir req =
     with_buffer os req (for_files (with_file os dir (or O_WRONLY O_EXCL)
       (\<lambda>fd. seq_loop os (FWrite fd req) req 0)) [0..<NUMFILES])"

definition t3_file_read_sequential :: "'w fs \<Rightarrow> string \<Rightarrow> int \<Rightarrow> 'w bench \<Rightarrow> 'w outcome" where
  "t3_file_read_sequential os dir req s =
     for_files (with_file os dir O_RDONLY (\<lambda>fd. seq_loop os (FRead fd req) req 0)) [0..<NUMFILES] (snd (call os (FMemalign req) s))"

partial_function (option) t3_rand_loop ::
  "'w fs \<Rightarrow> (nat \<Rightarrow> nat) \<Rightarrow> int \<Rightarrow> fs_call \<Rightarrow> int \<Rightarrow> int \<Rightarrow> 'w bench \<Rightarrow> 'w outcome" where
  "t3_rand_loop os rnd fd c req j s =
     (if j < FILESIZE
      then Option.bind (blocks req)
        (\<lambda>m. if m = 0 then None
              else let rand_num = int (rnd (drawn s)) mod \<bar>m\<bar>;
                       s1 = snd (call os (FLseek fd (req * rand_num)) (s\<lparr>drawn := Suc (drawn s)\<rparr>));
                       (act, s2) = call os c s1
                   in if act = - 1 then exit_fs else t3_rand_loop os rnd fd c req (j + req) s2)
      else Some (Inr s))"

definition t3_file_write_random :: "'w fs \<Rightarrow> (nat \<Rightarrow> nat) \<Rightarrow> string \<Rightarrow> int \<Rightarrow> 'w bench \<Rightarrow> 'w outcome" where
  "t3_file_write_random os rnd dir req =
     with_buffer os req (for_files (with_file os dir (or O_WRONLY O_EXCL)
       (\<lambda>fd. t3_rand_loop os rnd fd (FWrite fd req) req 0)) [0..<NUMFILES])"

definition t3_file_read_random :: "'w fs \<Rightarrow> (nat \<Rightarrow> nat) \<Rightarrow> string \<Rightarrow> int \<Rightarrow> 'w bench \<Rightarrow> 'w outcome" where
  "t3_file_read_random os rnd dir req s =
     for_files (with_file os dir O_RDONLY (\<lambda>fd. t3_rand_loop os rnd fd (FRead fd req) req 0)) [0..<NUMFILES] (snd (call os (FMemalign req) s))"

definition t3_main :: "'w fs \<Rightarrow> (string \<Rightarrow> int) \<Rightarrow> (nat \<Rightarrow> nat) \<Rightarrow> string list \<Rightarrow> 'w bench \<Rightarrow> (int + int list \<times> 'w bench) option" where
  "t3_main os atoi rnd argv s =
     (if length argv \<noteq> 3 then Some (Inl 1)
      else let dir = argv ! 1; req = atoi (argv ! 2)
        in map_option (map_sum id (apfst report))
             (timed os [t3_file_create os dir, t3_file_write_sequential os dir req, \<lambda>s. srand30 (t3_file_read_sequential os dir req s),
                t3_file_write_random os rnd dir req, t3_file_read_random os rnd dir req, t3_file_delete os dir] s))"

section \<open>The calls of a pass\<close>

text \<open>The world with a record of the calls, and an operating system that serves the benchmark.\<close>

definition traced :: "'w fs \<Rightarrow> (fs_call list \<times> 'w) fs" where
  "traced os c tw = (let (r, w) = os c (snd tw) in (r, (fst tw @ [c], w)))"

abbreviation calls :: "(fs_call list \<times> 'w) bench \<Rightarrow> fs_call list" where "calls s \<equiv> fst (world s)"

definition serves :: "'w fs \<Rightarrow> bool" where
  "serves os \<longleftrightarrow> (\<forall>w f fl m fd n. fst (os (FOpen f fl m) w) \<noteq> - 1 \<and> fst (os (FUnlink f) w) \<noteq> - 1 \<and> fst (os (FWrite fd n) w) \<noteq> - 1
     \<and> fst (os (FRead fd n) w) \<noteq> - 1 \<and> fst (os (FMemalign n) w) \<noteq> 0 \<and> fst (os (FMalloc n) w) \<noteq> 0)"

text \<open>Every block number comes up again and again.\<close>

definition fair :: "(nat \<Rightarrow> nat) \<Rightarrow> int \<Rightarrow> bool" where
  "fair rnd m \<longleftrightarrow> (\<forall>b k. 0 \<le> b \<longrightarrow> b < m \<longrightarrow> (\<exists>d. int (rnd (k + d)) mod m = b))"

definition accepts :: "'w fs \<Rightarrow> fs_call \<Rightarrow> bool" where
  "accepts os c \<longleftrightarrow> (\<forall>w. fst (os c w) \<noteq> - 1)"

lemma serves_accepts: "serves os \<Longrightarrow> accepts os (FWrite fd n)" "serves os \<Longrightarrow> accepts os (FRead fd n)"
  by (simp_all add: serves_def accepts_def)

lemma traced_call:
  "call (traced os) c s = (fst (os c (snd (world s))), s\<lparr>world := (calls s @ [c], snd (os c (snd (world s))))\<rparr>)"
  by (simp add: call_def traced_def case_prod_beta Let_def)

lemma seq_calls:
  assumes "0 < req" "accepts os c"
  shows "nat ((FILESIZE - j + req - 1) div req) = k \<Longrightarrow>
    \<exists>s'. seq_loop (traced os) c req j s = Some (Inr s') \<and> calls s' = calls s @ replicate k c \<and> drawn s' = drawn s"
proof (induction k arbitrary: j s)
  case 0
  have "\<not> j < FILESIZE"
  proof
    assume "j < FILESIZE"
    then have "0 < (FILESIZE - j + req - 1) div req" using assms(1) by (simp add: pos_imp_zdiv_pos_iff)
    with 0 show False by simp
  qed
  then show ?case by (subst seq_loop.simps) simp
next
  case (Suc k)
  from Suc.prems have "0 < (FILESIZE - j + req - 1) div req" by linarith
  then have j: "j < FILESIZE" using assms(1) by (simp add: pos_imp_zdiv_pos_iff)
  have "(FILESIZE - j + req - 1) div req = (FILESIZE - (j + req) + req - 1) div req + 1"
    using div_add_self2 [of req "FILESIZE - (j + req) + req - 1"] assms(1) by (simp add: algebra_simps)
  with Suc.prems have "nat ((FILESIZE - (j + req) + req - 1) div req) = k" by linarith
  from Suc.IH [OF this, of "snd (call (traced os) c s)"] j assms(2) show ?case
    by (subst seq_loop.simps) (auto simp: traced_call accepts_def)
qed

section \<open>Random passes visit every block once\<close>

definition free_blocks :: "int list \<Rightarrow> int set" where
  "free_blocks parr = {b. 0 \<le> b \<and> b < int (length parr) \<and> parr ! nat b = 0}"

lemma finite_free [simp]: "finite (free_blocks parr)"
  by (rule finite_subset [of _ "{0..<int (length parr)}"]) (auto simp: free_blocks_def)

lemma free_start: "free_blocks (replicate n 0) = {0..<int n}"
  by (auto simp: free_blocks_def)

lemma free_mark: "b \<in> free_blocks parr \<Longrightarrow> free_blocks (parr[nat b := 1]) = free_blocks parr - {b}"
  by (auto simp: free_blocks_def nth_list_update split: if_splits)

lemma find_free_within:
  assumes m: "m = int (length parr)" "0 < m"
  shows "0 \<le> sp \<Longrightarrow> sp < m \<Longrightarrow> int (rnd (k + d)) mod m \<in> free_blocks parr \<Longrightarrow>
    \<exists>b k'. find_free rnd m parr sp k = Some (b, k') \<and> b \<in> free_blocks parr"
proof (induction d arbitrary: sp k)
  case 0
  show ?case
  proof (cases "parr ! nat sp = 0")
    case True
    with 0 m show ?thesis by (subst find_free.simps) (auto simp: free_blocks_def)
  next
    case False
    let ?b = "int (rnd k) mod m"
    have "?b \<in> free_blocks parr" using 0 by simp
    then have "find_free rnd m parr ?b (Suc k) = Some (?b, Suc k)"
      by (subst find_free.simps) (simp add: free_blocks_def)
    moreover have "find_free rnd m parr sp k = find_free rnd m parr ?b (Suc k)" using 0 False m by (subst find_free.simps) simp
    ultimately show ?thesis using \<open>?b \<in> free_blocks parr\<close> by simp
  qed
next
  case (Suc d)
  show ?case
  proof (cases "parr ! nat sp = 0")
    case True
    with Suc m show ?thesis by (subst find_free.simps) (auto simp: free_blocks_def)
  next
    case False
    then have "find_free rnd m parr sp k = find_free rnd m parr (int (rnd k) mod m) (Suc k)" using Suc.prems m by (subst find_free.simps) simp
    with Suc.IH [of "int (rnd k) mod m" "Suc k"] Suc.prems(3) m show ?thesis by simp
  qed
qed

lemma find_free_ends:
  assumes "m = int (length parr)" "fair rnd m" "free_blocks parr \<noteq> {}" "0 \<le> sp" "sp < m"
  shows "\<exists>b k'. find_free rnd m parr sp k = Some (b, k') \<and> b \<in> free_blocks parr"
proof -
  obtain b where b: "b \<in> free_blocks parr" using assms(3) by blast
  with assms(1,2) obtain d where "int (rnd (k + d)) mod m = b" unfolding fair_def free_blocks_def by blast
  with find_free_within [OF assms(1) _ assms(4,5), of rnd k d] b assms(4,5) show ?thesis by simp
qed

text \<open>The calls for a list of blocks.\<close>

definition transfers :: "int \<Rightarrow> int \<Rightarrow> fs_call \<Rightarrow> int list \<Rightarrow> fs_call list" where
  "transfers fd req c bs = concat (map (\<lambda>b. [FLseek fd (req * b), c]) bs)"

lemma rand_calls:
  assumes ok: "accepts os c" and m: "fair rnd m"
  shows "m = int (length parr) \<Longrightarrow> card (free_blocks parr) = k \<Longrightarrow>
    \<exists>bs s'. rand_loop (traced os) rnd fd c req m parr (int k) s = Some (Inr s') \<and> distinct bs \<and> set bs = free_blocks parr
      \<and> calls s' = calls s @ transfers fd req c bs"
proof (induction k arbitrary: parr s)
  case 0
  have "rand_loop (traced os) rnd fd c req m parr (int 0) s = Some (Inr s)" by (subst rand_loop.simps) simp
  moreover have "free_blocks parr = {}" using 0 by simp
  ultimately show ?case by (intro exI [of _ "[]"] exI [of _ s]) (simp add: transfers_def)
next
  case (Suc k)
  then have ne: "free_blocks parr \<noteq> {}" by auto
  then have "0 < m" using Suc.prems(1) by (auto simp: free_blocks_def)
  then have "0 \<le> int (rnd (drawn s)) mod m" "int (rnd (drawn s)) mod m < m" by simp_all
  from find_free_ends [OF Suc.prems(1) m ne this, of "Suc (drawn s)"] obtain b k' where
    b: "find_free rnd m parr (int (rnd (drawn s)) mod m) (Suc (drawn s)) = Some (b, k')" "b \<in> free_blocks parr" by blast
  have set_b: "arr_set parr b 1 = Some (parr[nat b := 1])" using b(2) by (simp add: free_blocks_def)
  have "card (free_blocks (parr[nat b := 1])) = k" using free_mark [OF b(2)] b(2) Suc.prems(2) by simp
  note IH = Suc.IH [OF _ this]
  let ?s = "snd (call (traced os) c (snd (call (traced os) (FLseek fd (req * b)) (s\<lparr>drawn := k'\<rparr>))))"
  obtain bs s' where bs: "rand_loop (traced os) rnd fd c req m (parr[nat b := 1]) (int k) ?s = Some (Inr s')"
    "distinct bs" "set bs = free_blocks (parr[nat b := 1])" "calls s' = calls ?s @ transfers fd req c bs"
    using IH [of ?s] Suc.prems(1) by auto
  have "rand_loop (traced os) rnd fd c req m parr (int (Suc k)) s = Some (Inr s')"
    using b(1) set_b ok bs(1) by (subst rand_loop.simps) (simp add: traced_call accepts_def)
  moreover have "calls s' = calls s @ transfers fd req c (b # bs)" using bs(4) by (simp add: traced_call transfers_def)
  moreover have "distinct (b # bs)" "set (b # bs) = free_blocks parr" using bs(2,3) free_mark [OF b(2)] b(2) by auto
  ultimately show ?case by blast
qed

section \<open>Whole passes\<close>

definition surrounded :: "string \<Rightarrow> 32 word \<Rightarrow> int \<Rightarrow> int \<Rightarrow> fs_call list \<Rightarrow> fs_call list" where
  "surrounded dir fl req fd cs = FMemalign req # FOpen (filename dir 0) fl MODE_RW # cs @ [FClose fd]"

lemma in_file:
  assumes os: "serves os" and pass: "\<And>fd s. \<exists>cs s'. pass fd s = Some (Inr s') \<and> R fd cs \<and> calls s' = calls s @ cs"
  shows "\<exists>fd cs s'. for_files (with_file (traced os) dir fl pass) [0..<NUMFILES] (snd (call (traced os) (FMemalign req) s)) = Some (Inr s')
    \<and> R fd cs \<and> calls s' = calls s @ surrounded dir fl req fd cs"
proof -
  let ?s = "snd (call (traced os) (FMemalign req) s)"
  let ?o = "call (traced os) (FOpen (filename dir 0) fl MODE_RW) ?s"
  from pass [of "fst ?o" "snd ?o"] obtain cs u where
    u: "pass (fst ?o) (snd ?o) = Some (Inr u)" "R (fst ?o) cs" "calls u = calls (snd ?o) @ cs" by blast
  let ?c = "snd (call (traced os) (FClose (fst ?o)) u)"
  have "fst ?o \<noteq> - 1" using os unfolding serves_def by (simp add: traced_call)
  then have "for_files (with_file (traced os) dir fl pass) [0..<NUMFILES] ?s = Some (Inr ?c)"
    using u(1) by (simp add: NUMFILES_def with_file_def case_prod_beta)
  moreover have "calls ?c = calls s @ surrounded dir fl req (fst ?o) cs" using u(3) by (simp add: traced_call surrounded_def)
  ultimately show ?thesis using u(2) by blast
qed

lemma in_buffer:
  assumes "serves os"
  shows "with_buffer (traced os) req pass s = pass (snd (call (traced os) (FMemalign req) s))"
  using assms unfolding serves_def by (simp add: with_buffer_def traced_call)

lemma rand_pass_calls:
  assumes req: "0 < req" and os: "serves os" and ok: "accepts os (c fd)" and fair: "fair rnd (FILESIZE div req)"
  shows "\<exists>cs s'. rand_pass (traced os) rnd c req fd s = Some (Inr s')
    \<and> (\<exists>bs. distinct bs \<and> set bs = {0..<FILESIZE div req} \<and> cs = FMalloc (4 * (FILESIZE div req)) # transfers fd req (c fd) bs)
    \<and> calls s' = calls s @ cs"
proof -
  let ?m = "FILESIZE div req"
  have m: "0 \<le> ?m" using req by (simp add: FILESIZE_def pos_imp_zdiv_nonneg_iff)
  then have len: "?m = int (length (replicate (nat ?m) (0 :: int)))" "card (free_blocks (replicate (nat ?m) 0)) = nat ?m"
    by (simp_all add: free_start)
  from rand_calls [OF ok fair len, of fd req "snd (call (traced os) (FMalloc (4 * ?m)) s)"] m obtain bs s' where
    bs: "rand_loop (traced os) rnd fd (c fd) req ?m (replicate (nat ?m) 0) ?m (snd (call (traced os) (FMalloc (4 * ?m)) s)) = Some (Inr s')"
      "distinct bs" "set bs = free_blocks (replicate (nat ?m) 0)"
      "calls s' = calls (snd (call (traced os) (FMalloc (4 * ?m)) s)) @ transfers fd req (c fd) bs" by auto
  have b: "blocks req = Some ?m" using req by (simp add: blocks_def)
  have "fst (call (traced os) (FMalloc (4 * ?m)) s) \<noteq> 0" using os unfolding serves_def by (simp add: traced_call)
  with bs(1) b have "rand_pass (traced os) rnd c req fd s = Some (Inr s')" by (simp add: rand_pass_def case_prod_beta)
  moreover have "set bs = {0..<?m}" using bs(3) free_start [of "nat ?m"] m by simp
  moreover have "calls s' = calls s @ FMalloc (4 * ?m) # transfers fd req (c fd) bs" using bs(4) by (simp add: traced_call)
  ultimately show ?thesis using bs(2) by blast
qed

lemma random_calls:
  assumes "0 < req" "serves os" "fair rnd (FILESIZE div req)"
  shows "\<exists>fd bs s'. file_write_random (traced os) rnd dir req s = Some (Inr s') \<and> distinct bs \<and> set bs = {0..<FILESIZE div req}
      \<and> calls s' = calls s @ surrounded dir (or O_DIRECT (or O_WRONLY O_EXCL)) req fd
          (FMalloc (4 * (FILESIZE div req)) # transfers fd req (FWrite fd req) bs)"
    "\<exists>fd bs s'. file_read_random (traced os) rnd dir req s = Some (Inr s') \<and> distinct bs \<and> set bs = {0..<FILESIZE div req}
      \<and> calls s' = calls s @ surrounded dir (or O_DIRECT (or O_RDONLY O_EXCL)) req fd
          (FMalloc (4 * (FILESIZE div req)) # transfers fd req (FRead fd req) bs)"
proof -
  note w = rand_pass_calls [where c = "\<lambda>fd. FWrite fd req", OF assms(1,2) serves_accepts(1) [OF assms(2)] assms(3)]
    and r = rand_pass_calls [where c = "\<lambda>fd. FRead fd req", OF assms(1,2) serves_accepts(2) [OF assms(2)] assms(3)]
  from in_file [where pass = "rand_pass (traced os) rnd (\<lambda>fd. FWrite fd req) req" and R = "\<lambda>fd cs. \<exists>bs. distinct bs \<and> set bs = {0..<FILESIZE div req}
      \<and> cs = FMalloc (4 * (FILESIZE div req)) # transfers fd req (FWrite fd req) bs", OF assms(2) w, of dir "or O_DIRECT (or O_WRONLY O_EXCL)" req s]
  show "\<exists>fd bs s'. file_write_random (traced os) rnd dir req s = Some (Inr s') \<and> distinct bs \<and> set bs = {0..<FILESIZE div req}
      \<and> calls s' = calls s @ surrounded dir (or O_DIRECT (or O_WRONLY O_EXCL)) req fd
          (FMalloc (4 * (FILESIZE div req)) # transfers fd req (FWrite fd req) bs)"
    unfolding file_write_random_def in_buffer [OF assms(2)] by blast
  from in_file [where pass = "rand_pass (traced os) rnd (\<lambda>fd. FRead fd req) req" and R = "\<lambda>fd cs. \<exists>bs. distinct bs \<and> set bs = {0..<FILESIZE div req}
      \<and> cs = FMalloc (4 * (FILESIZE div req)) # transfers fd req (FRead fd req) bs", OF assms(2) r, of dir "or O_DIRECT (or O_RDONLY O_EXCL)" req s]
  show "\<exists>fd bs s'. file_read_random (traced os) rnd dir req s = Some (Inr s') \<and> distinct bs \<and> set bs = {0..<FILESIZE div req}
      \<and> calls s' = calls s @ surrounded dir (or O_DIRECT (or O_RDONLY O_EXCL)) req fd
          (FMalloc (4 * (FILESIZE div req)) # transfers fd req (FRead fd req) bs)"
    unfolding file_read_random_def in_buffer [OF assms(2)] by blast
qed

lemma sequential_calls:
  assumes "0 < req" "serves os"
  shows "\<exists>fd s'. file_write_sequential (traced os) dir req s = Some (Inr s') \<and> calls s' = calls s
      @ surrounded dir (or O_DIRECT (or O_WRONLY O_EXCL)) req fd (replicate (nat ((FILESIZE + req - 1) div req)) (FWrite fd req))"
    "\<exists>fd s'. file_read_sequential (traced os) dir req s = Some (Inr s') \<and> calls s' = calls s
      @ surrounded dir (or O_DIRECT (or O_RDONLY O_EXCL)) req fd (replicate (nat ((FILESIZE + req - 1) div req)) (FRead fd req))"
proof -
  let ?k = "nat ((FILESIZE + req - 1) div req)"
  note ok = serves_accepts [OF assms(2)]
  have w: "\<exists>cs s'. seq_loop (traced os) (FWrite fd req) req 0 s = Some (Inr s') \<and> cs = replicate ?k (FWrite fd req) \<and> calls s' = calls s @ cs" for fd s
    using seq_calls [OF assms(1) ok(1), of 0 ?k fd req s] by auto
  have r: "\<exists>cs s'. seq_loop (traced os) (FRead fd req) req 0 s = Some (Inr s') \<and> cs = replicate ?k (FRead fd req) \<and> calls s' = calls s @ cs" for fd s
    using seq_calls [OF assms(1) ok(2), of 0 ?k fd req s] by auto
  from in_file [where pass = "\<lambda>fd. seq_loop (traced os) (FWrite fd req) req 0" and R = "\<lambda>fd cs. cs = replicate ?k (FWrite fd req)",
      OF assms(2) w, of dir "or O_DIRECT (or O_WRONLY O_EXCL)" req s]
  show "\<exists>fd s'. file_write_sequential (traced os) dir req s = Some (Inr s') \<and> calls s' = calls s
      @ surrounded dir (or O_DIRECT (or O_WRONLY O_EXCL)) req fd (replicate ?k (FWrite fd req))"
    unfolding file_write_sequential_def in_buffer [OF assms(2)] by blast
  from in_file [where pass = "\<lambda>fd. seq_loop (traced os) (FRead fd req) req 0" and R = "\<lambda>fd cs. cs = replicate ?k (FRead fd req)",
      OF assms(2) r, of dir "or O_DIRECT (or O_RDONLY O_EXCL)" req s]
  show "\<exists>fd s'. file_read_sequential (traced os) dir req s = Some (Inr s') \<and> calls s' = calls s
      @ surrounded dir (or O_DIRECT (or O_RDONLY O_EXCL)) req fd (replicate ?k (FRead fd req))"
    unfolding file_read_sequential_def in_buffer [OF assms(2)] by blast
qed

text \<open>The second benchmark.\<close>

lemma t3_rand_calls:
  assumes "0 < req" "req \<le> FILESIZE" "accepts os c"
  shows "nat ((FILESIZE - j + req - 1) div req) = k \<Longrightarrow>
    \<exists>bs s'. t3_rand_loop (traced os) rnd fd c req j s = Some (Inr s') \<and> length bs = k \<and> set bs \<subseteq> {0..<FILESIZE div req}
      \<and> calls s' = calls s @ transfers fd req c bs"
proof (induction k arbitrary: j s)
  case 0
  have "\<not> j < FILESIZE"
  proof
    assume "j < FILESIZE"
    then have "0 < (FILESIZE - j + req - 1) div req" using assms(1) by (simp add: pos_imp_zdiv_pos_iff)
    with 0 show False by simp
  qed
  then have "t3_rand_loop (traced os) rnd fd c req j s = Some (Inr s)" by (subst t3_rand_loop.simps) simp
  then show ?case by (intro exI [of _ "[]"] exI [of _ s]) (simp add: transfers_def)
next
  case (Suc k)
  from Suc.prems have "0 < (FILESIZE - j + req - 1) div req" by linarith
  then have j: "j < FILESIZE" using assms(1) by (simp add: pos_imp_zdiv_pos_iff)
  have "(FILESIZE - j + req - 1) div req = (FILESIZE - (j + req) + req - 1) div req + 1"
    using div_add_self2 [of req "FILESIZE - (j + req) + req - 1"] assms(1) by (simp add: algebra_simps)
  with Suc.prems have k: "nat ((FILESIZE - (j + req) + req - 1) div req) = k" by linarith
  let ?m = "FILESIZE div req"
  have m: "0 < ?m" using assms(1,2) by (simp add: pos_imp_zdiv_pos_iff)
  let ?b = "int (rnd (drawn s)) mod ?m"
  let ?s = "snd (call (traced os) c (snd (call (traced os) (FLseek fd (req * ?b)) (s\<lparr>drawn := Suc (drawn s)\<rparr>))))"
  from Suc.IH [OF k, of ?s] obtain bs s' where bs: "t3_rand_loop (traced os) rnd fd c req (j + req) ?s = Some (Inr s')" "length bs = k"
    "set bs \<subseteq> {0..<?m}" "calls s' = calls ?s @ transfers fd req c bs" by blast
  have "t3_rand_loop (traced os) rnd fd c req j s = Some (Inr s')"
    using j m assms(1,3) bs(1) by (subst t3_rand_loop.simps) (simp add: blocks_def traced_call accepts_def Let_def)
  moreover have "calls s' = calls s @ transfers fd req c (?b # bs)" using bs(4) by (simp add: traced_call transfers_def)
  moreover have "set (?b # bs) \<subseteq> {0..<?m}" "length (?b # bs) = Suc k" using bs(2,3) m by simp_all
  ultimately show ?case by blast
qed

lemma t3_random_ok:
  assumes "0 < req" "req \<le> FILESIZE" "serves os"
  shows "\<exists>fd bs s'. t3_file_write_random (traced os) rnd dir req s = Some (Inr s') \<and> length bs = nat ((FILESIZE + req - 1) div req)
      \<and> set bs \<subseteq> {0..<FILESIZE div req}
      \<and> calls s' = calls s @ surrounded dir (or O_WRONLY O_EXCL) req fd (transfers fd req (FWrite fd req) bs)"
proof -
  let ?k = "nat ((FILESIZE + req - 1) div req)"
  have w: "\<exists>cs s'. t3_rand_loop (traced os) rnd fd (FWrite fd req) req 0 s = Some (Inr s')
      \<and> (\<exists>bs. length bs = ?k \<and> set bs \<subseteq> {0..<FILESIZE div req} \<and> cs = transfers fd req (FWrite fd req) bs) \<and> calls s' = calls s @ cs" for fd s
    using t3_rand_calls [OF assms(1,2) serves_accepts(1) [OF assms(3)], of 0 ?k rnd fd fd req s] by auto
  from in_file [where pass = "\<lambda>fd. t3_rand_loop (traced os) rnd fd (FWrite fd req) req 0"
      and R = "\<lambda>fd cs. \<exists>bs. length bs = ?k \<and> set bs \<subseteq> {0..<FILESIZE div req} \<and> cs = transfers fd req (FWrite fd req) bs",
      OF assms(3) w, of dir "or O_WRONLY O_EXCL" req s]
  show ?thesis unfolding t3_file_write_random_def in_buffer [OF assms(3)] by blast
qed

lemma t3_random_undefined:
  assumes "FILESIZE < req" "serves os"
  shows "t3_file_write_random (traced os) rnd dir req s = None"
proof -
  have "blocks req = Some 0" using assms(1) by (simp add: blocks_def FILESIZE_def)
  then have "t3_rand_loop (traced os) rnd fd c req 0 u = None" for fd c u by (subst t3_rand_loop.simps) (simp add: FILESIZE_def)
  then show ?thesis using assms(2) unfolding t3_file_write_random_def in_buffer [OF assms(2)]
    by (simp add: NUMFILES_def with_file_def traced_call serves_def)
qed

section \<open>Main\<close>

lemma timed_ends:
  "\<forall>p \<in> set ps. \<forall>s. \<exists>s'. p s = Some (Inr s') \<Longrightarrow> \<exists>ts s'. timed os ps s = Some (Inr (ts, s')) \<and> length ts = Suc (length ps)"
proof (induction ps arbitrary: s)
  case Nil
  show ?case by (simp add: case_prod_beta)
next
  case (Cons p ps)
  from Cons.prems obtain u where u: "p (snd (call os FTime s)) = Some (Inr u)" by (meson list.set_intros(1))
  from Cons.IH [of u] Cons.prems obtain ts s' where "timed os ps u = Some (Inr (ts, s'))" "length ts = Suc (length ps)" by auto
  with u show ?case by (simp add: case_prod_beta)
qed

lemma report_sum: "length ts = 7 \<Longrightarrow> length (report ts) = 7 \<and> report ts ! 6 = sum_list (take 6 (report ts))"
  by (simp add: report_def)

lemma create_delete_end:
  assumes "serves os"
  shows "\<exists>s'. file_create (traced os) dir s = Some (Inr s')" "\<exists>s'. file_delete (traced os) dir s = Some (Inr s')"
  using assms by (simp_all add: file_create_def file_delete_def NUMFILES_def traced_call serves_def)

text \<open>C32. The random passes of the first benchmark: when the calls succeed and \<open>rand\<close> yields every block number again and again, the
  passes end, and between opening and closing the file they seek and transfer every block of the file exactly once, in
  some order.\<close>

theorem fsbench_random_covers:
  assumes "0 < req" "serves os" "fair rnd (FILESIZE div req)"
  shows "(\<exists>fd bs s'. file_write_random (traced os) rnd dir req s = Some (Inr s') \<and> distinct bs \<and> set bs = {0..<FILESIZE div req}
      \<and> calls s' = calls s @ surrounded dir (or O_DIRECT (or O_WRONLY O_EXCL)) req fd
          (FMalloc (4 * (FILESIZE div req)) # transfers fd req (FWrite fd req) bs))
    \<and> (\<exists>fd bs s'. file_read_random (traced os) rnd dir req s = Some (Inr s') \<and> distinct bs \<and> set bs = {0..<FILESIZE div req}
      \<and> calls s' = calls s @ surrounded dir (or O_DIRECT (or O_RDONLY O_EXCL)) req fd
          (FMalloc (4 * (FILESIZE div req)) # transfers fd req (FRead fd req) bs))"
  using random_calls [OF assms] by blast

text \<open>The whole benchmark then ends with a report of seven times, the last of which is the sum of the others.\<close>

lemma fsbench_reports:
  assumes argv: "length argv = 3" and req: "0 < atoi (argv ! 2)" and os: "serves os" and rnd: "fair rnd (FILESIZE div atoi (argv ! 2))"
  shows "\<exists>r s'. bench_main (traced os) atoi rnd argv s = Some (Inr (r, s')) \<and> length r = 7 \<and> r ! 6 = sum_list (take 6 r)"
proof -
  let ?dir = "argv ! 1" and ?req = "atoi (argv ! 2)"
  let ?ps = "[file_create (traced os) ?dir, file_write_sequential (traced os) ?dir ?req, \<lambda>s. srand30 (file_read_sequential (traced os) ?dir ?req s),
    file_write_random (traced os) rnd ?dir ?req, file_read_random (traced os) rnd ?dir ?req, file_delete (traced os) ?dir]"
  have "\<exists>s'. srand30 (file_read_sequential (traced os) ?dir ?req s) = Some (Inr s')" for s
    using sequential_calls(2) [OF req os, of ?dir s] by (auto simp: srand30_def)
  moreover have "\<exists>s'. file_write_sequential (traced os) ?dir ?req s = Some (Inr s')" for s using sequential_calls(1) [OF req os] by blast
  moreover have "\<exists>s'. file_write_random (traced os) rnd ?dir ?req s = Some (Inr s')" "\<exists>s'. file_read_random (traced os) rnd ?dir ?req s = Some (Inr s')" for s
    using random_calls [OF req os rnd] by blast+
  ultimately have "\<forall>p \<in> set ?ps. \<forall>s. \<exists>s'. p s = Some (Inr s')" using create_delete_end [OF os] by simp
  from timed_ends [OF this, of "traced os" s] obtain ts s' where ts: "timed (traced os) ?ps s = Some (Inr (ts, s'))" "length ts = 7" by auto
  then have "bench_main (traced os) atoi rnd argv s = Some (Inr (report ts, s'))" using argv by (simp add: bench_main_def Let_def)
  with report_sum [OF ts(2)] show ?thesis by blast
qed

definition quiet_os :: "unit fs" where
  "quiet_os c w = (3, w)"

lemma quiet_serves: "serves quiet_os"
  by (simp add: serves_def quiet_os_def)

lemma id_fair: "0 < m \<Longrightarrow> fair id m"
proof (unfold fair_def, intro allI impI)
  fix b :: int and k :: nat
  assume m: "0 < m" and b: "0 \<le> b" "b < m"
  have "(int k + (b - int k) mod m) mod m = b" using b m by (simp add: mod_add_right_eq)
  moreover have "0 \<le> (b - int k) mod m" using m by simp
  ultimately have "int (id (k + nat ((b - int k) mod m))) mod m = b" by simp
  then show "\<exists>d. int (id (k + d)) mod m = b" by blast
qed

lemma fsbench_random_covers_witness:
  "\<exists>fd bs s'. file_write_random (traced quiet_os) id ''tmp'' 4096 \<lparr>world = ([], ()), drawn = 0\<rparr> = Some (Inr s') \<and> distinct bs \<and> set bs = {0..<2560}
    \<and> calls s' = surrounded ''tmp'' (or O_DIRECT (or O_WRONLY O_EXCL)) 4096 fd (FMalloc 10240 # transfers fd 4096 (FWrite fd 4096) bs)"
proof -
  have "FILESIZE div 4096 = 2560" by (simp add: FILESIZE_def)
  with fsbench_random_covers [of 4096 quiet_os id "''tmp''" "\<lparr>world = ([], ()), drawn = 0\<rparr>"] quiet_serves id_fair [of 2560]
  show ?thesis by simp
qed

end
