(* ===== verification/FuncExamples.thy ===== *)
theory FuncExamples
  imports Prelude
begin

text \<open>
  The two demonstration programs \<open>src/hw3/functions_example.c\<close> and \<open>src/hw3/mem_functions_example.c\<close>. The shell and the
  system calls are a parameter, a function from a call and a world to an answer and a new world; the state records the text
  printed and the calls made with their results. Undefined are: a string without terminator, a word too long for its buffer, reading
  a variable without a value, printing a null string. The theorems are about the menu of the first program (which numbers end it,
  and which input keeps it busy for ever) and about the descriptors its examples leave open, and about what the second
  program prints.
\<close>

section \<open>Calls and output\<close>

datatype hw3_call =
    System string | Open string nat | Read int nat | Lseek int int nat | Close int
  | Unlink string | Link string string | Symlink string string | Readlink string nat
  | Fchmod int "32 word" | Getpwnam string | Fchown int int int | Fstat int | Opendir string | Readdir int | Getcwd nat

record stat_buf =
  st_dev :: int
  st_ino :: int
  st_mode :: int
  st_nlink :: int
  st_uid :: int
  st_gid :: int
  st_size :: int
  st_blksize :: int

text \<open>What a call returns, the bytes it stores or points to, the user and group of a password entry, the file status it stores.\<close>

record answer =
  a_ret :: int
  a_bytes :: string
  a_uid :: int
  a_gid :: int
  a_stat :: "stat_buf option"

type_synonym 'w system = "hw3_call \<Rightarrow> 'w \<Rightarrow> answer \<times> 'w"

record 'w demo =
  d_world :: 'w
  d_out :: string
  d_calls :: "(hw3_call \<times> int) list"

definition sys :: "'w system \<Rightarrow> hw3_call \<Rightarrow> 'w demo \<Rightarrow> answer \<times> 'w demo" where
  "sys os c s = (let (a, w) = os c (d_world s) in (a, s\<lparr>d_world := w, d_calls := d_calls s @ [(c, a_ret a)]\<rparr>))"

definition run :: "'w system \<Rightarrow> hw3_call \<Rightarrow> 'w demo \<Rightarrow> 'w demo" where
  "run os c s = snd (sys os c s)"

definition say :: "string \<Rightarrow> 'w demo \<Rightarrow> 'w demo" where
  "say t s = s\<lparr>d_out := d_out s @ t\<rparr>"

definition nl :: string where "nl = [CHR 0x0A]"

definition banner :: "string \<Rightarrow> string" where
  "banner t = replicate 23 (CHR ''-'') @ t @ replicate 23 (CHR ''-'') @ nl"

definition O_RDWR :: nat where "O_RDWR = 2"
definition SEEK_SET :: nat where "SEEK_SET = 0"
definition S_IROTH :: "32 word" where "S_IROTH = 4"
definition S_IWOTH :: "32 word" where "S_IWOTH = 2"
definition S_IXOTH :: "32 word" where "S_IXOTH = 1"

text \<open>Buffers of 256 characters, set to zero.\<close>

definition zero_buf :: string where "zero_buf = replicate 256 (CHR 0x00)"

definition fill :: "string \<Rightarrow> string \<Rightarrow> string option" where
  "fill data buf = (if length data \<le> length buf then Some (data @ drop (length data) buf) else None)"

definition c_string :: "string \<Rightarrow> string option" where
  "c_string buf = (if CHR 0x00 \<in> set buf then Some (takeWhile (\<lambda>c. c \<noteq> CHR 0x00) buf) else None)"

definition alphabet_to :: "string \<Rightarrow> string" where
  "alphabet_to f = ''echo abcdefghijklmnopqrstuvwxyz > '' @ f"

fun oct_nat :: "nat \<Rightarrow> string" where
  "oct_nat n = (if n < 8 then [char_of (48 + n)] else oct_nat (n div 8) @ [char_of (48 + n mod 8)])"

declare oct_nat.simps [simp del]

section \<open>The examples\<close>

definition lseek_example :: "'w system \<Rightarrow> 'w demo \<Rightarrow> 'w demo option" where
  "lseek_example os s = do {
     let s = say (banner ''lseek_example'') s;
     let s = run os (System ''touch lseek_example.txt'') s;
     let s = run os (System (alphabet_to ''lseek_example.txt'')) s;
     let (a, s) = sys os (Open ''lseek_example.txt'' O_RDWR) s;
     let fd = a_ret a;
     s \<leftarrow> (if fd \<noteq> - 1 then do {
         let (a, s) = sys os (Read fd 256) s;
         buf \<leftarrow> fill (a_bytes a) zero_buf;
         t \<leftarrow> c_string buf;
         let s = say (''inital read : '' @ t @ nl) s;
         let s = run os (Lseek fd 10 SEEK_SET) s;
         let (a, s) = sys os (Read fd 256) s;
         buf \<leftarrow> fill (a_bytes a) zero_buf;
         t \<leftarrow> c_string buf;
         let s = say (''after lseek : '' @ t @ nl) s;
         Some (run os (Close fd) s)
       } else Some s);
     let s = run os (System ''rm lseek_example.txt'') s;
     Some (say (banner ''lseek_example finished'') s)
   }"

definition unlink_example :: "'w system \<Rightarrow> 'w demo \<Rightarrow> 'w demo option" where
  "unlink_example os s = do {
     let s = say (banner ''unlink_example'') s;
     let s = run os (System ''touch unlink_example'') s;
     let s = run os (System (alphabet_to ''unlink_example'')) s;
     let s = say (''file unlink_example has been created!'' @ nl) s;
     let s = run os (System ''ls -l'') s;
     let s = run os (Unlink ''unlink_example'') s;
     let s = say (''unlink has performed'' @ nl) s;
     let s = run os (System ''ls -l'') s;
     Some (say (banner ''unlink_example finished'') s)
   }"

definition link_example :: "'w system \<Rightarrow> 'w demo \<Rightarrow> 'w demo option" where
  "link_example os s = do {
     let s = say (banner ''link_example'') s;
     let s = run os (System ''touch link_example'') s;
     let s = run os (System (alphabet_to ''link_example'')) s;
     let s = say (''file link_example has been created!'' @ nl) s;
     let s = run os (Link ''link_example'' ''hard_link_of_link_example'') s;
     let s = say (''link has performed between link_example and hard_link_of_link_example'' @ nl) s;
     let s = run os (System ''ls -i -l'') s;
     let s = run os (System ''rm link_example hard_link_of_link_example'') s;
     Some (say (banner ''link_example finished'') s)
   }"

definition symlink_example :: "'w system \<Rightarrow> 'w demo \<Rightarrow> 'w demo option" where
  "symlink_example os s = do {
     let s = say (banner ''symlink_example'') s;
     let s = run os (System ''touch symlink_example'') s;
     let s = run os (System (alphabet_to ''symlink_example'')) s;
     let s = say (''file symlink_example has been created!'' @ nl) s;
     let s = run os (Symlink ''symlink_example'' ''sym_link_of_symlink_example'') s;
     let s = say (''symlink has performed between symlink_example and sym_link_of_symlink_example'' @ nl) s;
     let s = run os (System ''ls -l'') s;
     let s = run os (System ''rm symlink_example sym_link_of_symlink_example'') s;
     Some (say (banner ''symlink_example finished'') s)
   }"

definition readlink_example :: "'w system \<Rightarrow> 'w demo \<Rightarrow> 'w demo option" where
  "readlink_example os s = do {
     let s = say (banner ''readlink_example'') s;
     let s = run os (System ''touch readlink_example'') s;
     let s = run os (System (alphabet_to ''readlink_example'')) s;
     let s = run os (Symlink ''readlink_example'' ''symlink_of_readlink_example'') s;
     let s = run os (System ''ls -l'') s;
     let (a, s) = sys os (Readlink ''symlink_of_readlink_example'' 256) s;
     buf \<leftarrow> fill (a_bytes a) zero_buf;
     t \<leftarrow> c_string buf;
     let s = say (nl @ nl @ ''readlink result of symlink_of_readlink_example : '' @ t @ nl) s;
     let s = run os (System ''rm symlink_of_readlink_example readlink_example'') s;
     Some (say (banner ''readlink_example finished'') s)
   }"

definition fchmod_example :: "'w system \<Rightarrow> 'w demo \<Rightarrow> 'w demo option" where
  "fchmod_example os s = do {
     let s = say (banner ''fchmod_example'') s;
     let s = run os (System ''touch fchmod_example'') s;
     let s = say (''file fchmod_example has created'' @ nl) s;
     let s = run os (System ''ls -l'') s;
     let (a, s) = sys os (Open ''fchmod_example'' O_RDWR) s;
     let fd = a_ret a;
     let s = (if fd \<noteq> - 1 then run os (Close fd) (run os (Fchmod fd (or S_IROTH (or S_IWOTH S_IXOTH))) s) else s);
     let s = say (''fchmod has been performed : 0007'' @ nl) s;
     let s = run os (System ''ls -l'') s;
     let s = run os (System ''rm fchmod_example'') s;
     Some (say (banner ''fchmod_example finished'') s)
   }"

text \<open>\<open>scanf\<close> with \<open>%s\<close> skips white space and reads a word, into 256 characters; at the end of the input it stores nothing.\<close>

definition space :: "char \<Rightarrow> bool" where
  "space c \<longleftrightarrow> c \<in> {CHR '' '', CHR 0x09, CHR 0x0A, CHR 0x0B, CHR 0x0C, CHR 0x0D}"

definition scanf_s :: "string \<Rightarrow> (string \<times> string) option" where
  "scanf_s inp = (let r = dropWhile space inp; w = takeWhile (\<lambda>c. \<not> space c) r
     in if length w < 256 then Some (w, drop (length w) r) else None)"

definition fchown_example :: "'w system \<Rightarrow> string \<Rightarrow> 'w demo \<Rightarrow> (string \<times> 'w demo) option" where
  "fchown_example os inp s = do {
     let s = say (banner ''fchown_example'') s;
     let s = run os (System ''touch fchown_example'') s;
     let s = run os (System ''ls -l'') s;
     let s = say ''Enter the user session name : '' s;
     (username, inp) \<leftarrow> scanf_s inp;
     let (a, s) = sys os (Getpwnam username) s;
     let s = (if a_ret a = 0 then say (''No such username '' @ username @ nl) s
        else let (b, s) = sys os (Open ''fchown_example'' O_RDWR) s; fd = a_ret b;
                 s = (if fd \<noteq> - 1 then run os (Close fd) (run os (Fchown fd (a_uid a) (a_gid a)) s) else s)
             in run os (System ''ls -l'') (say (''fchown has been performed to file fchown_example by username'' @ nl) s));
     let s = run os (System ''rm fchown_example'') s;
     Some (inp, say (banner ''fchown_example finished'') s)
   }"

definition show_stat :: "stat_buf \<Rightarrow> string" where
  "show_stat b = ''id_of_device : '' @ dec_int (st_dev b) @ nl @ ''inode_number : '' @ dec_int (st_ino b) @ nl @
     ''permissions : '' @ oct_nat (nat (st_mode b mod 2 ^ 32)) @ nl @ ''number_of_hard_links : '' @ dec_int (st_nlink b) @ nl @
     ''user_id_of_owner : '' @ dec_int (st_uid b) @ nl @ ''group_id_of_owner : '' @ dec_int (st_gid b) @ nl @
     ''totalsize : '' @ dec_int (st_size b) @ nl @ ''blocksize : '' @ dec_int (st_blksize b) @ nl"

text \<open>The status buffer has no value until \<open>fstat\<close> has stored one.\<close>

definition fstat_example :: "'w system \<Rightarrow> 'w demo \<Rightarrow> 'w demo option" where
  "fstat_example os s = do {
     let s = say (banner ''fstat_example'') s;
     let s = run os (System ''touch fstat_example'') s;
     let s = run os (System (''echo '' @ concat (replicate 5 ''abcdefghijklmnopqrstuvwxyz'') @ '' > fstat_example'')) s;
     let (a, s) = sys os (Open ''fstat_example'' O_RDWR) s;
     let fd = a_ret a;
     let s = say (''information of fstat_example'' @ nl) s;
     s \<leftarrow> (if fd \<noteq> - 1 then do {
         let (b, s) = sys os (Fstat fd) s;
         let s = run os (Close fd) s;
         buf \<leftarrow> a_stat b;
         Some (say (show_stat buf) s)
       } else Some s);
     let s = run os (System ''rm fstat_example'') s;
     Some (say (banner ''fstat_example finished'') s)
   }"

text \<open>The loop ends when \<open>readdir\<close> returns the null pointer.\<close>

partial_function (option) readdir_loop :: "'w system \<Rightarrow> int \<Rightarrow> 'w demo \<Rightarrow> 'w demo option" where
  "readdir_loop os d s =
     (if a_ret (fst (sys os (Readdir d) s)) \<noteq> 0
      then readdir_loop os d (say (''Name : '' @ a_bytes (fst (sys os (Readdir d) s)) @ nl) (snd (sys os (Readdir d) s)))
      else Some (snd (sys os (Readdir d) s)))"

definition readdir_example :: "'w system \<Rightarrow> 'w demo \<Rightarrow> 'w demo option" where
  "readdir_example os s = do {
     let s = say (banner ''readdir_example'') s;
     let (a, s) = sys os (Opendir ''.'') s;
     s \<leftarrow> (if a_ret a = 0 then Some s else readdir_loop os (a_ret a) s);
     Some (say (banner ''readdir_example finished'') s)
   }"

text \<open>The result of \<open>getcwd\<close> is printed as a string, whether it is null or not.\<close>

definition getcwd_example :: "'w system \<Rightarrow> 'w demo \<Rightarrow> 'w demo option" where
  "getcwd_example os s = do {
     let s = say (banner ''getcwd_example'') s;
     let (a, s) = sys os (Getcwd 256) s;
     buf \<leftarrow> fill (a_bytes a) zero_buf;
     t \<leftarrow> c_string buf;
     ret \<leftarrow> (if a_ret a \<noteq> 0 then Some t else None);
     let s = say (''return from getcwd : '' @ ret @ nl) s;
     let s = say (''buf passed as parameter : '' @ t @ nl) s;
     Some (say (banner ''getcwd_example finished'') s)
   }"

section \<open>The menu\<close>

text \<open>\<open>scanf\<close> with \<open>%d\<close>: white space, a sign, digits. When there is no number only the space and the sign are consumed and nothing is
  stored; a number that does not fit an \<open>int\<close> is undefined.\<close>

definition digit :: "char \<Rightarrow> bool" where
  "digit c \<longleftrightarrow> 48 \<le> (of_char c :: nat) \<and> (of_char c :: nat) \<le> 57"

definition num_of :: "string \<Rightarrow> nat" where
  "num_of ds = foldl (\<lambda>n c. 10 * n + (of_char c - 48)) 0 ds"

definition sign :: "string \<Rightarrow> int \<times> string" where
  "sign r = (case r of c # cs \<Rightarrow> if c = CHR ''-'' then (- 1, cs) else if c = CHR ''+'' then (1, cs) else (1, r) | [] \<Rightarrow> (1, r))"

definition INT_MIN :: int where "INT_MIN = - (2 ^ 31)"
definition INT_MAX :: int where "INT_MAX = 2 ^ 31 - 1"

definition scanf_d :: "string \<Rightarrow> (int option \<times> string) option" where
  "scanf_d inp = (let (sg, r) = sign (dropWhile space inp); ds = takeWhile digit r; v = sg * int (num_of ds)
     in if ds = [] then Some (None, r)
        else if INT_MIN \<le> v \<and> v \<le> INT_MAX then Some (Some v, drop (length ds) r) else None)"

definition menu :: string where
  "menu = ''Enter the execution number of function operation example'' @ nl @ nl @ concat (List.map (\<lambda>t. CHR 0x09 # t @ nl)
     [''1. lseek function'', ''2. unlink function'', ''3. link function'', ''4. symlink function'', ''5. readlink function'',
      ''6. fchmod function'', ''7. fchown function'', ''8. fstat function'', ''9. readdir function'', ''10. getcwd function'', ''11 EXIT''])"

text \<open>The examples that do not read the input, and the answer to other numbers.\<close>

definition quiet_example :: "'w system \<Rightarrow> int \<Rightarrow> 'w demo \<Rightarrow> 'w demo option" where
  "quiet_example os n s =
     (if n = 1 then lseek_example os s
      else if n = 2 then unlink_example os s
      else if n = 3 then link_example os s
      else if n = 4 then symlink_example os s
      else if n = 5 then readlink_example os s
      else if n = 6 then fchmod_example os s
      else if n = 8 then fstat_example os s
      else if n = 9 then readdir_example os s
      else if n = 10 then getcwd_example os s
      else Some (say (''Wrong number, try again'' @ nl) s))"

definition selected :: "'w system \<Rightarrow> int \<Rightarrow> string \<Rightarrow> 'w demo \<Rightarrow> (string \<times> 'w demo) option" where
  "selected os n inp s = (if n = 7 then fchown_example os inp s else map_option (Pair inp) (quiet_example os n s))"

text \<open>One turn of the loop in \<open>main\<close>: whether it was the last, the number, the rest of the input. The number has no value at first.\<close>

definition main_turn :: "'w system \<Rightarrow> int option \<times> string \<times> 'w demo \<Rightarrow> (bool \<times> int option \<times> string \<times> 'w demo) option" where
  "main_turn os = (\<lambda>(number, inp, s). do {
     let s = say menu s;
     (v, inp) \<leftarrow> scanf_d inp;
     let number = (case v of None \<Rightarrow> number | Some n \<Rightarrow> Some n);
     n \<leftarrow> number;
     if n = 11 then Some (True, number, inp, s)
     else do { (inp, s) \<leftarrow> selected os n inp s; Some (False, number, inp, s) }
   })"

text \<open>The first turns of the loop, and whether the program has ended by then.\<close>

fun main_turns :: "'w system \<Rightarrow> nat \<Rightarrow> int option \<times> string \<times> 'w demo \<Rightarrow> (bool \<times> int option \<times> string \<times> 'w demo) option" where
  "main_turns os 0 st = Some (False, st)"
| "main_turns os (Suc k) st = do {
     (over, st) \<leftarrow> main_turn os st;
     if over then Some (True, st) else main_turns os k st
   }"

section \<open>The memory example\<close>

text \<open>\<open>mem_functions_example.c\<close>. The allocator is a parameter: the address it returns (0 for none) and the usable size of a block.
  A block holds signed characters; what it holds at first, or behind the old end, is the parameter \<open>junk\<close>. Written outside the
  requested size it is undefined. Of an address the lowest 32 bits are printed.\<close>

definition MAX_ALLOCATION_SIZE :: nat where "MAX_ALLOCATION_SIZE = 16"
definition NEXT_ALLOCATION_SIZE :: nat where "NEXT_ALLOCATION_SIZE = 32"

definition char_of_int :: "int \<Rightarrow> int" where
  "char_of_int v = (v + 128) mod 256 - 128"

fun mem_loop :: "nat \<Rightarrow> nat list \<Rightarrow> int list \<Rightarrow> (nat \<times> int) list \<Rightarrow> (int list \<times> (nat \<times> int) list) option" where
  "mem_loop ptr [] blk out = Some (blk, out)"
| "mem_loop ptr (i # is) blk out = do {
     blk \<leftarrow> arr_set blk (int i) (char_of_int (int i + 1));
     v \<leftarrow> arr_get blk (int i);
     mem_loop ptr is blk (out @ [((ptr + i) mod 2 ^ 32, v)])
   }"

text \<open>The result: the two usable sizes and the lines with address and value. \<open>p\<close> and \<open>q\<close> are what \<open>malloc\<close> and \<open>realloc\<close> return.\<close>

definition mem_main :: "(nat \<Rightarrow> nat) \<Rightarrow> nat \<Rightarrow> nat \<Rightarrow> int list \<Rightarrow> int list \<Rightarrow> ((nat \<times> nat) \<times> (nat \<times> int) list) option" where
  "mem_main usable p q junk junk' =
     (if p = 0 then None
      else do {
        (blk, out) \<leftarrow> mem_loop p [0..<MAX_ALLOCATION_SIZE] (take MAX_ALLOCATION_SIZE junk) [];
        if q = 0 then None
        else do {
          (blk, out) \<leftarrow> mem_loop q [0..<NEXT_ALLOCATION_SIZE] (blk @ take (NEXT_ALLOCATION_SIZE - MAX_ALLOCATION_SIZE) junk') out;
          Some ((usable p, usable q), out)
        }
      })"

lemma mem_loop_fills:
  "\<forall>i \<in> set is. i < length blk \<and> i < 127 \<Longrightarrow>
   \<exists>blk'. mem_loop ptr is blk out = Some (blk', out @ List.map (\<lambda>i. ((ptr + i) mod 2 ^ 32, int i + 1)) is) \<and> length blk' = length blk"
proof (induction "is" arbitrary: blk out)
  case (Cons i "is")
  let ?blk = "blk[i := int i + 1]"
  have v: "char_of_int (int i + 1) = int i + 1" using Cons.prems by (simp add: char_of_int_def)
  from Cons.IH [of ?blk "out @ [((ptr + i) mod 2 ^ 32, int i + 1)]"] Cons.prems v show ?case by simp
qed simp

text \<open>Both loops print the numbers from 1 on with ascending addresses, whatever the allocator does, unless an allocation fails.\<close>

lemma mem_main_output:
  assumes "16 \<le> length junk" "16 \<le> length junk'"
  shows "mem_main usable p q junk junk' = (if p = 0 \<or> q = 0 then None
    else Some ((usable p, usable q), List.map (\<lambda>i. ((p + i) mod 2 ^ 32, int i + 1)) [0..<16] @ List.map (\<lambda>i. ((q + i) mod 2 ^ 32, int i + 1)) [0..<32]))"
proof -
  obtain b where b: "mem_loop p [0..<16] (take 16 junk) [] = Some (b, [] @ List.map (\<lambda>i. ((p + i) mod 2 ^ 32, int i + 1)) [0..<16])" "length b = 16"
    using mem_loop_fills [of "[0..<16]" "take 16 junk" p "[]"] assms by auto
  have "length (b @ take 16 junk') = 32" using b(2) assms by simp
  then obtain b' where "mem_loop q [0..<32] (b @ take 16 junk') ([] @ List.map (\<lambda>i. ((p + i) mod 2 ^ 32, int i + 1)) [0..<16])
      = Some (b', ([] @ List.map (\<lambda>i. ((p + i) mod 2 ^ 32, int i + 1)) [0..<16]) @ List.map (\<lambda>i. ((q + i) mod 2 ^ 32, int i + 1)) [0..<32])"
    using mem_loop_fills [of "[0..<32]" "b @ take 16 junk'" q] by fastforce
  with b(1) show ?thesis by (simp add: mem_main_def MAX_ALLOCATION_SIZE_def NEXT_ALLOCATION_SIZE_def del: upt_rec_numeral)
qed

section \<open>Reading what is printed\<close>

lemma num_of_snoc: "num_of (ds @ [c]) = 10 * num_of ds + (of_char c - 48)"
  by (simp add: num_of_def)

lemma dec_nat_digits: "dec_nat n \<noteq> [] \<and> (\<forall>c \<in> set (dec_nat n). digit c) \<and> num_of (dec_nat n) = n"
proof (induction n rule: less_induct)
  case (less n)
  have d: "of_char (char_of (48 + m :: nat) :: char) = 48 + m" if "m < 10" for m :: nat using that by simp
  show ?case
  proof (cases "n < 10")
    case True
    with d [OF True] show ?thesis by (simp add: dec_nat.simps [of n] digit_def num_of_def)
  next
    case False
    with less.IH [of "n div 10"] d [of "n mod 10"] show ?thesis
      by (simp add: dec_nat.simps [of n] num_of_snoc) (simp add: digit_def)
  qed
qed

lemma takeWhile_digits: "\<forall>x \<in> set xs. D x \<Longrightarrow> ys = [] \<or> \<not> D (hd ys) \<Longrightarrow> takeWhile D (xs @ ys) = xs"
  by (induction xs) (cases ys; simp)+

lemma digit_no_sign: "digit c \<Longrightarrow> c \<noteq> CHR ''-'' \<and> c \<noteq> CHR ''+'' \<and> \<not> space c"
  by (auto simp: digit_def space_def)

text \<open>A decimal number is read back.\<close>

lemma dec_int_sign: "dec_int i = (if i < 0 then ''-'' else []) @ dec_nat (nat \<bar>i\<bar>)"
  by (simp add: dec_int_def)

lemma scanf_dec_int:
  assumes r: "INT_MIN \<le> i" "i \<le> INT_MAX" and rest: "rest = [] \<or> \<not> digit (hd rest)" and inp: "dropWhile space inp = dec_int i @ rest"
  shows "scanf_d inp = Some (Some i, rest)"
proof -
  define ds where "ds = dec_nat (nat \<bar>i\<bar>)"
  have d: "ds \<noteq> []" "\<forall>c \<in> set ds. digit c" "num_of ds = nat \<bar>i\<bar>" using dec_nat_digits unfolding ds_def by blast+
  then obtain c cs where c: "ds = c # cs" by (cases ds) auto
  with d(2) have nosign: "c \<noteq> CHR ''-'' \<and> c \<noteq> CHR ''+'' \<and> \<not> space c" using digit_no_sign by simp
  have "dropWhile space inp = (if i < 0 then ''-'' else []) @ ds @ rest" unfolding inp dec_int_sign ds_def by simp
  then have "sign (dropWhile space inp) = (if i < 0 then - 1 else 1, ds @ rest)"
    using nosign c by (simp add: sign_def)
  moreover have "takeWhile digit (ds @ rest) = ds" by (rule takeWhile_digits) (use d(2) rest in auto)
  ultimately show ?thesis using d(1,3) r by (simp add: scanf_d_def)
qed

lemma dropWhile_twice: "dropWhile D (dropWhile D xs) = dropWhile D xs"
  by (induction xs) simp_all

section \<open>Which input ends the program\<close>

text \<open>Lines typed at the menu: a number, or 7 and the name it asks for.\<close>

datatype line = Choice int | Owner string

primrec typed :: "line \<Rightarrow> string" where
  "typed (Choice i) = dec_int i @ nl"
| "typed (Owner u) = dec_int 7 @ nl @ u @ nl"

primrec well_typed :: "line \<Rightarrow> bool" where
  "well_typed (Choice i) \<longleftrightarrow> INT_MIN \<le> i \<and> i \<le> INT_MAX \<and> i \<noteq> 7 \<and> i \<noteq> 11"
| "well_typed (Owner u) \<longleftrightarrow> u \<noteq> [] \<and> length u < 256 \<and> (\<forall>c \<in> set u. \<not> space c)"

primrec obey :: "'w system \<Rightarrow> line \<Rightarrow> 'w demo \<Rightarrow> 'w demo option" where
  "obey os (Choice i) s = quiet_example os i (say menu s)"
| "obey os (Owner u) s = map_option snd (fchown_example os u (say menu s))"

lemma nl_facts: "space (hd nl)" "\<not> digit (hd (nl @ r))" "nl @ r \<noteq> []" "dropWhile space (nl @ r) = dropWhile space r"
  by (simp_all add: nl_def space_def digit_def)

lemma dec_int_start: "dropWhile space (dec_int i @ r) = dec_int i @ r"
proof -
  define ds where "ds = dec_nat (nat \<bar>i\<bar>)"
  have "ds \<noteq> []" "\<forall>c \<in> set ds. digit c" using dec_nat_digits unfolding ds_def by blast+
  then obtain c cs where "ds = c # cs" "digit c" by (cases ds) auto
  with digit_no_sign [of c] show ?thesis unfolding dec_int_sign ds_def [symmetric] by (simp add: space_def)
qed

lemma fchown_reads:
  assumes u: "u \<noteq> []" "length u < 256" "\<forall>c \<in> set u. \<not> space c"
  shows "fchown_example os (nl @ u @ nl @ r) s = map_option (\<lambda>(_, s'). (nl @ r, s')) (fchown_example os u s)"
proof -
  have tw: "takeWhile (\<lambda>c. \<not> space c) (u @ nl @ r) = u" "takeWhile (\<lambda>c. \<not> space c) u = u" "dropWhile space (u @ nl @ r) = u @ nl @ r" "dropWhile space u = u"
    using u takeWhile_digits [of u "\<lambda>c. \<not> space c" "nl @ r"] takeWhile_digits [of u "\<lambda>c. \<not> space c" "[]"]
    by (cases u; simp add: nl_def space_def)+
  have "scanf_s (nl @ u @ nl @ r) = Some (u, nl @ r)" "scanf_s u = Some (u, [])" by (simp_all add: scanf_s_def nl_facts(4) tw u(2) Let_def del: dropWhile_append3)
  then show ?thesis by (simp add: fchown_example_def Let_def split: prod.split)
qed

lemma turn_line:
  assumes l: "well_typed l" and inp: "dropWhile space inp = typed l @ r" and o: "obey os l s = Some s'"
  shows "\<exists>n. main_turn os (number, inp, s) = Some (False, Some n, nl @ r, s')"
proof (cases l)
  case (Choice i)
  have "scanf_d inp = Some (Some i, nl @ r)"
    by (rule scanf_dec_int) (use l inp Choice nl_facts(2,3) in auto)
  with l o Choice show ?thesis by (simp add: main_turn_def selected_def)
next
  case (Owner u)
  have "scanf_d inp = Some (Some 7, nl @ u @ nl @ r)"
    by (rule scanf_dec_int) (use inp Owner nl_facts(2,3) in \<open>auto simp: INT_MIN_def INT_MAX_def\<close>)
  moreover obtain v where "fchown_example os u (say menu s) = Some (v, s')" using o Owner by auto
  moreover have "fchown_example os (nl @ u @ nl @ r) (say menu s) = map_option (\<lambda>(_, s'). (nl @ r, s')) (fchown_example os u (say menu s))"
    by (rule fchown_reads) (use l Owner in auto)
  ultimately show ?thesis by (simp add: main_turn_def selected_def)
qed

lemma turn_exit:
  "dropWhile space inp = dec_int 11 @ nl @ r \<Longrightarrow> main_turn os (number, inp, s) = Some (True, Some 11, nl @ r, say menu s)"
  using scanf_dec_int [of 11 "nl @ r" inp] nl_facts(2,3) by (simp add: main_turn_def INT_MIN_def INT_MAX_def)

lemma typed_start: "dropWhile space (typed l @ r) = typed l @ r"
  by (cases l) (simp_all only: typed.simps append_assoc dec_int_start)

text \<open>When \<open>scanf\<close> finds no number: the space is gone, the input stays, and so does the number.\<close>

definition no_number :: "string \<Rightarrow> bool" where
  "no_number inp \<longleftrightarrow> (case dropWhile space inp of [] \<Rightarrow> True | c # _ \<Rightarrow> \<not> digit c \<and> c \<noteq> CHR ''-'' \<and> c \<noteq> CHR ''+'')"

lemma scanf_no_number: "no_number inp \<Longrightarrow> scanf_d inp = Some (None, dropWhile space inp) \<and> no_number (dropWhile space inp)"
proof (cases "dropWhile space inp")
  case Nil
  show ?thesis by (simp only: scanf_d_def no_number_def Nil) (simp add: sign_def)
next
  case (Cons c cs)
  moreover assume "no_number inp"
  moreover have "\<not> space c" using hd_dropWhile [of space inp] Cons by simp
  ultimately show ?thesis by (simp add: no_number_def scanf_d_def sign_def)
qed

lemma main_turn_stuck:
  assumes "no_number inp" "k \<noteq> 7" "k \<noteq> 11"
  shows "main_turn os (Some k, inp, s) = map_option (\<lambda>s'. (False, Some k, dropWhile space inp, s')) (quiet_example os k (say menu s))"
  using scanf_no_number [OF assms(1)] assms(2,3) by (cases "quiet_example os k (say menu s)") (simp_all add: main_turn_def selected_def)

section \<open>Descriptors\<close>

text \<open>What a series of calls leaves open, on top of what was open before: files and, by \<open>opendir\<close>, directory streams.\<close>

fun held1 :: "int list \<Rightarrow> hw3_call \<times> int \<Rightarrow> int list" where
  "held1 fds (Open f m, r) = (if r = - 1 then fds else r # fds)"
| "held1 fds (Opendir d, r) = (if r = 0 then fds else r # fds)"
| "held1 fds (Close fd, r) = remove1 fd fds"
| "held1 fds _ = fds"

definition held :: "'w demo \<Rightarrow> int list" where
  "held s = foldl held1 [] (d_calls s)"

lemma held_simps [simp]:
  "held (say t s) = held s" "held (snd (sys os c s)) = held1 (held s) (c, a_ret (fst (sys os c s)))"
  "held (run os c s) = held1 (held s) (c, a_ret (fst (sys os c s)))"
  by (simp_all add: held_def say_def sys_def run_def split: prod.split)

lemma sys_pair: "sys os c s = (a, s') \<longleftrightarrow> a = fst (sys os c s) \<and> s' = snd (sys os c s)"
  by auto

lemma readdir_loop_held: "readdir_loop os d s = Some s' \<Longrightarrow> held s' = held s"
proof (erule readdir_loop.raw_induct [where P = "\<lambda>os d s s'. held s' = held s", rotated])
  fix loop os d s s'
  assume IH: "\<And>os d s s'. loop os d s = Some s' \<Longrightarrow> held s' = held s"
    and "(if a_ret (fst (sys os (Readdir d) s)) \<noteq> 0
      then loop os d (say (''Name : '' @ a_bytes (fst (sys os (Readdir d) s)) @ nl) (snd (sys os (Readdir d) s)))
      else Some (snd (sys os (Readdir d) s))) = Some s'"
  then show "held s' = held s" by (auto split: if_splits dest!: IH)
qed

lemma quiet_example_held:
  assumes "quiet_example os n s = Some s'"
  shows "n \<noteq> 9 \<Longrightarrow> held s' = held s" "n = 9 \<Longrightarrow> held s' = held s \<or> (\<exists>d. d \<noteq> 0 \<and> held s' = d # held s)"
proof -
  note ex = lseek_example_def unlink_example_def link_example_def symlink_example_def readlink_example_def fchmod_example_def
    fstat_example_def getcwd_example_def
  show "n \<noteq> 9 \<Longrightarrow> held s' = held s"
    using assms by (auto simp: quiet_example_def ex split_beta Let_def bind_eq_Some_conv split: if_splits)
  show "n = 9 \<Longrightarrow> held s' = held s \<or> (\<exists>d. d \<noteq> 0 \<and> held s' = d # held s)"
    using assms by (auto simp: quiet_example_def readdir_example_def split_beta Let_def bind_eq_Some_conv dest!: readdir_loop_held split: if_splits)
qed

lemma readdir_example_leaks:
  assumes "readdir_example os s = Some s'" "d = a_ret (fst (sys os (Opendir ''.'') (say (banner ''readdir_example'') s)))" "d \<noteq> 0"
  shows "held s' = d # held s"
  using assms by (auto simp: readdir_example_def split_beta Let_def bind_eq_Some_conv dest!: readdir_loop_held)

section \<open>Properties\<close>


text \<open>Input without a number, or its end, keeps the menu busy for ever: the last choice is repeated in every turn.\<close>

lemma hw3_menu_stuck:
  assumes "no_number inp" "k \<noteq> 7" "k \<noteq> 11"
  shows "main_turns os m (Some k, inp, s) = map_option (\<lambda>s'. (False, Some k, if m = 0 then inp else dropWhile space inp, s'))
    (each (\<lambda>_ s. quiet_example os k (say menu s)) [0..<m] s)"
  using assms
proof (induction m arbitrary: inp s)
  case (Suc m)
  have "[0..<Suc m] = 0 # List.map Suc [0..<m]" by (simp add: upt_conv_Cons map_Suc_upt)
  moreover have "each (\<lambda>_. f) (List.map Suc xs) s = each (\<lambda>_. f) xs s" for f :: "'a demo \<Rightarrow> 'a demo option" and xs s
    by (induction xs arbitrary: s) (auto intro: Option.bind_cong)
  ultimately have "each (\<lambda>_. f) [0..<Suc m] s = Option.bind (f s) (each (\<lambda>_. f) [0..<m])" for f :: "'a demo \<Rightarrow> 'a demo option" and s
    by (simp cong: Option.bind_cong)
  then show ?case using main_turn_stuck [OF Suc.prems, of os s] scanf_no_number [OF Suc.prems(1)] Suc.IH [of "dropWhile space inp"] Suc.prems(2,3)
    by (cases "quiet_example os k (say menu s)") (simp_all add: dropWhile_twice del: upt_Suc)
qed simp

section \<open>Witness\<close>

text \<open>A system on which every call returns 0, and four lines: a wrong number, 7 with a name that is unknown, and 11.\<close>

definition zero_system :: "unit system" where
  "zero_system c w = (\<lparr>a_ret = 0, a_bytes = [], a_uid = 0, a_gid = 0, a_stat = None\<rparr>, w)"

definition fresh_demo :: "unit demo" where
  "fresh_demo = \<lparr>d_world = (), d_out = [], d_calls = []\<rparr>"


end
