(* ===== verification/SyscallInvoker.thy ===== *)
theory SyscallInvoker
  imports Prelude
begin

text \<open>
  \<open>src/project3/task2_syscall_invoker.c\<close>: a program that makes one system call, number 322, and prints its result. The call is not part of
  the repository; it is a parameter, from the number and the arguments to the result.
\<close>

definition NR_mycall :: int where "NR_mycall = 322"

definition invoker_main :: "(int \<Rightarrow> int \<Rightarrow> int \<Rightarrow> int) \<Rightarrow> string \<times> int" where
  "invoker_main syscall =
     (let a = 20160000; b = 709; res = syscall NR_mycall a b
      in (''sbhcallforaddition return value : '' @ dec_int res @ [CHR 0x0A], 0))"

text \<open>With the addition its message names, and with the call missing from the kernel.\<close>

lemma invoker_adds: "invoker_main (\<lambda>nr a b. if nr = 322 then a + b else - 1) = (''sbhcallforaddition return value : 20160709'' @ [CHR 0x0A], 0)"
  by (simp add: invoker_main_def NR_mycall_def dec_int_def dec_nat.simps char_of_def bit_Suc_0_iff)

lemma invoker_missing: "invoker_main (\<lambda>nr a b. - 1) = (''sbhcallforaddition return value : -1'' @ [CHR 0x0A], 0)"
  by (simp add: invoker_main_def NR_mycall_def dec_int_def dec_nat.simps char_of_def bit_Suc_0_iff)

end
