(* ===== verification/Thermometer.thy ===== *)
theory Thermometer
  imports Prelude "HOL-Library.Signed_Division"
begin

unbundle bit_operations_syntax

text \<open>
  \<open>src/etc/sketch_may26a.ino\<close>: an Arduino sketch that reads a temperature sensor on the I2C bus and sends the whole degrees to two serial
  lines. The libraries of the board (\<open>Wire\<close>, \<open>Serial\<close>, \<open>SoftwareSerial\<close>, \<open>delay\<close>) are a parameter, a record of operations on a state of
  their own; \<open>byte\<close> and \<open>word\<close> are words of 8 and 16 bits.
\<close>

section \<open>The board\<close>

record 'w board =
  serial_begin :: "int \<Rightarrow> 'w \<Rightarrow> 'w"
  serial_println :: "string \<Rightarrow> 'w \<Rightarrow> 'w"
  bt_begin :: "int \<Rightarrow> 'w \<Rightarrow> 'w"
  bt_available :: "'w \<Rightarrow> int \<times> 'w"
  bt_read :: "'w \<Rightarrow> int \<times> 'w"
  bt_println :: "string \<Rightarrow> 'w \<Rightarrow> 'w"
  wire_begin :: "'w \<Rightarrow> 'w"
  wire_beginTransmission :: "int \<Rightarrow> 'w \<Rightarrow> 'w"
  wire_write :: "8 word \<Rightarrow> 'w \<Rightarrow> 'w"
  wire_requestFrom :: "int \<Rightarrow> int \<Rightarrow> 'w \<Rightarrow> 'w"
  wire_available :: "'w \<Rightarrow> int \<times> 'w"
  wire_read :: "'w \<Rightarrow> int \<times> 'w"
  wire_endTransmission :: "'w \<Rightarrow> 'w"
  board_delay :: "int \<Rightarrow> 'w \<Rightarrow> 'w"

definition temp_addr :: int where "temp_addr = 0x48"

section \<open>The sketch\<close>

text \<open>The two bytes of the register as a temperature.\<close>

definition to_degrees :: "8 word \<Rightarrow> 8 word \<Rightarrow> 8 word" where
  "to_degrees c d =
     (let e = push_bit 8 (ucast c) OR ucast d :: 16 word;
          isNegative = (e AND 0x8000 = 0x8000);
          e = (if isNegative then NOT e + 1 else e);
          c = ucast (drop_bit 8 (e AND 0x7f00)) :: 8 word
      in if isNegative then c * - 1 else c)"

text \<open>The loop that waits for two bytes; it has no other end.\<close>

fun await_two :: "nat \<Rightarrow> 'w board \<Rightarrow> 'w \<Rightarrow> 'w option" where
  "await_two 0 b w = None"
| "await_two (Suc k) b w = (let (n, w) = wire_available b w in if n < 2 then await_two k b w else Some w)"

definition read_temp :: "nat \<Rightarrow> 'w board \<Rightarrow> 'w \<Rightarrow> (8 word \<times> 'w) option" where
  "read_temp fuel b w = do {
     let w = wire_beginTransmission b temp_addr w;
     let w = wire_write b 0x00 w;
     let w = wire_requestFrom b temp_addr 2 w;
     w \<leftarrow> await_two fuel b w;
     let (c, w) = wire_read b w;
     let (d, w) = wire_read b w;
     let w = wire_endTransmission b w;
     Some (to_degrees (word_of_int c) (word_of_int d), w)
   }"

definition sketch_setup :: "nat \<Rightarrow> 'w board \<Rightarrow> 'w \<Rightarrow> (8 word \<times> 'w) option" where
  "sketch_setup fuel b w = do {
     let w = bt_begin b 115200 w;
     let w = serial_begin b 9600 w;
     let w = wire_begin b w;
     let w = wire_beginTransmission b temp_addr w;
     let w = wire_write b 0x01 w;
     let w = wire_write b 0x00 w;
     let w = wire_endTransmission b w;
     (_, w) \<leftarrow> read_temp fuel b w;
     read_temp fuel b w
   }"

text \<open>One turn: the value of \<open>current_temp\<close> and the state of the board. A byte is printed as an unsigned number.\<close>

definition sketch_loop :: "nat \<Rightarrow> 'w board \<Rightarrow> 'w \<Rightarrow> (8 word \<times> 'w) option" where
  "sketch_loop fuel b w = do {
     (current_temp, w) \<leftarrow> read_temp fuel b w;
     let w = serial_println b (dec_int (uint current_temp)) w;
     let (n, w) = bt_available b w;
     let w = (if n \<noteq> 0 then bt_println b (dec_int (uint current_temp)) (snd (bt_read b w)) else w);
     Some (current_temp, board_delay b 400 w)
   }"

section \<open>The conversion\<close>

lemma low_bits: "drop_bit 8 (e AND 0x7f00) = take_bit 7 (drop_bit 8 (e :: 16 word))"
proof -
  have m: "(0x7f00 :: 16 word) = push_bit 8 (mask 7)" by (simp add: mask_eq_exp_minus_1)
  show ?thesis unfolding m by (rule bit_word_eqI) (auto simp: bit_simps)
qed

lemma sign_bit: "e AND 0x8000 = 0x8000 \<longleftrightarrow> sint (e :: 16 word) < 0"
proof -
  have m: "(0x8000 :: 16 word) = push_bit 15 1" by simp
  have "e AND 0x8000 = 0x8000 \<longleftrightarrow> bit e 15"
  proof
    assume "e AND 0x8000 = 0x8000"
    then have "bit (e AND push_bit 15 1) 15 = bit (push_bit 15 1 :: 16 word) 15" unfolding m by simp
    then show "bit e 15" by (simp add: bit_simps)
  next
    assume "bit e 15"
    have "bit (push_bit 15 1 :: 16 word) n \<Longrightarrow> n = 15" for n by (simp only: bit_push_bit_iff bit_1_iff) simp
    with \<open>bit e 15\<close> show "e AND 0x8000 = 0x8000" unfolding m by (intro bit_word_eqI) (metis bit_and_iff)
  qed
  with bit_last_iff [of e] show ?thesis by simp
qed

lemma whole_part:
  assumes "0 \<le> v" "v < 32768"
  shows "(ucast (drop_bit 8 ((word_of_int v :: 16 word) AND 0x7f00)) :: 8 word) = word_of_int (v div 256)"
proof (rule word_uint_eqI)
  have "v div 256 < 128" "0 \<le> v div 256" using assms by linarith+
  then show "uint (ucast (drop_bit 8 ((word_of_int v :: 16 word) AND 0x7f00)) :: 8 word) = uint (word_of_int (v div 256) :: 8 word)"
    unfolding low_bits using assms by (simp add: unsigned_ucast_eq unsigned_take_bit_eq unsigned_drop_bit_eq uint_word_of_int)
      (simp add: drop_bit_eq_div take_bit_eq_mod)
qed

lemma small_sint: "- 128 \<le> x \<Longrightarrow> x < 128 \<Longrightarrow> sint (word_of_int x :: 8 word) = x"
  by (simp add: sint_sbintrunc' signed_take_bit_int_eq_self_iff)

lemma to_degrees_spec:
  assumes T: "T = sint (word_cat c d :: 16 word)" "T \<noteq> - 32768"
  shows "to_degrees c d = word_of_int (T sdiv 256)" "sint (to_degrees c d) = T sdiv 256" "- 127 \<le> T sdiv 256" "T sdiv 256 \<le> 127"
proof -
  let ?e = "word_cat c d :: 16 word"
  have e: "push_bit 8 (ucast c) OR ucast d = ?e" by (simp add: word_cat_eq_push_bit_or)
  have w: "?e = word_of_int T" using T(1) by simp
  have lim: "- 32768 < T" "T < 32768" using sint_ge [of ?e] sint_lt [of ?e] T by simp_all
  have "to_degrees c d = word_of_int (T sdiv 256) \<and> - 127 \<le> T sdiv 256 \<and> T sdiv 256 \<le> 127"
  proof (cases "T < 0")
    case True
    then have neg: "?e AND 0x8000 = 0x8000" using sign_bit T(1) by simp
    have "NOT ?e + 1 = word_of_int (- T)" using w by (simp add: minus_eq_not_plus_1 [symmetric])
    then have "to_degrees c d = - word_of_int ((- T) div 256)"
      unfolding to_degrees_def e using neg whole_part [of "- T"] True lim by simp
    moreover have "T sdiv 256 = - ((- T) div 256)" using True by (simp add: signed_divide_int_def)
    moreover have "(- T) div 256 \<le> 127" "0 \<le> (- T) div 256" using True lim by linarith+
    ultimately show ?thesis by simp
  next
    case False
    then have "\<not> ?e AND 0x8000 = 0x8000" using sign_bit T(1) by simp
    then have "to_degrees c d = word_of_int (T div 256)"
      unfolding to_degrees_def e using w whole_part [of T] False lim by simp
    moreover have "T sdiv 256 = T div 256" using False by (cases "T = 0") (simp_all add: signed_divide_int_def)
    moreover have "T div 256 \<le> 127" "0 \<le> T div 256" using False lim by linarith+
    ultimately show ?thesis by simp
  qed
  then show "to_degrees c d = word_of_int (T sdiv 256)" "- 127 \<le> T sdiv 256" "T sdiv 256 \<le> 127" by blast+
  then show "sint (to_degrees c d) = T sdiv 256" using small_sint by simp
qed

section \<open>Waiting for the sensor\<close>

definition requested :: "'w board \<Rightarrow> 'w \<Rightarrow> 'w" where
  "requested b w = wire_requestFrom b temp_addr 2 (wire_write b 0x00 (wire_beginTransmission b temp_addr w))"

definition polled :: "'w board \<Rightarrow> nat \<Rightarrow> 'w \<Rightarrow> 'w" where
  "polled b i w = ((\<lambda>w. snd (wire_available b w)) ^^ i) w"

text \<open>The sensor answers the request with two bytes, after any number of polls.\<close>

definition answers :: "'w board \<Rightarrow> 'w \<Rightarrow> nat \<Rightarrow> 8 word \<Rightarrow> 8 word \<Rightarrow> 'w \<Rightarrow> bool" where
  "answers b w k hi lo w' \<longleftrightarrow> (\<forall>i < k. fst (wire_available b (polled b i (requested b w))) < 2)
     \<and> 2 \<le> fst (wire_available b (polled b k (requested b w)))
     \<and> (\<exists>w1 w2. wire_read b (polled b (Suc k) (requested b w)) = (uint hi, w1) \<and> wire_read b w1 = (uint lo, w2) \<and> w' = wire_endTransmission b w2)"

lemma polled_Suc: "polled b (Suc i) w = polled b i (snd (wire_available b w))"
  by (simp add: polled_def funpow_Suc_right del: funpow.simps)

lemma await_two_polls:
  "(\<forall>i < k. fst (wire_available b (polled b i w)) < 2) \<Longrightarrow> 2 \<le> fst (wire_available b (polled b k w)) \<Longrightarrow> k < fuel \<Longrightarrow>
   await_two fuel b w = Some (polled b (Suc k) w)"
proof (induction k arbitrary: w fuel)
  case 0
  then obtain f where "fuel = Suc f" by (cases fuel) auto
  with 0 show ?case by (auto simp: polled_def split: prod.split)
next
  case (Suc k)
  then obtain f where f: "fuel = Suc f" "k < f" by (cases fuel) auto
  obtain n w1 where w1: "wire_available b w = (n, w1)" by (cases "wire_available b w")
  have "n < 2" using Suc.prems(1) w1 by (auto simp: polled_def dest: spec [of _ 0])
  moreover have "\<forall>i < k. fst (wire_available b (polled b i w1)) < 2" "2 \<le> fst (wire_available b (polled b k w1))"
    using Suc.prems(1,2) w1 by (auto simp: polled_Suc dest: spec [of _ "Suc _"])
  from Suc.IH [OF this f(2)] have "await_two f b w1 = Some (polled b (Suc k) w1)" .
  ultimately show ?case using f(1) w1 by (simp add: polled_Suc)
qed

text \<open>A sensor that does not answer stops the sketch for ever.\<close>

lemma await_two_silent: "(\<And>i. fst (wire_available b (polled b i w)) < 2) \<Longrightarrow> await_two fuel b w = None"
proof (induction fuel arbitrary: w)
  case (Suc fuel)
  have "fst (wire_available b w) < 2" using Suc.prems [of 0] by (simp add: polled_def)
  moreover have "await_two fuel b (snd (wire_available b w)) = None" by (rule Suc.IH) (use Suc.prems polled_Suc in metis)
  ultimately show ?case by (simp add: split_beta)
qed simp

lemma sketch_silent:
  "(\<And>i. fst (wire_available b (polled b i (requested b w))) < 2) \<Longrightarrow> read_temp fuel b w = None \<and> sketch_loop fuel b w = None"
  using await_two_silent [of b "requested b w" fuel] by (simp add: read_temp_def sketch_loop_def requested_def)

lemma read_temp_answers: "answers b w k hi lo w' \<Longrightarrow> k < fuel \<Longrightarrow> read_temp fuel b w = Some (to_degrees hi lo, w')"
  using await_two_polls [of k b "requested b w" fuel] by (auto simp: answers_def read_temp_def requested_def)

text \<open>The smallest reading, which becomes zero, one below zero and one between -1 and zero.\<close>

lemma to_degrees_edges: "to_degrees 0x80 0x00 = 0" "uint (to_degrees 0xF6 0x80) = 247" "to_degrees 0xFF 0x80 = 0"
  by code_simp+

section \<open>Properties\<close>

text \<open>The start: two readings, of which the second counts.\<close>

lemma setup_readings:
  "w0 = wire_endTransmission b (wire_write b 0x00 (wire_write b 0x01 (wire_beginTransmission b temp_addr (wire_begin b (serial_begin b 9600 (bt_begin b 115200 w)))))) \<Longrightarrow>
   answers b w0 j h l w1 \<Longrightarrow> answers b w1 k hi lo w2 \<Longrightarrow> j < fuel \<Longrightarrow> k < fuel \<Longrightarrow> sketch_setup fuel b w = Some (to_degrees hi lo, w2)"
  by (simp add: sketch_setup_def read_temp_answers)

text \<open>C28. One turn of the sketch, when the sensor answers the request after any number of polls with the bytes of a reading of T
  256ths of a degree other than the smallest 16-bit number: \<open>read_temp\<close> returns the whole degrees, rounded towards zero, as a signed byte between -127 and
  127; the turn prints the byte as an unsigned number, so degrees below zero plus 256, on the serial line, and on the second line exactly when
  something has arrived there.\<close>

theorem thermometer_turn:
  assumes ans: "answers b w k hi lo w'" and fuel: "k < fuel" and T: "T = sint (word_cat hi lo :: 16 word)" "T \<noteq> - 32768"
    and w1: "w1 = serial_println b (dec_int (T sdiv 256 mod 256)) w'" and bt: "bt_available b w1 = (n, w2)"
  shows "\<exists>t. read_temp fuel b w = Some (t, w') \<and> sint t = T sdiv 256 \<and> - 127 \<le> sint t \<and> sint t \<le> 127
    \<and> sketch_loop fuel b w = Some (t, board_delay b 400 (if n = 0 then w2 else bt_println b (dec_int (T sdiv 256 mod 256)) (snd (bt_read b w2))))"
proof -
  note r = read_temp_answers [OF ans fuel] and t = to_degrees_spec [OF T]
  have "uint (to_degrees hi lo) = T sdiv 256 mod 256" unfolding t(1) by (simp add: uint_word_of_int)
  then have "sketch_loop fuel b w = Some (to_degrees hi lo, board_delay b 400 (if n = 0 then w2 else bt_println b (dec_int (T sdiv 256 mod 256)) (snd (bt_read b w2))))"
    using r w1 bt by (simp add: sketch_loop_def)
  with r t(2-4) show ?thesis by simp
qed

section \<open>Witness\<close>

text \<open>A board whose sensor answers -9.5 degrees at the second poll; its state counts polls and reads and keeps what was printed.\<close>

definition cold_board :: "(nat \<times> nat \<times> string list) board" where
  "cold_board = \<lparr>serial_begin = (\<lambda>_ w. w), serial_println = (\<lambda>l (p, r, out). (p, r, out @ [l])), bt_begin = (\<lambda>_ w. w),
     bt_available = (\<lambda>w. (0, w)), bt_read = (\<lambda>w. (- 1, w)), bt_println = (\<lambda>_ w. w), wire_begin = (\<lambda>w. w), wire_beginTransmission = (\<lambda>_ w. w),
     wire_write = (\<lambda>_ w. w), wire_requestFrom = (\<lambda>_ _ (p, r, out). (0, 0, out)), wire_available = (\<lambda>(p, r, out). (if p = 0 then 0 else 2, p + 1, r, out)),
     wire_read = (\<lambda>(p, r, out). (if r = 0 then 0xF6 else 0x80, p, r + 1, out)), wire_endTransmission = (\<lambda>w. w), board_delay = (\<lambda>_ w. w)\<rparr>"

theorem thermometer_turn_witness:
  "\<exists>t. read_temp 5 cold_board (0, 0, []) = Some (t, 2, 2, []) \<and> sint t = - 9 \<and> sketch_loop 5 cold_board (0, 0, []) = Some (t, 2, 2, [''247''])"
proof -
  have "answers cold_board (0, 0, []) 1 0xF6 0x80 (2, 2, [])"
    by (simp add: answers_def cold_board_def polled_def requested_def)
  moreover have "(- 2432 :: int) = sint (word_cat (0xF6 :: 8 word) (0x80 :: 8 word) :: 16 word)" "(- 2432 :: int) sdiv 256 = - 9" "dec_int 247 = ''247''"
    by code_simp+
  moreover have "serial_println cold_board l (p, r, out) = (p, r, out @ [l])" "bt_available cold_board w = (0, w)" "board_delay cold_board i w = w" for l p r out w i
    by (simp_all add: cold_board_def)
  ultimately show ?thesis using thermometer_turn [of cold_board "(0, 0, [])" 1 "0xF6" "0x80" "(2, 2, [])" 5 "- 2432", OF _ _ _ _ refl] by auto
qed

end
