(* ===== verification/Spec2Isabelle.thy ===== *)
theory Spec2Isabelle
  imports Hw1Driver SemaphoreTest ProCon ReadWrite BbfsCoherence BbfsOps RbtDelete Procmon ProcSample ListEntries Dining
    Monkeys RwProgram LedDrivers FsBench FuncExamples SyscallInvoker Thermometer
begin

text \<open>
  A verification development for the programs in \<open>src\<close>, the homework (\<open>hw1\<close> to \<open>hw4\<close>) and projects
  (\<open>project1\<close> to \<open>project5\<close>) of a course on embedded software: kernel modules, POSIX thread programs, a user-space
  file system and benchmarks, in C, and one Arduino sketch (\<open>etc\<close>). The programs do not call each other, with these exceptions: the clients of \<open>hw1\<close>
  and of \<open>project5/task1\<close> use the devices beside them, the semaphore test of \<open>project3\<close> uses the system calls of
  \<open>mysemaphore.c\<close>, and \<open>bbfs.c\<close> uses \<open>list.h\<close>. Each program has a theory of its own, in the order of
  its code: the state, one definition per function (named like it), the abstraction or invariant, the lemmas, the properties
  and their witnesses. This theory imports all of them; a property is marked C and a number in the text before it.

  Conventions.
  \<^item> C arrays are lists with checked access (\<open>arr_get\<close>, \<open>arr_set\<close> of Prelude), pointers are addresses in a
    heap, a partial map. Undefined behaviour, and calls the kernel forbids, have the result \<open>None\<close>; that an operation
    yields \<open>Some\<close> is therefore part of what is proved. Error returns are values.
  \<^item> Integers have the width of the code where it matters (\<open>w word\<close>, or \<open>int\<close> with an explicit wrap);
    elsewhere a lemma bounds them.
  \<^item> A thread program is a function from the thread that moves (with the random numbers it draws) and the state to
    the next state, \<open>None\<close> for a blocked thread; where a step can be undefined its result is an option again.
    \<open>reachable\<close> and \<open>run_schedule\<close> range over all interleavings of these steps. A step is at most one access to shared
    data, unless a lock makes a longer section atomic; the theory says so then.
  \<^item> Code outside the repository is a parameter: the sort of the kernel (\<open>list_sort\<close>), system calls under the file
    system and under the benchmarks, the libraries of an Arduino board, the accounting of processes, \<open>HZ\<close> and the GPIOs of a board, \<open>rand\<close>,
    \<open>atoi\<close> and \<open>realpath\<close>. What is assumed of it is a named predicate (\<open>stable_sorter\<close>, \<open>posix\<close>,
    \<open>streams\<close>, \<open>serves\<close>, \<open>fair\<close>, \<open>free_board\<close>) with a witness that satisfies it.
  \<^item> A loop that may not end has fuel or is a partial function with an option result, and that it ends is proved: the fuel
    of list traversals is the length of the list, that of the tree functions the height or the number of nodes.
  \<^item> Interfaces are locales, interpreted on the definitions of the programs that provide them: \<open>inductive_invariant\<close>
    and \<open>terminating_system\<close> (all thread programs, the kernel semaphores, the file system cache), \<open>bounded_stack\<close>
    (the device of \<open>hw1\<close> and the buffer of \<open>hw2\<close>), \<open>served_requests\<close> (the list device and its clients),
    \<open>op_refinement\<close> (both kinds of kernel lists), \<open>linked_sequence\<close> (the lists as \<open>bbfs.c\<close> uses them) and
    \<open>keyed_order\<close> (the bubble sort).

  Theories, with the code they model.
  \<^item> Prelude: arrays, counting of threads, schedules, the locales.
  \<^item> Hw1Driver: \<open>hw1/hw1_driver.c\<close> and \<open>provider.c\<close>, \<open>consumer.c\<close>, \<open>cleaner.c\<close>. The device
    refines a stack of 256 signed bytes; the consumer tells an empty stack from a value.
  \<^item> ProCon, ReadWrite: \<open>hw2/pro_con.c\<close>, \<open>hw2/read_write.c\<close>. Exclusion, absence of deadlock, and for the first a
    bound on every execution with the final contents.
  \<^item> FuncExamples: \<open>hw3/functions_example.c\<close> and \<open>mem_functions_example.c\<close>. The menu ends for lines of numbers and loops
    for ever on other input; which examples leave a descriptor open; what the memory example prints.
  \<^item> RedBlackTree, RbtBalance, RbtDeleteCases, RbtUnlink, RbtDelete: \<open>hw4/hw4_redblacktree.c\<close>. Insertion and the rotations on
    trees in the heap and the output of \<open>main\<close>; a red-black tree stays one when a task is inserted, after a number of turns
    logarithmic in its size (a subtree and its surroundings are split by a zipper, \<open>plug\<close>); \<open>delete_case1\<close> to \<open>delete_case6\<close>
    restore a missing black node wherever it is (both sides at once, by \<open>fork\<close>), so that \<open>deleteNode\<close> at any node but a leaf leaves
    a red-black tree with the other tasks; the turn of \<open>main\<close> that takes the least task; and the inputs for which the root is
    lost, the order is lost or a null pointer is followed.
  \<^item> Procmon, ProcSample: \<open>project2\<close>. The bubble sort is the stable sort by the criterion, the table lists every
    process; what the writes do.
  \<^item> Mysemaphore, SemaphoreTest: \<open>project3/mysemaphore.c\<close>, \<open>task3_semaphoretest.c\<close>, \<open>task3_mysemaphore.h\<close>. The
    invariant of the wait queues, the order of wake-ups, errors; exclusion, termination and result of the test with the
    semaphore, the bound and a lost update without it, the output of the priority test.
  \<^item> Dining, Monkeys: \<open>project3/task1_dining_philosopher.c\<close>, \<open>task1_training_monkeys.c\<close>. Exclusion in every reachable
    state, progress for the philosophers, and two defects: the philosophers' arrays are one element short, and the trainer can
    leave a monkey waiting.
  \<^item> KList, HList, ListEntries: \<open>project4/list.h\<close>. The operations on the pointers refine operations on sequences and on
    tables of sequences, without touching anything else; the loops over the structs around the nodes visit them in order, and the
    safe ones allow deletion.
  \<^item> BbfsCrypt, BbfsCache, BbfsCoherence, BbfsOps: \<open>project4/bbfs.c\<close>. The cipher and the policy file; the chunk cache as
    a least-recently-used list, its well-formedness, write-back; what aligned reads and writes mean for the contents of a
    file, and the requests for which the cache loses data or is undefined; the handlers over the system calls.
  \<^item> LinkedListDriver, RwProgram: \<open>project5/task1\<close>. The device refines a list without leaking; its clients conserve values;
    the program of ten readers, ten writers and \<open>main\<close> ends, with every request made and the device empty.
  \<^item> LedDrivers: \<open>project5/task2_1\<close> to \<open>task2_4\<close>. Blinking, the button and the binary counter over a board with
    timers.
  \<^item> Thermometer: \<open>etc/sketch_may26a.ino\<close>. The conversion of a reading to whole degrees, what a turn prints, and that a silent sensor
    stops the sketch.
  \<^item> SyscallInvoker: \<open>project3/task2_syscall_invoker.c\<close>, over a parameter for its system call.
  \<^item> FsBench: \<open>project1/fs_bench.c\<close> and \<open>project4/task3_fsbench.c\<close>. The system calls each pass makes; the random
    passes of the first end and visit every block once.

  Not modelled. The files \<open>*.mod.c\<close> are generated. Of \<open>bbfs.c\<close> the logging of the handlers
  is left out (\<open>log.c\<close>, \<open>params.h\<close> are missing) and FUSE is a parameter of
  \<open>main\<close>; of the thread programs the messages about joining and, in the steps, the pauses (a pause allows
  any other step). Tables of file operations, module macros and prototypes have no counterpart. Messages are modelled
  where they carry a result. Allocation by \<open>malloc\<close>, \<open>calloc\<close> and \<open>kzalloc\<close>
  succeeds, except where the code tests it. For the red-black tree, what a deletion does is proved on red-black trees;
  a leaf is deleted without rebalancing, so later deletions can meet other trees, and a rotation at the root leaves
  the root pointer behind (lemma \<open>rbt_deletion_faults\<close>). The nil nodes are assumed to point to their
  parents there, which the first node of a tree violates until its children are replaced (lemma
  \<open>single_task_faults\<close>).
\<close>

end
